(* ===== verification/Prelude.thy ===== *)
theory Prelude
  imports Main "HOL-Library.Word" "HOL-Library.List_Lexorder" "HOL-Library.Multiset"
begin

text \<open>
  Shared vocabulary of the development.

  \<^item> Fallible Rust code returns \<open>'e + 'a\<close>, the error on the left. \<open>bindE\<close> is the question-mark
    operator, \<open>foldE\<close> a loop whose body may return early with an error, \<open>ok_or\<close> is
    \<open>Option::ok_or\<close>.
  \<^item> Byte strings are lists of \<open>8 word\<close>. \<open>to_le\<close>, \<open>from_le\<close>, \<open>to_be\<close>, \<open>from_be\<close> are the
    little- and big-endian integer codecs of the Rust standard library at a byte width.
  \<^item> \<open>usize\<close> and \<open>u64\<close> quantities that only count or measure are \<open>nat\<close> with the checked or
    saturating operations of the source written out; identifiers and hashes are words.
  \<^item> The order on \<open>byte list\<close> is the lexicographic order of \<open>Vec<u8>\<close>.
\<close>

unbundle bit_operations_syntax

section \<open>Fallible computations\<close>

definition bindE :: "'e + 'a \<Rightarrow> ('a \<Rightarrow> 'e + 'b) \<Rightarrow> 'e + 'b" where
  "bindE m f = (case m of Inl e \<Rightarrow> Inl e | Inr x \<Rightarrow> f x)"

definition ok_or :: "'e \<Rightarrow> 'a option \<Rightarrow> 'e + 'a" where
  "ok_or e m = (case m of None \<Rightarrow> Inl e | Some x \<Rightarrow> Inr x)"

text \<open>\<open>Option::expect\<close>: a value \<open>panic\<close> of the error type stands for the panic.\<close>

definition expect :: "'e \<Rightarrow> 'a option \<Rightarrow> 'e + 'a" where
  "expect panic m = ok_or panic m"

definition map_err :: "('e \<Rightarrow> 'f) \<Rightarrow> 'e + 'a \<Rightarrow> 'f + 'a" where
  "map_err h m = (case m of Inl e \<Rightarrow> Inl (h e) | Inr x \<Rightarrow> Inr x)"

fun foldE :: "('s \<Rightarrow> 'a \<Rightarrow> 'e + 's) \<Rightarrow> 's \<Rightarrow> 'a list \<Rightarrow> 'e + 's" where
  "foldE f s [] = Inr s"
| "foldE f s (x # xs) = bindE (f s x) (\<lambda>s'. foldE f s' xs)"

fun mapE :: "('a \<Rightarrow> 'e + 'b) \<Rightarrow> 'a list \<Rightarrow> 'e + 'b list" where
  "mapE f [] = Inr []"
| "mapE f (x # xs) = bindE (f x) (\<lambda>y. bindE (mapE f xs) (\<lambda>ys. Inr (y # ys)))"

named_theorems res_simps "evaluation and inversion of fallible computations"

lemma bindE_Inr [simp]: "bindE (Inr x) f = f x"
  by (simp add: bindE_def)

lemma bindE_Inl [simp]: "bindE (Inl e) f = Inl e"
  by (simp add: bindE_def)

lemma bindE_eq_Inr [res_simps]: "bindE m f = Inr y \<longleftrightarrow> (\<exists>x. m = Inr x \<and> f x = Inr y)"
  by (cases m) auto

lemma bindE_eq_Inl [res_simps]:
  "bindE m f = Inl e \<longleftrightarrow> m = Inl e \<or> (\<exists>x. m = Inr x \<and> f x = Inl e)"
  by (cases m) auto

lemma bindE_cong [fundef_cong]:
  "m = m' \<Longrightarrow> (\<And>x. m' = Inr x \<Longrightarrow> f x = f' x) \<Longrightarrow> bindE m f = bindE m' f'"
  by (cases m') auto

lemma ok_or_simps [simp]: "ok_or e None = Inl e" "ok_or e (Some x) = Inr x"
  by (simp_all add: ok_or_def)

lemma ok_or_eq_Inr [res_simps]: "ok_or e m = Inr x \<longleftrightarrow> m = Some x"
  by (cases m) auto

lemma ok_or_eq_Inl [res_simps]: "ok_or e m = Inl e' \<longleftrightarrow> m = None \<and> e = e'"
  by (cases m) auto

lemma map_err_simps [simp]: "map_err h (Inl e) = Inl (h e)" "map_err h (Inr x) = Inr x"
  by (simp_all add: map_err_def)

lemma map_err_eq_Inr [res_simps]: "map_err h m = Inr x \<longleftrightarrow> m = Inr x"
  by (cases m) auto

lemma map_err_eq_Inl [res_simps]: "map_err h m = Inl f \<longleftrightarrow> (\<exists>e. m = Inl e \<and> f = h e)"
  by (cases m) auto

lemma if_Inl_eq_Inr [res_simps]: "(if c then Inl e else m) = Inr x \<longleftrightarrow> \<not> c \<and> m = Inr x"
  by simp

lemma if_else_Inl_eq_Inr [res_simps]: "(if c then m else Inl e) = Inr x \<longleftrightarrow> c \<and> m = Inr x"
  by simp

lemma foldE_append: "foldE f s (xs @ ys) = bindE (foldE f s xs) (\<lambda>s'. foldE f s' ys)"
  by (induction xs arbitrary: s) (auto simp: bindE_def split: sum.splits)

text \<open>A loop invariant: what the body keeps, the whole loop keeps.\<close>

lemma foldE_invariant:
  assumes "foldE f s xs = Inr t" and "P s"
    and "\<And>s x t. x \<in> set xs \<Longrightarrow> P s \<Longrightarrow> f s x = Inr t \<Longrightarrow> P t"
  shows "P t"
  using assms
proof (induction xs arbitrary: s)
  case (Cons x xs)
  from Cons.prems(1) obtain s' where "f s x = Inr s'" and "foldE f s' xs = Inr t"
    by (auto simp: res_simps)
  with Cons show ?case by (meson list.set_intros)
qed simp

lemma mapE_Inr_iff:
  "mapE f xs = Inr ys \<longleftrightarrow> list_all2 (\<lambda>x y. f x = Inr y) xs ys"
proof (induction xs arbitrary: ys)
  case (Cons x xs)
  show ?case
    by (cases ys) (auto simp: res_simps Cons.IH)
qed auto

lemma mapE_all_Inr: "(\<And>x. x \<in> set xs \<Longrightarrow> f x = Inr (g x)) \<Longrightarrow> mapE f xs = Inr (map g xs)"
  by (induction xs) auto

lemma mapE_Inr_mem: "mapE f xs = Inr ys \<Longrightarrow> x \<in> set xs \<Longrightarrow> \<exists>y. f x = Inr y"
  by (induction xs arbitrary: ys) (auto simp: res_simps)

lemma mapE_Inr_image: "mapE f xs = Inr ys \<Longrightarrow> y \<in> set ys \<Longrightarrow> \<exists>x \<in> set xs. f x = Inr y"
  by (induction xs arbitrary: ys) (auto simp: res_simps)

section \<open>Checked and saturating machine arithmetic on counts\<close>

abbreviation u64_limit :: nat where
  "u64_limit \<equiv> 2 ^ 64"

definition checked_add :: "nat \<Rightarrow> nat \<Rightarrow> nat option" where
  "checked_add a b = (if a + b < u64_limit then Some (a + b) else None)"

definition checked_mul :: "nat \<Rightarrow> nat \<Rightarrow> nat option" where
  "checked_mul a b = (if a * b < u64_limit then Some (a * b) else None)"

definition saturating_add :: "nat \<Rightarrow> nat \<Rightarrow> nat" where
  "saturating_add a b = min (a + b) (u64_limit - 1)"

definition saturating_mul :: "nat \<Rightarrow> nat \<Rightarrow> nat" where
  "saturating_mul a b = min (a * b) (u64_limit - 1)"

lemma checked_add_eq_Some [res_simps]:
  "checked_add a b = Some c \<longleftrightarrow> c = a + b \<and> a + b < u64_limit"
  by (auto simp: checked_add_def)

lemma checked_mul_eq_Some [res_simps]:
  "checked_mul a b = Some c \<longleftrightarrow> c = a * b \<and> a * b < u64_limit"
  by (auto simp: checked_mul_def)

section \<open>Ordered maps\<close>

text \<open>A \<open>BTreeMap\<close> is the list of its entries in key order.\<close>

fun btree_insert :: "'k :: linorder \<Rightarrow> 'v \<Rightarrow> ('k \<times> 'v) list \<Rightarrow> ('k \<times> 'v) list" where
  "btree_insert k v [] = [(k, v)]"
| "btree_insert k v ((k', v') # m) =
     (if k < k' then (k, v) # (k', v') # m else if k = k' then (k, v) # m else (k', v') # btree_insert k v m)"

definition btree_remove :: "'k \<Rightarrow> ('k \<times> 'v) list \<Rightarrow> ('k \<times> 'v) list" where
  "btree_remove k m = filter (\<lambda>kv. fst kv \<noteq> k) m"

lemma map_of_btree_insert [simp]: "map_of (btree_insert k v m) = (map_of m)(k \<mapsto> v)"
  by (induction m) auto

lemma keys_btree_insert [simp]: "fst ` set (btree_insert k v m) = insert k (fst ` set m)"
proof (induction m)
  case (Cons a m)
  then show ?case by (cases a) (simp add: insert_commute)
qed simp

lemma sorted_btree_insert: "sorted_wrt (<) (map fst m) \<Longrightarrow> sorted_wrt (<) (map fst (btree_insert k v m))"
proof (induction m)
  case (Cons a m)
  obtain k' v' where a: "a = (k', v')" by (cases a)
  have "\<forall>x \<in> fst ` set (btree_insert k v m). k' < x" if "k' < k" using Cons.prems that by (simp add: a)
  then show ?case using Cons by (auto simp: a)
qed simp

lemma map_of_btree_remove [simp]: "map_of (btree_remove k m) = (map_of m)(k := None)"
  by (induction m) (auto simp: btree_remove_def fun_eq_iff)

lemma keys_btree_remove [simp]: "fst ` set (btree_remove k m) = fst ` set m - {k}"
  by (auto simp: btree_remove_def)

lemma sorted_btree_remove: "sorted_wrt (<) (map fst m) \<Longrightarrow> sorted_wrt (<) (map fst (btree_remove k m))"
  by (induction m) (auto simp: btree_remove_def)

lemma in_btree_insert: "(k, v) \<in> set (btree_insert k v m)"
  by (induction m) auto

lemma set_btree_insert: "sorted_wrt (<) (map fst m) \<Longrightarrow> set (btree_insert k v m) = insert (k, v) {kv \<in> set m. fst kv \<noteq> k}"
proof (induction m)
  case (Cons a m)
  obtain k' v' where a: "a = (k', v')" by (cases a)
  show ?case using Cons by (auto simp: a)
qed simp

lemma sorted_distinct_keys: "sorted_wrt (<) (ks :: 'k :: linorder list) \<Longrightarrow> distinct ks"
  by (induction ks) auto

section \<open>Byte strings\<close>

type_synonym byte = "8 word"
type_synonym u64 = "64 word"
type_synonym u32 = "32 word"

text \<open>Rust strings as their Unicode scalar values, with the length of their UTF-8 encoding.\<close>

type_synonym uchar = nat
type_synonym ustr = "uchar list"

definition str :: "string \<Rightarrow> ustr" where
  "str s = map of_char s"

definition utf8_len :: "ustr \<Rightarrow> nat" where
  "utf8_len s = sum_list (map (\<lambda>c. if c < 0x80 then 1 else if c < 0x800 then 2 else if c < 0x10000 then 3 else 4) s)"

fun to_le :: "nat \<Rightarrow> nat \<Rightarrow> byte list" where
  "to_le 0 n = []"
| "to_le (Suc w) n = word_of_nat (n mod 256) # to_le w (n div 256)"

fun from_le :: "byte list \<Rightarrow> nat" where
  "from_le [] = 0"
| "from_le (b # bs) = unat b + 256 * from_le bs"

definition to_be :: "nat \<Rightarrow> nat \<Rightarrow> byte list" where
  "to_be w n = rev (to_le w n)"

definition from_be :: "byte list \<Rightarrow> nat" where
  "from_be bs = from_le (rev bs)"

definition slice :: "nat \<Rightarrow> nat \<Rightarrow> 'a list \<Rightarrow> 'a list" where
  "slice a b xs = take (b - a) (drop a xs)"

lemma length_to_le [simp]: "length (to_le w n) = w"
  by (induction w arbitrary: n) auto

lemma length_to_be [simp]: "length (to_be w n) = w"
  by (simp add: to_be_def)

lemma unat_byte_lt: "unat (b :: byte) < 256"
proof -
  have "unat b < 2 ^ LENGTH(8)" by (rule unsigned_less)
  then show ?thesis by simp
qed

lemma from_le_to_le: "from_le (to_le w n) = n mod 256 ^ w"
proof (induction w arbitrary: n)
  case (Suc w)
  have "n mod 256 + 256 * (n div 256 mod 256 ^ w) = n mod (256 * 256 ^ w)"
    by (simp add: mod_mult2_eq add.commute)
  moreover have "unat (word_of_nat (n mod 256) :: byte) = n mod 256"
    by (simp add: unat_of_nat)
  ultimately show ?case by (simp add: Suc.IH)
qed auto

lemma from_le_to_le_id [simp]: "n < 256 ^ w \<Longrightarrow> from_le (to_le w n) = n"
  by (simp add: from_le_to_le)

lemma from_le_bound: "from_le bs < 256 ^ length bs"
proof (induction bs)
  case (Cons b bs)
  then show ?case using unat_byte_lt [of b] by simp
qed auto

lemma to_le_from_le: "to_le (length bs) (from_le bs) = bs"
proof (induction bs)
  case (Cons b bs)
  have "(unat b + 256 * from_le bs) mod 256 = unat b"
    using unat_byte_lt [of b] by simp
  moreover have "(unat b + 256 * from_le bs) div 256 = from_le bs"
    using unat_byte_lt [of b] by simp
  ultimately show ?case by (simp add: Cons.IH)
qed auto

lemma to_le_inject: "m < 256 ^ w \<Longrightarrow> n < 256 ^ w \<Longrightarrow> to_le w m = to_le w n \<longleftrightarrow> m = n"
  by (metis from_le_to_le_id)

lemma from_be_to_be [simp]: "n < 256 ^ w \<Longrightarrow> from_be (to_be w n) = n"
  by (simp add: from_be_def to_be_def)

lemma to_be_from_be: "to_be (length bs) (from_be bs) = bs"
  using to_le_from_le [of "rev bs"] by (simp add: to_be_def from_be_def)

lemma to_be_inject: "m < 256 ^ w \<Longrightarrow> n < 256 ^ w \<Longrightarrow> to_be w m = to_be w n \<longleftrightarrow> m = n"
  by (simp add: to_be_def to_le_inject)

lemma from_be_bound: "from_be bs < 256 ^ length bs"
  using from_le_bound [of "rev bs"] by (simp add: from_be_def)

section \<open>Lexicographic order of byte strings\<close>

lemma less_append_same_length:
  fixes a b x y :: "'a::linorder list"
  assumes "length a = length b"
  shows "a @ x < b @ y \<longleftrightarrow> a < b \<or> a = b \<and> x < y"
  using assms by (induction a b rule: list_induct2) auto

lemma to_be_Suc: "to_be (Suc w) n = to_be w (n div 256) @ [word_of_nat (n mod 256)]"
  by (simp add: to_be_def)

lemma byte_of_mod_less: "(word_of_nat (m mod 256) :: byte) < word_of_nat (n mod 256) \<longleftrightarrow> m mod 256 < n mod 256"
  by (simp add: word_less_nat_alt unat_of_nat)

lemma digit_less_iff:
  fixes q r :: nat
  assumes "r < 256" and "r' < 256"
  shows "256 * q + r < 256 * q' + r' \<longleftrightarrow> q < q' \<or> q = q' \<and> r < r'"
  using assms by linarith

text \<open>Big-endian integers of one width sort like the integers.\<close>

lemma to_be_less:
  assumes "m < 256 ^ w" and "n < 256 ^ w"
  shows "to_be w m < to_be w n \<longleftrightarrow> m < n"
  using assms
proof (induction w arbitrary: m n)
  case 0
  then show ?case by (simp add: to_be_def)
next
  case (Suc w)
  have d: "m div 256 < 256 ^ w" "n div 256 < 256 ^ w"
    using Suc.prems by (auto simp: less_mult_imp_div_less mult.commute)
  have "to_be (Suc w) m < to_be (Suc w) n \<longleftrightarrow>
      m div 256 < n div 256 \<or> m div 256 = n div 256 \<and> m mod 256 < n mod 256"
    using d by (simp add: to_be_Suc less_append_same_length Suc.IH to_be_inject byte_of_mod_less)
  also have "\<dots> \<longleftrightarrow> m < n"
    using digit_less_iff [of "m mod 256" "n mod 256" "m div 256" "n div 256"] by simp
  finally show ?case .
qed

section \<open>Slices\<close>

lemma slice_0 [simp]: "slice 0 n xs = take n xs"
  by (simp add: slice_def)

lemma length_slice [simp]: "b \<le> length xs \<Longrightarrow> length (slice a b xs) = b - a"
  by (simp add: slice_def)

lemma slice_append_left: "b \<le> length xs \<Longrightarrow> slice a b (xs @ ys) = slice a b xs"
  by (simp add: slice_def)

lemma slice_append_right:
  "length xs \<le> a \<Longrightarrow> slice a b (xs @ ys) = slice (a - length xs) (b - length xs) ys"
  by (simp add: slice_def)

lemma slice_append_mid: "a = length xs \<Longrightarrow> b = a + length ys \<Longrightarrow> slice a b (xs @ ys @ zs) = ys"
  by (simp add: slice_def)

lemma slice_concat_chunks:
  assumes "\<And>x. x \<in> set xs \<Longrightarrow> length (f x) = w" and "i < length xs"
  shows "slice (i * w) ((i + 1) * w) (concat (map f xs)) = f (xs ! i)"
  using assms
proof (induction xs arbitrary: i)
  case (Cons x xs)
  show ?case
  proof (cases i)
    case 0
    with Cons.prems show ?thesis by simp
  next
    case (Suc j)
    with Cons.prems have "slice (j * w) ((j + 1) * w) (concat (map f xs)) = f (xs ! j)"
      by (intro Cons.IH) auto
    with Suc Cons.prems show ?thesis by (simp add: slice_append_right)
  qed
qed simp

section \<open>Words\<close>

lemma and_not_mask: "(x :: u64) AND NOT (mask k) = push_bit k (drop_bit k x)"
  by (rule bit_word_eqI) (auto simp: bit_simps)

lemma unat_and_not_mask:
  assumes "x < u64_limit"
  shows "unat ((word_of_nat x :: u64) AND NOT (mask k)) = x div 2 ^ k * 2 ^ k"
proof -
  have "unat ((word_of_nat x :: u64) AND NOT (mask k)) = take_bit 64 (push_bit k (drop_bit k x))"
    using assms by (simp add: and_not_mask unsigned_push_bit_eq unsigned_drop_bit_eq unat_of_nat take_bit_eq_mod)
  also have "\<dots> = (x div 2 ^ k * 2 ^ k) mod u64_limit"
    by (simp add: take_bit_eq_mod push_bit_eq_mult drop_bit_eq_div)
  also have "\<dots> = x div 2 ^ k * 2 ^ k"
    by (intro mod_less order.strict_trans1 [OF _ assms]) simp
  finally show ?thesis .
qed

lemma u32_from_to_le [simp]: "word_of_nat (from_le (to_le 4 (unat w))) = (w :: u32)"
proof -
  have "unat w < 2 ^ LENGTH(32)" by (rule unsigned_less)
  then show ?thesis by simp
qed

lemma u64_from_to_le [simp]: "word_of_nat (from_le (to_le 8 (unat w))) = (w :: u64)"
proof -
  have "unat w < 2 ^ LENGTH(64)" by (rule unsigned_less)
  then show ?thesis by simp
qed

section \<open>Adjacent pairs and order\<close>

text \<open>\<open>windows_any P xs\<close> is \<open>xs.windows(2).any(P)\<close>.\<close>

fun windows_any :: "('a \<Rightarrow> 'a \<Rightarrow> bool) \<Rightarrow> 'a list \<Rightarrow> bool" where
  "windows_any P (x # y # zs) = (P x y \<or> windows_any P (y # zs))"
| "windows_any P _ = False"

lemma windows_any_sorted_ids:
  assumes "sorted (map f xs)" and "\<not> windows_any (\<lambda>x y. f x = f y) xs"
  shows "sorted_wrt (<) (map f xs)"
  using assms
proof (induction xs rule: induct_list012)
  case (3 x y zs)
  then have "sorted_wrt (<) (map f (y # zs))" and "f x < f y" by auto
  then show ?case by (auto intro: less_trans)
qed auto

lemma no_overlap_sorted:
  fixes rs :: "(nat \<times> nat) list"
  shows "sorted_wrt (\<lambda>x y. snd x \<le> fst y) rs \<Longrightarrow> \<not> windows_any (\<lambda>x y. snd x > fst y) rs"
  by (induction rs rule: induct_list012) auto

lemma no_overlap_pairwise:
  fixes rs :: "(nat \<times> nat) list"
  assumes "\<not> windows_any (\<lambda>x y. snd x > fst y) rs" and "\<forall>r \<in> set rs. fst r \<le> snd r"
  shows "sorted_wrt (\<lambda>x y. snd x \<le> fst y) rs"
  using assms
proof (induction rs rule: induct_list012)
  case (3 x y zs)
  then have s: "sorted_wrt (\<lambda>x y. snd x \<le> fst y) (y # zs)" and xy: "snd x \<le> fst y" "fst y \<le> snd y"
    by auto
  then show ?case by fastforce
qed auto


lemma sorted_wrt_mset_sym:
  assumes "mset xs = mset ys" and "sorted_wrt R xs" and "\<And>x y. R x y \<Longrightarrow> R y x"
  shows "sorted_wrt R ys"
  using assms(1,2)
proof (induction xs arbitrary: ys)
  case (Cons x xs)
  then have "x \<in> set ys" by (metis list.set_intros(1) mset_eq_setD)
  then obtain ys1 ys2 where ys: "ys = ys1 @ x # ys2" by (auto dest: split_list)
  with Cons.prems have m: "mset xs = mset (ys1 @ ys2)" by simp
  then have "sorted_wrt R (ys1 @ ys2)" using Cons by simp
  moreover have "set xs = set ys1 \<union> set ys2" using mset_eq_setD [OF m] by simp
  ultimately show ?case using Cons.prems by (auto simp: ys sorted_wrt_append intro: assms(3))
qed simp

lemma distinct_pair_sorted_wrt:
  assumes "distinct xs" and "sorted_wrt R (map f xs)" and "\<And>x y. R x y \<Longrightarrow> R y x"
    and "x \<in> set xs" and "y \<in> set xs" and "x \<noteq> y"
  shows "R (f x) (f y)"
  using assms(1,2,4,5,6) by (induction xs) (auto intro: assms(3))

section \<open>Binary search\<close>

text \<open>
  \<open>slice::binary_search\<close> of the standard library: \<open>Ok\<close> (on the right) with the index of a
  match, \<open>Err\<close> with the insertion point otherwise.
\<close>

function bs_loop :: "'a::linorder list \<Rightarrow> 'a \<Rightarrow> nat \<Rightarrow> nat \<Rightarrow> nat" where
  "bs_loop xs x base sz =
     (if sz > 1
      then let half = sz div 2; mid = base + half
           in bs_loop xs x (if xs ! mid > x then base else mid) (sz - half)
      else base)"
  by auto
termination by (relation "measure (\<lambda>(_, _, _, sz). sz)") auto

declare bs_loop.simps [simp del]

definition binary_search :: "'a::linorder list \<Rightarrow> 'a \<Rightarrow> nat + nat" where
  "binary_search xs x =
     (if xs = [] then Inl 0
      else let base = bs_loop xs x 0 (length xs)
           in if xs ! base = x then Inr base
              else Inl (if xs ! base < x then base + 1 else base))"

lemma bs_loop_bounds:
  assumes "0 < sz" and "base + sz \<le> length xs" and "0 < base \<longrightarrow> xs ! base \<le> x"
    and "\<forall>i. base + sz \<le> i \<and> i < length xs \<longrightarrow> x < xs ! i" and "sorted xs"
  defines "r \<equiv> bs_loop xs x base sz"
  shows "r < length xs \<and> (0 < r \<longrightarrow> xs ! r \<le> x) \<and> (\<forall>i. r < i \<and> i < length xs \<longrightarrow> x < xs ! i)"
  using assms(1-5) unfolding r_def
proof (induction xs x base sz rule: bs_loop.induct)
  case (1 xs x base sz)
  let ?mid = "base + sz div 2"
  consider "sz = 1" | "sz > 1" "x < xs ! ?mid" | "sz > 1" "xs ! ?mid \<le> x"
    using "1.prems"(1) by (cases "sz = 1"; cases "x < xs ! ?mid") (auto simp: not_less)
  then show ?case
  proof cases
    case 1
    with "1.prems" show ?thesis by (simp add: bs_loop.simps [of xs x base "Suc 0"] Suc_le_eq)
  next
    case 2
    then have eq: "bs_loop xs x base sz = bs_loop xs x base (sz - sz div 2)"
      by (simp add: bs_loop.simps [of xs x base sz] Let_def)
    have "x < xs ! i" if "?mid \<le> i" "i < length xs" for i
      using 2(2) sorted_nth_mono [OF \<open>sorted xs\<close> that] by simp
    moreover have "?mid \<le> base + (sz - sz div 2)" by simp
    ultimately have a: "\<forall>i. base + (sz - sz div 2) \<le> i \<and> i < length xs \<longrightarrow> x < xs ! i"
      by (meson order_trans)
    have b: "0 < sz - sz div 2" "base + (sz - sz div 2) \<le> length xs"
      using 2(1) "1.prems"(2) by linarith+
    have c: "(if x < xs ! ?mid then base else ?mid) = base" using 2(2) by simp
    show ?thesis
      unfolding eq by (rule "1.IH" [OF 2(1) refl refl, unfolded c, OF b "1.prems"(3) a "1.prems"(5)])
  next
    case 3
    then have eq: "bs_loop xs x base sz = bs_loop xs x ?mid (sz - sz div 2)"
      by (simp add: bs_loop.simps [of xs x base sz] Let_def not_less [symmetric])
    have b: "?mid + (sz - sz div 2) = base + sz" "0 < sz - sz div 2" using 3(1) by linarith+
    have c: "(if x < xs ! ?mid then base else ?mid) = ?mid" using 3(2) by simp
    show ?thesis
      unfolding eq using 3(2)
      by (intro "1.IH" [OF 3(1) refl refl, unfolded c b(1), OF b(2) "1.prems"(2) _ "1.prems"(4,5)]) simp
  qed
qed

text \<open>On a sorted slice the search is exact: a match, or the insertion point.\<close>

lemma binary_search_spec:
  assumes "sorted xs"
  shows "case binary_search xs x of
      Inr i \<Rightarrow> i < length xs \<and> xs ! i = x
    | Inl i \<Rightarrow> i \<le> length xs \<and> (\<forall>j < i. xs ! j < x) \<and> (\<forall>j. i \<le> j \<and> j < length xs \<longrightarrow> x < xs ! j)"
proof (cases "xs = []")
  case False
  let ?r = "bs_loop xs x 0 (length xs)"
  have "?r < length xs \<and> (0 < ?r \<longrightarrow> xs ! ?r \<le> x) \<and> (\<forall>i. ?r < i \<and> i < length xs \<longrightarrow> x < xs ! i)"
    by (rule bs_loop_bounds) (use assms False in auto)
  then have r: "?r < length xs" "0 < ?r \<longrightarrow> xs ! ?r \<le> x" "\<And>i. ?r < i \<Longrightarrow> i < length xs \<Longrightarrow> x < xs ! i"
    by blast+
  have le: "j \<le> ?r \<Longrightarrow> xs ! j \<le> xs ! ?r" for j
    using sorted_nth_mono [OF assms _ r(1)] by blast
  consider "xs ! ?r = x" | "xs ! ?r < x" | "x < xs ! ?r" by (rule linorder_cases)
  then show ?thesis
  proof cases
    case 2
    then have "xs ! j < x" if "j \<le> ?r" for j using le [OF that] by simp
    moreover have "xs ! ?r \<noteq> x" using 2 by simp
    ultimately show ?thesis
      using 2 r(1,3) False by (simp add: binary_search_def Let_def less_Suc_eq_le Suc_le_eq)
  next
    case 3
    with r(2) have "?r = 0" by auto
    with 3 r(3) have "x < xs ! j" if "j < length xs" for j using that by (cases j) auto
    moreover have "\<not> xs ! ?r < x" "xs ! ?r \<noteq> x" using 3 by auto
    ultimately show ?thesis using \<open>?r = 0\<close> False by (simp add: binary_search_def Let_def)
  qed (use r(1) False in \<open>simp add: binary_search_def Let_def\<close>)
qed (simp add: binary_search_def)

lemma binary_search_Inr:
  assumes "sorted_wrt (<) xs"
  shows "binary_search xs x = Inr i \<longleftrightarrow> i < length xs \<and> xs ! i = x"
proof -
  have s: "sorted xs" "distinct xs" using assms by (auto simp: strict_sorted_iff)
  show ?thesis
    using binary_search_spec [OF s(1), of x] s(2)
    by (cases "binary_search xs x") (auto simp: nth_eq_iff_index_eq, metis linorder_not_le order_less_irrefl)
qed

lemma binary_search_Inl_notin:
  assumes "sorted xs" and "binary_search xs x = Inl i"
  shows "x \<notin> set xs"
  using binary_search_spec [OF assms(1), of x] assms(2)
  by (auto simp: in_set_conv_nth) (metis linorder_not_le order_less_irrefl)

section \<open>Chunks\<close>

definition chunks_exact :: "nat \<Rightarrow> 'a list \<Rightarrow> 'a list list" where
  "chunks_exact w xs = map (\<lambda>i. slice (i * w) ((i + 1) * w) xs) [0..<length xs div w]"

lemma length_concat_chunks:
  "(\<And>x. x \<in> set xs \<Longrightarrow> length (f x) = w) \<Longrightarrow> length (concat (map f xs)) = length xs * w"
  by (induction xs) auto

lemma chunks_exact_concat:
  assumes "\<And>x. x \<in> set xs \<Longrightarrow> length (f x) = w" and "0 < w"
  shows "chunks_exact w (concat (map f xs)) = map f xs"
  unfolding chunks_exact_def using assms
  by (intro nth_equalityI) (auto simp: length_concat_chunks slice_concat_chunks [simplified])

section \<open>Interfaces\<close>

text \<open>A codec reads back what it wrote, on the values it is meant for.\<close>

locale codec =
  fixes enc :: "'a \<Rightarrow> 'b" and dec :: "'b \<Rightarrow> 'e + 'a" and ok :: "'a \<Rightarrow> bool"
  assumes dec_enc: "ok x \<Longrightarrow> dec (enc x) = Inr x"
begin

lemma enc_inject: "ok x \<Longrightarrow> ok y \<Longrightarrow> enc x = enc y \<longleftrightarrow> x = y"
  by (metis dec_enc sum.inject(2))

lemma dec_enc_iff: "ok x \<Longrightarrow> dec (enc x) = Inr y \<longleftrightarrow> y = x"
  by (auto simp: dec_enc)

end

text \<open>A state machine with an invariant: what starts it satisfies it and every step keeps it.\<close>

locale invariant_system =
  fixes start :: "'s \<Rightarrow> bool" and step :: "'s \<Rightarrow> 's \<Rightarrow> bool" and inv :: "'s \<Rightarrow> bool"
  assumes inv_start: "start s \<Longrightarrow> inv s"
    and inv_step: "inv s \<Longrightarrow> step s t \<Longrightarrow> inv t"
begin

lemma inv_reachable: "start s \<Longrightarrow> step\<^sup>*\<^sup>* s t \<Longrightarrow> inv t"
  by (erule rtranclp_induct) (auto intro: inv_start inv_step)

lemma inv_kept: "inv s \<Longrightarrow> step\<^sup>*\<^sup>* s t \<Longrightarrow> inv t"
  by (erule rtranclp_induct) (auto intro: inv_step)

end

end
