(* ===== verification/Graph_Types.thy ===== *)
theory Graph_Types
  imports Prelude
begin

text \<open>
  The shared graph vocabulary of \<open>chirondb-types/src/graph.rs\<close> and the error type of
  \<open>chirondb-types/src/error.rs\<close>.

  A \<open>Nid\<close> or \<open>EdgeId\<close> packs a 24-bit allocator epoch above a 40-bit counter in one \<open>u64\<close>. An
  error keeps the variant of the source and its message; a message is a value of a component's
  own message type \<open>'m\<close>, one constructor per message text, so the formatted path, index or
  number in a text is not represented.
\<close>

unbundle bit_operations_syntax

section \<open>Errors\<close>

datatype GraphErrorCode =
    GraphDisabled | EndpointNotFound | EdgeNotFound | TypeNotFound | EpochMismatch
  | TooManyAnchors | TooManyTypes | BatchTooLarge | DepthExceeded | PropertyTooLarge
  | BatchBytesExceeded | InvalidBudget | Overloaded | Cancelled | SloUnavailable
  | TenantMoveHasEdges | EdgesExist | DeferredSessionNotFound | DeferredEndpointsRemain
  | AllocatorExhausted

datatype 'm GraphError =
  GraphError (code: GraphErrorCode) (message: 'm) (item_index: "nat option")
    (retry_after_ms: "nat option")

definition graph_error_new :: "GraphErrorCode \<Rightarrow> 'm \<Rightarrow> 'm GraphError" where
  "graph_error_new c m = GraphError c m None None"

definition with_item_index :: "nat \<Rightarrow> 'm GraphError \<Rightarrow> 'm GraphError" where
  "with_item_index i e = GraphError (code e) (message e) (Some i) (retry_after_ms e)"

definition with_retry_after_ms :: "nat \<Rightarrow> 'm GraphError \<Rightarrow> 'm GraphError" where
  "with_retry_after_ms t e = GraphError (code e) (message e) (item_index e) (Some t)"

datatype 'm GaussError =
    Security 'm
  | Graph "'m GraphError"
  | CollectionExists string
  | CollectionNotFound string
  | PointNotFound ustr
  | DuplicateKey
  | DimensionMismatch nat nat
  | InvalidCollectionName string
  | InvalidRequest 'm
  | SqlRowPreconditionFailed nat nat
  | ResourceExhausted 'm
  | AuditUnavailable 'm
  | DataDirLocked "string option"
  | WalCorruption 'm
  | WalUnavailable 'm
  | CommitOutcomeUnknown string
  | CommitRejected string
  | SegmentCorruption 'm
  | Io
  | Json

type_synonym ('m, 'a) result = "'m GaussError + 'a"

section \<open>Packed identifiers\<close>

definition GRAPH_ALLOCATOR_EPOCH_BITS :: nat where
  "GRAPH_ALLOCATOR_EPOCH_BITS = 24"

definition GRAPH_ALLOCATOR_COUNTER_BITS :: nat where
  "GRAPH_ALLOCATOR_COUNTER_BITS = 40"

definition GRAPH_ALLOCATOR_MAX_EPOCH :: u32 where
  "GRAPH_ALLOCATOR_MAX_EPOCH = push_bit GRAPH_ALLOCATOR_EPOCH_BITS 1 - 1"

definition GRAPH_ALLOCATOR_MAX_COUNTER :: u64 where
  "GRAPH_ALLOCATOR_MAX_COUNTER = push_bit GRAPH_ALLOCATOR_COUNTER_BITS 1 - 1"

type_synonym nid = u64
type_synonym edge_id = u64
type_synonym type_id = u32

definition nid_UNASSIGNED :: nid where
  "nid_UNASSIGNED = 0"

definition nid_from_parts :: "u32 \<Rightarrow> u64 \<Rightarrow> nid option" where
  "nid_from_parts epoch counter =
     (if epoch = 0 \<or> epoch > GRAPH_ALLOCATOR_MAX_EPOCH \<or> counter = 0
         \<or> counter > GRAPH_ALLOCATOR_MAX_COUNTER
      then None
      else Some (push_bit GRAPH_ALLOCATOR_COUNTER_BITS (ucast epoch) OR counter))"

definition nid_epoch :: "nid \<Rightarrow> u32" where
  "nid_epoch n = ucast (drop_bit GRAPH_ALLOCATOR_COUNTER_BITS n)"

definition nid_counter :: "nid \<Rightarrow> u64" where
  "nid_counter n = n AND GRAPH_ALLOCATOR_MAX_COUNTER"

definition nid_is_assigned :: "nid \<Rightarrow> bool" where
  "nid_is_assigned n \<longleftrightarrow> n \<noteq> 0"

definition edge_from_parts :: "u32 \<Rightarrow> u64 \<Rightarrow> edge_id option" where
  "edge_from_parts epoch counter =
     (if epoch = 0 \<or> epoch > GRAPH_ALLOCATOR_MAX_EPOCH \<or> counter = 0
         \<or> counter > GRAPH_ALLOCATOR_MAX_COUNTER
      then None
      else Some (push_bit GRAPH_ALLOCATOR_COUNTER_BITS (ucast epoch) OR counter))"

definition edge_epoch :: "edge_id \<Rightarrow> u32" where
  "edge_epoch e = ucast (drop_bit GRAPH_ALLOCATOR_COUNTER_BITS e)"

definition edge_counter :: "edge_id \<Rightarrow> u64" where
  "edge_counter e = e AND GRAPH_ALLOCATOR_MAX_COUNTER"

lemma max_epoch_num: "GRAPH_ALLOCATOR_MAX_EPOCH = 16777215"
  by (simp add: GRAPH_ALLOCATOR_MAX_EPOCH_def GRAPH_ALLOCATOR_EPOCH_BITS_def)

lemma max_counter_num: "GRAPH_ALLOCATOR_MAX_COUNTER = 1099511627775"
  by (simp add: GRAPH_ALLOCATOR_MAX_COUNTER_def GRAPH_ALLOCATOR_COUNTER_BITS_def)

lemma max_counter_mask: "GRAPH_ALLOCATOR_MAX_COUNTER = mask 40"
  by (simp add: max_counter_num mask_eq_exp_minus_1)

lemma nid_counter_take_bit: "nid_counter n = take_bit 40 n"
  by (simp add: nid_counter_def max_counter_mask take_bit_eq_mask)

lemma unat_nid_counter: "unat (nid_counter n) = unat n mod 2 ^ 40"
  by (simp add: nid_counter_take_bit take_bit_eq_mod unat_mod_distrib)

lemma unat_nid_epoch: "unat (nid_epoch n) = unat n div 2 ^ 40"
proof -
  have "unat n < 2 ^ LENGTH(64)" by (rule unsigned_less)
  then have "unat n div 2 ^ 40 < 2 ^ 24" by simp
  then show ?thesis
    by (simp add: nid_epoch_def GRAPH_ALLOCATOR_COUNTER_BITS_def unsigned_ucast_eq
        drop_bit_eq_div unat_div_distrib take_bit_eq_mod)
qed

lemma nid_ext: "nid_epoch m = nid_epoch n \<Longrightarrow> nid_counter m = nid_counter n \<Longrightarrow> m = n"
  by (metis div_mult_mod_eq unat_nid_counter unat_nid_epoch word_unat_eq_iff)

lemma unat_pack:
  assumes "unat (e :: u32) < 2 ^ 24" and "unat (c :: u64) < 2 ^ 40"
  shows "unat (push_bit 40 (ucast e) OR c :: u64) = unat e * 2 ^ 40 + unat c"
proof -
  have c: "take_bit 40 c = c"
    using assms(2) by (simp add: word_unat_eq_iff take_bit_eq_mod unat_mod_distrib)
  have "push_bit 40 (ucast e) AND take_bit 40 c = (0 :: u64)"
    by (auto simp: bit_eq_iff bit_simps)
  then have "push_bit 40 (ucast e) OR c = (push_bit 40 (ucast e) + c :: u64)"
    using c by (simp add: disjunctive_add_eq_or)
  moreover have "unat (push_bit 40 (ucast e) :: u64) = unat e * 2 ^ 40"
    using assms(1)
    by (simp add: push_bit_eq_mult unat_word_ariths unsigned_ucast_eq take_bit_eq_mod)
  ultimately show ?thesis
    using assms by (simp add: unat_word_ariths)
qed

lemma max_epoch_le: "e \<le> GRAPH_ALLOCATOR_MAX_EPOCH \<longleftrightarrow> unat e < 2 ^ 24"
  by (simp add: max_epoch_num word_le_nat_alt) arith

lemma max_counter_le: "c \<le> GRAPH_ALLOCATOR_MAX_COUNTER \<longleftrightarrow> unat c < 2 ^ 40"
  by (simp add: max_counter_num word_le_nat_alt) arith

lemma nid_from_parts_Some:
  "nid_from_parts e c = Some n \<longleftrightarrow>
     e \<noteq> 0 \<and> c \<noteq> 0 \<and> unat e < 2 ^ 24 \<and> unat c < 2 ^ 40 \<and> unat n = unat e * 2 ^ 40 + unat c"
proof (cases "e = 0 \<or> c = 0 \<or> \<not> unat e < 2 ^ 24 \<or> \<not> unat c < 2 ^ 40")
  case True
  then have "nid_from_parts e c = None"
    by (auto simp: nid_from_parts_def not_le [symmetric] max_epoch_le max_counter_le)
  with True show ?thesis by auto
next
  case False
  then have "nid_from_parts e c = Some (push_bit 40 (ucast e) OR c)"
    by (simp add: nid_from_parts_def not_less [symmetric] GRAPH_ALLOCATOR_COUNTER_BITS_def)
      (simp add: not_less max_epoch_le max_counter_le)
  with False show ?thesis
    using unat_pack [of e c] by (auto simp: word_unat_eq_iff [of _ n])
qed

lemma nid_counter_bound: "unat (nid_counter n) < 2 ^ 40"
  by (simp add: unat_nid_counter)

lemma nid_epoch_bound: "unat (nid_epoch n) < 2 ^ 24"
proof -
  have "unat n < 2 ^ LENGTH(64)" by (rule unsigned_less)
  then show ?thesis by (simp add: unat_nid_epoch)
qed

lemma edge_is_nid:
  "edge_from_parts = nid_from_parts" "edge_epoch = nid_epoch" "edge_counter = nid_counter"
  by (auto simp: fun_eq_iff edge_from_parts_def nid_from_parts_def edge_epoch_def nid_epoch_def
      edge_counter_def nid_counter_def)

lemma nid_from_parts_epoch_counter:
  assumes "nid_from_parts e c = Some n"
  shows "nid_epoch n = e" and "nid_counter n = c"
  using assms
  by (auto simp: nid_from_parts_Some word_unat_eq_iff [of "nid_epoch n"]
      word_unat_eq_iff [of "nid_counter n"] unat_nid_epoch unat_nid_counter)

text \<open>
  C40. Packing is a bijection with its parts: \<open>Nid::from_parts\<close> accepts exactly the epochs and
  counters of the allocator's range, and then \<open>epoch()\<close> and \<open>counter()\<close> read back what was packed.
\<close>

theorem nid_parts_roundtrip:
  "(nid_from_parts e c = Some n) \<longleftrightarrow>
     (nid_epoch n = e \<and> nid_counter n = c \<and> e \<noteq> 0 \<and> c \<noteq> 0)"
proof
  assume "nid_from_parts e c = Some n"
  then show "nid_epoch n = e \<and> nid_counter n = c \<and> e \<noteq> 0 \<and> c \<noteq> 0"
    using nid_from_parts_epoch_counter nid_from_parts_Some by blast
next
  assume "nid_epoch n = e \<and> nid_counter n = c \<and> e \<noteq> 0 \<and> c \<noteq> 0"
  then show "nid_from_parts e c = Some n"
    using nid_epoch_bound [of n] nid_counter_bound [of n]
    by (auto simp: nid_from_parts_Some unat_nid_epoch unat_nid_counter)
qed

lemma nid_order_lemma:
  assumes "nid_from_parts e c = Some m" and "nid_from_parts e' c' = Some n"
  shows "m < n \<longleftrightarrow> e < e' \<or> e = e' \<and> c < c'"
proof -
  have m: "unat m = 2 ^ 40 * unat e + unat c" "unat c < 2 ^ 40"
    using assms(1) by (auto simp: nid_from_parts_Some)
  have n: "unat n = 2 ^ 40 * unat e' + unat c'" "unat c' < 2 ^ 40"
    using assms(2) by (auto simp: nid_from_parts_Some)
  have "unat m < unat n \<longleftrightarrow> unat e < unat e' \<or> unat e = unat e' \<and> unat c < unat c'"
    using m n by simp linarith
  then show ?thesis by (simp add: word_less_nat_alt word_unat_eq_iff)
qed

section \<open>Graph vocabulary\<close>

datatype GraphCapability = Cap_Read | Cap_Write | Cap_Admin | Cap_TypeConfigure

fun capability_as_str :: "GraphCapability \<Rightarrow> string" where
  "capability_as_str Cap_Read = ''graph:read''"
| "capability_as_str Cap_Write = ''graph:write''"
| "capability_as_str Cap_Admin = ''graph:admin''"
| "capability_as_str Cap_TypeConfigure = ''graph:type_configure''"

definition capability_parse :: "string \<Rightarrow> GraphCapability option" where
  "capability_parse value =
     (if value = ''graph:read'' then Some Cap_Read
      else if value = ''graph:write'' then Some Cap_Write
      else if value = ''graph:admin'' then Some Cap_Admin
      else if value = ''graph:type_configure'' then Some Cap_TypeConfigure
      else None)"

datatype GraphNamespace = Tenant ustr | AdminCrossTenant

datatype GraphDirection = Outgoing | Incoming | Both

datatype EdgePropertyMode = Merge | Replace

text \<open>A graph lifecycle epoch is a non-zero \<open>u64\<close>; \<open>next\<close> is a checked increment.\<close>

type_synonym graph_epoch = nat

definition graph_epoch_INITIAL :: graph_epoch where
  "graph_epoch_INITIAL = 1"

definition graph_epoch_from_raw :: "nat \<Rightarrow> graph_epoch option" where
  "graph_epoch_from_raw raw = (if raw = 0 then None else Some raw)"

definition graph_epoch_next :: "graph_epoch \<Rightarrow> graph_epoch option" where
  "graph_epoch_next e = checked_add e 1"

section \<open>Traversal budgets\<close>

definition MAX_GRAPH_DEPTH :: nat where "MAX_GRAPH_DEPTH = 16"

definition MAX_GRAPH_CATALOG_NAME_BYTES :: nat where "MAX_GRAPH_CATALOG_NAME_BYTES = 255"

definition MAX_EDGE_PROPERTY_BYTES :: nat where "MAX_EDGE_PROPERTY_BYTES = 64 * 1024"

definition MAX_GRAPH_EDGES_PER_BATCH :: nat where "MAX_GRAPH_EDGES_PER_BATCH = 4096"

datatype TraversalTruncationReason =
    Limit | Depth | Frontier | Visited | Edges | Time | Memory | ColdFragments | ColdBytes
  | TCancelled

record ColdTraversalBudget =
  max_fragments :: nat
  max_bytes :: nat

record TraversalBudget =
  max_depth :: nat
  max_frontier :: nat
  max_visited :: nat
  max_edges :: nat
  max_time_ms :: nat
  max_memory_bytes :: nat
  cold :: "ColdTraversalBudget option"

definition budget_default :: TraversalBudget where
  "budget_default =
     \<lparr>max_depth = 5, max_frontier = 1000000, max_visited = 10000000, max_edges = 100000000,
      max_time_ms = 5000, max_memory_bytes = 512 * 1024 * 1024, cold = None\<rparr>"

datatype budget_msg =
  Depth_exceeds_maximum | Budgets_must_be_positive | Cold_budgets_must_be_positive

definition budget_validate :: "TraversalBudget \<Rightarrow> budget_msg GraphError + TraversalBudget" where
  "budget_validate b =
     (if max_depth b > MAX_GRAPH_DEPTH
      then Inl (graph_error_new DepthExceeded Depth_exceeds_maximum)
      else if max_frontier b = 0 \<or> max_visited b = 0 \<or> max_edges b = 0 \<or> max_time_ms b = 0
              \<or> max_memory_bytes b = 0
      then Inl (graph_error_new InvalidBudget Budgets_must_be_positive)
      else if (case cold b of None \<Rightarrow> False
               | Some c \<Rightarrow> max_fragments c = 0 \<or> max_bytes c = 0)
      then Inl (graph_error_new InvalidBudget Cold_budgets_must_be_positive)
      else Inr b)"

record TraversalStats =
  hops_completed :: nat
  nodes_visited :: nat
  visible_edges_examined :: nat
  hop_local :: nat
  hop_global :: nat
  supersession_followed :: nat
  fragments_read :: nat
  max_frontier_size :: nat
  cold_fragments_read :: nat
  cold_bytes_read :: nat
  elapsed_ms :: nat

definition stats_default :: TraversalStats where
  "stats_default =
     \<lparr>hops_completed = 0, nodes_visited = 0, visible_edges_examined = 0, hop_local = 0,
      hop_global = 0, supersession_followed = 0, fragments_read = 0, max_frontier_size = 0,
      cold_fragments_read = 0, cold_bytes_read = 0, elapsed_ms = 0\<rparr>"

record TraversalVisit =
  visit_nid :: nid
  visit_depth :: nat

datatype GraphWarning =
    ResultTruncated | ConstraintTruncated | Degraded | ExactFallback | HandleBackfillInProgress

record TraversalResult =
  visits :: "TraversalVisit list"
  stats :: TraversalStats
  truncation :: "TraversalTruncationReason option"
  warnings :: "GraphWarning list"

lemma capability_parse_as_str: "capability_parse (capability_as_str c) = Some c"
  by (cases c) (simp_all add: capability_parse_def)

lemma capability_parse_Some: "capability_parse s = Some c \<longleftrightarrow> s = capability_as_str c"
  by (cases c) (auto simp: capability_parse_def)

lemma graph_epoch_next_Some:
  "graph_epoch_next e = Some e' \<longleftrightarrow> e' = Suc e \<and> Suc e < u64_limit"
  by (auto simp: graph_epoch_next_def checked_add_def)

lemma budget_validate_Inr:
  "budget_validate b = Inr b' \<longleftrightarrow>
     b' = b \<and> max_depth b \<le> 16 \<and> 0 < max_frontier b \<and> 0 < max_visited b \<and> 0 < max_edges b
     \<and> 0 < max_time_ms b \<and> 0 < max_memory_bytes b
     \<and> (\<forall>c. cold b = Some c \<longrightarrow> 0 < max_fragments c \<and> 0 < max_bytes c)"
  by (auto simp: budget_validate_def MAX_GRAPH_DEPTH_def split: option.splits)

end
