(* ===== verification/Graph_Artifact.thy ===== *)
theory Graph_Artifact
  imports Graph_Types "HOL-Library.Product_Lexorder"
begin

text \<open>
  The checked artifact envelope of \<open>chirondb-core/src/graph_artifact.rs\<close>: the deterministic
  encoder \<open>encode_with_alignments\<close>, the loader \<open>open\<close> and bounded section reads.

  A persistent file is its plaintext together with the admission predicate that
  \<open>read_range_admitted\<close> consults before it copies a range. The checksum \<open>crc_fast::crc32_iscsi\<close>
  is the parameter \<open>crc\<close>; nothing is assumed of it.
\<close>

unbundle bit_operations_syntax

definition FORMAT_VERSION :: u32 where "FORMAT_VERSION = 1"

definition COMMON_HEADER_BYTES :: nat where "COMMON_HEADER_BYTES = 32"

definition SECTION_TABLE_ENTRY_BYTES :: nat where "SECTION_TABLE_ENTRY_BYTES = 32"

definition MAX_SECTIONS :: nat where "MAX_SECTIONS = 64"

record ArtifactSpec =
  magic :: "byte list"
  allowed_flags :: u32
  required_sections :: "u32 list"
  optional_sections :: "u32 list"
  max_file_len :: nat

record SectionPayload =
  sp_id :: u32
  sp_elem_count :: u64
  sp_bytes :: "byte list"

record CheckedSection =
  cs_offset :: nat
  cs_length :: nat
  cs_elem_count :: u64

record PersistentFile =
  plain :: "byte list"
  admits :: "nat \<Rightarrow> nat \<Rightarrow> bool"

record CheckedArtifact =
  ca_file :: PersistentFile
  ca_flags :: u32
  ca_sections :: "u32 \<rightharpoonup> CheckedSection"

datatype artifact_msg =
    Section_absent | Section_range_out_of_bounds | Section_range_overflow | Range_not_admitted
  | Length_violates_limits | Bad_magic | Unsupported_version | Unknown_flags
  | File_length_mismatch | Section_count_violates_limits | Table_length_overflow
  | Header_length_overflow | Truncated_table | Header_crc_mismatch | Ids_not_increasing
  | Unknown_section | Unknown_section_flags | Invalid_section_range | Duplicate_section
  | Required_section_absent | Overlapping_sections | Trailing_unowned_bytes
  | Invalid_alignment | Duplicate_alignment | Section_length_overflow | File_length_overflow
  | Exceeds_file_size_limit | Alignment_overflow

definition read_range_admitted ::
  "PersistentFile \<Rightarrow> nat \<Rightarrow> nat \<Rightarrow> (artifact_msg, byte list) result" where
  "read_range_admitted f a b =
     (if admits f a b then Inr (slice a b (plain f)) else Inl (ResourceExhausted Range_not_admitted))"

definition section_of :: "CheckedArtifact \<Rightarrow> u32 \<Rightarrow> CheckedSection option" where
  "section_of art i = ca_sections art i"

definition read_section_range ::
  "CheckedArtifact \<Rightarrow> u32 \<Rightarrow> nat \<Rightarrow> nat \<Rightarrow> (artifact_msg, byte list) result" where
  "read_section_range art i a b =
     bindE (ok_or (InvalidRequest Section_absent) (section_of art i)) (\<lambda>sec.
     if a > b \<or> b > cs_length sec then Inl (InvalidRequest Section_range_out_of_bounds)
     else bindE (ok_or (InvalidRequest Section_range_overflow) (checked_add (cs_offset sec) a))
       (\<lambda>start. bindE (ok_or (InvalidRequest Section_range_overflow) (checked_add (cs_offset sec) b))
       (\<lambda>end. read_range_admitted (ca_file art) start end)))"

definition read_section :: "CheckedArtifact \<Rightarrow> u32 \<Rightarrow> (artifact_msg, byte list) result" where
  "read_section art i =
     bindE (ok_or (InvalidRequest Section_absent) (section_of art i))
       (\<lambda>sec. read_section_range art i 0 (cs_length sec))"

section \<open>Shared checks\<close>

definition validate_artifact_flags :: "ArtifactSpec \<Rightarrow> u32 \<Rightarrow> (artifact_msg, unit) result" where
  "validate_artifact_flags spec flags =
     (if flags AND NOT (allowed_flags spec) \<noteq> 0 then Inl (InvalidRequest Unknown_flags) else Inr ())"

definition known_section :: "ArtifactSpec \<Rightarrow> u32 \<Rightarrow> bool" where
  "known_section spec i \<longleftrightarrow> i \<in> set (required_sections spec) \<or> i \<in> set (optional_sections spec)"

text \<open>\<open>value & !(alignment - 1)\<close> on a 64-bit \<open>usize\<close>.\<close>

definition align_to :: "nat \<Rightarrow> nat \<Rightarrow> (artifact_msg, nat) result" where
  "align_to v a =
     ok_or (InvalidRequest Alignment_overflow)
       (map_option (\<lambda>x. unat ((word_of_nat x :: u64) AND NOT (word_of_nat (a - 1))))
          (checked_add v (a - 1)))"

definition align_eight :: "nat \<Rightarrow> (artifact_msg, nat) result" where
  "align_eight v = align_to v 8"

definition read_u32 :: "byte list \<Rightarrow> nat \<Rightarrow> u32" where
  "read_u32 bs off = word_of_nat (from_le (slice off (off + 4) bs))"

definition read_u64 :: "byte list \<Rightarrow> nat \<Rightarrow> u64" where
  "read_u64 bs off = word_of_nat (from_le (slice off (off + 8) bs))"

section \<open>The encoder\<close>

definition is_power_of_two :: "nat \<Rightarrow> bool" where
  "is_power_of_two n = list_ex (\<lambda>k. n = 2 ^ k) [0..<64]"

definition check_alignment ::
  "ArtifactSpec \<Rightarrow> SectionPayload list \<Rightarrow> (u32 \<rightharpoonup> nat) \<Rightarrow> u32 \<times> nat
     \<Rightarrow> (artifact_msg, u32 \<rightharpoonup> nat) result" where
  "check_alignment spec ordered m p =
     (case p of (i, a) \<Rightarrow>
       if \<not> known_section spec i \<or> i \<notin> set (map sp_id ordered) \<or> \<not> is_power_of_two a
          \<or> \<not> (8 \<le> a \<and> a \<le> 65536)
       then Inl (InvalidRequest Invalid_alignment)
       else if m i \<noteq> None then Inl (InvalidRequest Duplicate_alignment)
       else Inr (m(i \<mapsto> a)))"

fun layout :: "(u32 \<rightharpoonup> nat) \<Rightarrow> nat \<Rightarrow> SectionPayload list
     \<Rightarrow> (artifact_msg, (SectionPayload \<times> nat) list) result" where
  "layout al nxt [] = Inr []"
| "layout al nxt (s # ss) =
     bindE (align_to nxt (case al (sp_id s) of None \<Rightarrow> 8 | Some a \<Rightarrow> a)) (\<lambda>off.
     bindE (ok_or (InvalidRequest Section_length_overflow) (checked_add off (length (sp_bytes s))))
       (\<lambda>nxt'. bindE (layout al nxt' ss) (\<lambda>ds. Inr ((s, off) # ds))))"

definition encode_entry :: "SectionPayload \<times> nat \<Rightarrow> byte list" where
  "encode_entry d =
     to_le 4 (unat (sp_id (fst d))) @ to_le 4 0 @ to_le 8 (snd d)
     @ to_le 8 (length (sp_bytes (fst d))) @ to_le 8 (unat (sp_elem_count (fst d)))"

definition resize :: "nat \<Rightarrow> byte list \<Rightarrow> byte list" where
  "resize n bs = take n bs @ replicate (n - length bs) 0"

definition append_section :: "byte list \<Rightarrow> SectionPayload \<times> nat \<Rightarrow> byte list" where
  "append_section bs d = resize (snd d) bs @ sp_bytes (fst d)"

definition encode_prefix :: "ArtifactSpec \<Rightarrow> u32 \<Rightarrow> nat \<Rightarrow> nat \<Rightarrow> byte list" where
  "encode_prefix spec flags file_len n =
     magic spec @ to_le 4 (unat FORMAT_VERSION) @ to_le 4 (unat flags) @ to_le 8 file_len @ to_le 4 n"

definition encode_head ::
  "(byte list \<Rightarrow> u32) \<Rightarrow> ArtifactSpec \<Rightarrow> u32 \<Rightarrow> nat \<Rightarrow> nat \<Rightarrow> (SectionPayload \<times> nat) list
     \<Rightarrow> byte list" where
  "encode_head crc spec flags file_len n descriptors =
     (let prefix = encode_prefix spec flags file_len n;
          table = concat (map encode_entry descriptors)
      in prefix @ to_le 4 (unat (crc (prefix @ table))) @ table)"

definition encode_with_alignments ::
  "(byte list \<Rightarrow> u32) \<Rightarrow> ArtifactSpec \<Rightarrow> u32 \<Rightarrow> SectionPayload list \<Rightarrow> (u32 \<times> nat) list
     \<Rightarrow> (artifact_msg, byte list) result" where
  "encode_with_alignments crc spec flags sections alignments =
     bindE (validate_artifact_flags spec flags) (\<lambda>_.
     if sections = [] \<or> length sections > MAX_SECTIONS
     then Inl (InvalidRequest Section_count_violates_limits)
     else let ordered = sort_key sp_id sections in
     if windows_any (\<lambda>x y. sp_id x = sp_id y) ordered then Inl (InvalidRequest Duplicate_section)
     else if list_ex (\<lambda>s. \<not> known_section spec (sp_id s)) ordered
     then Inl (InvalidRequest Unknown_section)
     else if list_ex (\<lambda>r. r \<notin> set (map sp_id ordered)) (required_sections spec)
     then Inl (InvalidRequest Required_section_absent)
     else bindE (foldE (check_alignment spec ordered) Map.empty alignments) (\<lambda>al.
     bindE (ok_or (InvalidRequest Table_length_overflow)
       (checked_mul (length ordered) SECTION_TABLE_ENTRY_BYTES)) (\<lambda>table_bytes.
     bindE (ok_or (InvalidRequest Header_length_overflow)
       (checked_add COMMON_HEADER_BYTES table_bytes)) (\<lambda>header_bytes.
     bindE (align_eight header_bytes) (\<lambda>next_offset.
     bindE (layout al next_offset ordered) (\<lambda>descriptors.
     bindE (ok_or (InvalidRequest File_length_overflow)
       (checked_add (snd (last descriptors)) (length (sp_bytes (fst (last descriptors))))))
       (\<lambda>file_len.
     if file_len > max_file_len spec then Inl (InvalidRequest Exceeds_file_size_limit)
     else let head = encode_head crc spec flags file_len (length ordered) descriptors in
     bindE (align_eight (length head)) (\<lambda>n.
     Inr (foldl append_section (resize n head) descriptors)))))))))"

definition artifact_encode ::
  "(byte list \<Rightarrow> u32) \<Rightarrow> ArtifactSpec \<Rightarrow> u32 \<Rightarrow> SectionPayload list
     \<Rightarrow> (artifact_msg, byte list) result" where
  "artifact_encode crc spec flags sections = encode_with_alignments crc spec flags sections []"

section \<open>The loader\<close>

record open_state =
  os_sections :: "u32 \<rightharpoonup> CheckedSection"
  os_ranges :: "(nat \<times> nat) list"
  os_previous :: "u32 option"

definition open_entry ::
  "ArtifactSpec \<Rightarrow> nat \<Rightarrow> nat \<Rightarrow> byte list \<Rightarrow> open_state \<Rightarrow> nat \<Rightarrow> (artifact_msg, open_state) result"
where
  "open_entry spec file_len header_bytes table st index =
     (let entry = slice (index * SECTION_TABLE_ENTRY_BYTES)
                    ((index + 1) * SECTION_TABLE_ENTRY_BYTES) table;
          i = read_u32 entry 0 in
     if (case os_previous st of None \<Rightarrow> False | Some p \<Rightarrow> p \<ge> i)
     then Inl (SegmentCorruption Ids_not_increasing)
     else if \<not> known_section spec i then Inl (SegmentCorruption Unknown_section)
     else if read_u32 entry 4 \<noteq> 0 then Inl (SegmentCorruption Unknown_section_flags)
     else let off = unat (read_u64 entry 8); len = unat (read_u64 entry 16) in
     bindE (ok_or (SegmentCorruption Section_range_overflow) (checked_add off len)) (\<lambda>end.
     if \<not> 8 dvd off \<or> off < header_bytes \<or> end > file_len
     then Inl (SegmentCorruption Invalid_section_range)
     else if os_sections st i \<noteq> None then Inl (SegmentCorruption Duplicate_section)
     else Inr \<lparr>os_sections = (os_sections st)(i \<mapsto>
                  \<lparr>cs_offset = off, cs_length = len, cs_elem_count = read_u64 entry 24\<rparr>),
               os_ranges = os_ranges st @ [(off, end)],
               os_previous = Some i\<rparr>))"

definition artifact_open ::
  "(byte list \<Rightarrow> u32) \<Rightarrow> ArtifactSpec \<Rightarrow> PersistentFile \<Rightarrow> (artifact_msg, CheckedArtifact) result" where
  "artifact_open crc spec file =
     (let file_len = length (plain file) in
     if file_len < COMMON_HEADER_BYTES \<or> file_len > max_file_len spec
     then Inl (SegmentCorruption Length_violates_limits)
     else bindE (read_range_admitted file 0 COMMON_HEADER_BYTES) (\<lambda>fixed.
     if slice 0 8 fixed \<noteq> magic spec then Inl (SegmentCorruption Bad_magic)
     else if read_u32 fixed 8 \<noteq> FORMAT_VERSION then Inl (SegmentCorruption Unsupported_version)
     else let flags = read_u32 fixed 12 in
     bindE (map_err (\<lambda>_. SegmentCorruption Unknown_flags) (validate_artifact_flags spec flags)) (\<lambda>_.
     if unat (read_u64 fixed 16) \<noteq> file_len then Inl (SegmentCorruption File_length_mismatch)
     else let section_count = unat (read_u32 fixed 24) in
     if section_count = 0 \<or> section_count > MAX_SECTIONS
     then Inl (SegmentCorruption Section_count_violates_limits)
     else bindE (ok_or (SegmentCorruption Table_length_overflow)
       (checked_mul section_count SECTION_TABLE_ENTRY_BYTES)) (\<lambda>table_bytes.
     bindE (ok_or (SegmentCorruption Header_length_overflow)
       (checked_add COMMON_HEADER_BYTES table_bytes)) (\<lambda>header_bytes.
     if header_bytes > file_len then Inl (SegmentCorruption Truncated_table)
     else bindE (read_range_admitted file COMMON_HEADER_BYTES header_bytes) (\<lambda>table.
     if crc (take 28 fixed @ table) \<noteq> read_u32 fixed 28
     then Inl (SegmentCorruption Header_crc_mismatch)
     else bindE (foldE (open_entry spec file_len header_bytes table)
                   \<lparr>os_sections = Map.empty, os_ranges = [], os_previous = None\<rparr>
                   [0..<section_count]) (\<lambda>st.
     if list_ex (\<lambda>r. os_sections st r = None) (required_sections spec)
     then Inl (SegmentCorruption Required_section_absent)
     else let ranges = sort (os_ranges st) in
     if windows_any (\<lambda>x y. snd x > fst y) ranges
     then Inl (SegmentCorruption Overlapping_sections)
     else if ranges = [] \<or> snd (last ranges) \<noteq> file_len
     then Inl (SegmentCorruption Trailing_unowned_bytes)
     else Inr \<lparr>ca_file = file, ca_flags = flags, ca_sections = os_sections st\<rparr>)))))))"

section \<open>Layout of the encoded sections\<close>

lemma align_to_Inr:
  assumes "align_to v (2 ^ k) = Inr r" and "k < 64"
  shows "v \<le> r" and "r < v + 2 ^ k" and "2 ^ k dvd r" and "r < u64_limit"
proof -
  let ?x = "v + (2 ^ k - 1)"
  have x: "?x < u64_limit" and r: "r = unat ((word_of_nat ?x :: u64) AND NOT (word_of_nat (2 ^ k - 1)))"
    using assms(1) by (auto simp: align_to_def res_simps)
  have "(word_of_nat (2 ^ k - 1) :: u64) = mask k"
    by (simp add: mask_eq_exp_minus_1)
  then have r': "r = ?x div 2 ^ k * 2 ^ k"
    unfolding r by (simp only: unat_and_not_mask [OF x])
  have eq: "?x = r + ?x mod 2 ^ k" by (simp only: r' div_mult_mod_eq)
  have m: "?x mod 2 ^ k < 2 ^ k" by simp
  have p: "(0::nat) < 2 ^ k" by simp
  show "v \<le> r" using eq m p by linarith
  show "r < v + 2 ^ k" using eq p by linarith
  show "2 ^ k dvd r" by (simp add: r')
  show "r < u64_limit" using eq x by linarith
qed

fun offsets_ok :: "nat \<Rightarrow> (SectionPayload \<times> nat) list \<Rightarrow> bool" where
  "offsets_ok n [] = True"
| "offsets_ok n (d # ds) =
     (n \<le> snd d \<and> 8 dvd snd d \<and> snd d + length (sp_bytes (fst d)) < u64_limit
      \<and> offsets_ok (snd d + length (sp_bytes (fst d))) ds)"

definition sec_end :: "SectionPayload \<times> nat \<Rightarrow> nat" where
  "sec_end d = snd d + length (sp_bytes (fst d))"

definition alignments_ok :: "(u32 \<rightharpoonup> nat) \<Rightarrow> bool" where
  "alignments_ok al \<longleftrightarrow> (\<forall>i a. al i = Some a \<longrightarrow> (\<exists>k. 3 \<le> k \<and> k < 64 \<and> a = 2 ^ k))"

lemma eight_dvd_pow2: "3 \<le> k \<Longrightarrow> (8::nat) dvd 2 ^ k"
  using le_imp_power_dvd [of 3 k "2::nat"] by simp

lemma is_power_of_two_iff: "is_power_of_two n \<longleftrightarrow> (\<exists>k<64. n = 2 ^ k)"
  by (auto simp: is_power_of_two_def list_ex_iff)

lemma check_alignments_ok:
  assumes "foldE (check_alignment spec ordered) Map.empty als = Inr al"
  shows "alignments_ok al"
proof (rule foldE_invariant [OF assms])
  show "alignments_ok Map.empty" by (simp add: alignments_ok_def)
next
  fix m p m'
  assume m: "alignments_ok m" and step: "check_alignment spec ordered m p = Inr m'"
  obtain i a where p: "p = (i, a)" by (cases p)
  from step have "is_power_of_two a" "8 \<le> a" and m': "m' = m(i \<mapsto> a)"
    by (auto simp: check_alignment_def p split: if_splits)
  then obtain k where k: "k < 64" "a = 2 ^ k" "(2::nat) ^ 3 \<le> 2 ^ k"
    by (auto simp: is_power_of_two_iff)
  then have "3 \<le> k" by (subst (asm) power_increasing_iff) auto
  with k m m' show "alignments_ok m'" by (auto simp: alignments_ok_def)
qed

lemma layout_fst: "layout al n ss = Inr ds \<Longrightarrow> map fst ds = ss"
  by (induction al n ss arbitrary: ds rule: layout.induct) (auto simp: res_simps)

lemma layout_offsets:
  assumes "layout al n ss = Inr ds" and "alignments_ok al"
  shows "offsets_ok n ds"
  using assms
proof (induction al n ss arbitrary: ds rule: layout.induct)
  case (2 al nxt s ss)
  let ?a = "case al (sp_id s) of None \<Rightarrow> 8 | Some a \<Rightarrow> a"
  obtain k where k: "3 \<le> k" "k < 64" "?a = 2 ^ k"
  proof (cases "al (sp_id s)")
    case None
    then show ?thesis using that [of 3] by simp
  next
    case (Some a)
    then show ?thesis using that "2.prems" by (auto simp: alignments_ok_def)
  qed
  from "2.prems"(1) obtain off ds' where off: "align_to nxt ?a = Inr off"
    and lt: "off + length (sp_bytes s) < u64_limit"
    and rest: "layout al (off + length (sp_bytes s)) ss = Inr ds'" and ds: "ds = (s, off) # ds'"
    by (auto simp: res_simps)
  have "nxt \<le> off" "8 dvd off"
    using align_to_Inr [of nxt k off] off k dvd_trans [OF eight_dvd_pow2 [OF k(1)]] by auto
  moreover have "offsets_ok (off + length (sp_bytes s)) ds'"
    using "2.IH" [OF off _ rest "2.prems"(2)] lt by (simp add: res_simps)
  ultimately show ?case using lt by (simp add: ds)
qed auto

lemma append_section_eq:
  assumes "length bs \<le> snd d"
  shows "append_section bs d = bs @ replicate (snd d - length bs) 0 @ sp_bytes (fst d)"
    and "length (append_section bs d) = sec_end d"
  using assms by (auto simp: append_section_def resize_def sec_end_def)

lemma fold_sections_extend:
  assumes "offsets_ok n ds" and "length bs \<le> n"
  shows "\<exists>rest. foldl append_section bs ds = bs @ rest"
  using assms
proof (induction ds arbitrary: bs n)
  case (Cons d ds)
  then have "\<exists>rest. foldl append_section (append_section bs d) ds = append_section bs d @ rest"
    by (intro Cons.IH [of "sec_end d"]) (auto simp: append_section_eq sec_end_def)
  with Cons.prems show ?case by (auto simp: append_section_eq)
qed simp

lemma fold_sections_length:
  assumes "offsets_ok n ds" and "length bs \<le> n" and "ds \<noteq> []"
  shows "length (foldl append_section bs ds) = sec_end (last ds)"
  using assms
proof (induction ds arbitrary: bs n)
  case (Cons d ds)
  then show ?case
    using Cons.IH [of "sec_end d" "append_section bs d"]
    by (cases "ds = []") (auto simp: append_section_eq sec_end_def)
qed simp

lemma fold_sections_slice:
  assumes "offsets_ok n ds" and "length bs \<le> n" and "d \<in> set ds"
  shows "slice (snd d) (sec_end d) (foldl append_section bs ds) = sp_bytes (fst d)"
  using assms
proof (induction ds arbitrary: bs n)
  case (Cons c ds)
  have c: "length bs \<le> snd c" "offsets_ok (sec_end c) ds"
    using Cons.prems by (auto simp: sec_end_def)
  show ?case
  proof (cases "d \<in> set ds")
    case True
    with Cons.IH [OF c(2), of "append_section bs c"] c show ?thesis
      by (simp add: append_section_eq(2))
  next
    case False
    with Cons.prems have d: "d = c" by simp
    obtain rest where "foldl append_section (append_section bs c) ds = append_section bs c @ rest"
      using fold_sections_extend [OF c(2), of "append_section bs c"] c
      by (auto simp: append_section_eq(2))
    then show ?thesis
      using c unfolding d by (simp add: append_section_eq slice_def sec_end_def)
  qed
qed simp

lemma offsets_ok_start: "offsets_ok n ds \<Longrightarrow> d \<in> set ds \<Longrightarrow> n \<le> snd d"
  by (induction ds arbitrary: n) fastforce+

lemma offsets_ok_entry: "offsets_ok n ds \<Longrightarrow> d \<in> set ds \<Longrightarrow> 8 dvd snd d \<and> sec_end d < u64_limit"
  by (induction ds arbitrary: n) (auto simp: sec_end_def)

lemma offsets_ok_end: "offsets_ok n ds \<Longrightarrow> d \<in> set ds \<Longrightarrow> sec_end d \<le> sec_end (last ds)"
proof (induction ds arbitrary: n)
  case (Cons c ds)
  show ?case
  proof (cases "ds = []")
    case False
    have "offsets_ok (sec_end c) ds" using Cons.prems by (simp add: sec_end_def)
    then have "sec_end c \<le> snd (last ds)"
      using offsets_ok_start False last_in_set by blast
    then have "sec_end c \<le> sec_end (last ds)" by (simp add: sec_end_def)
    then show ?thesis using Cons False by (auto simp: sec_end_def)
  qed (use Cons.prems in simp)
qed simp

lemma offsets_ok_sorted:
  "offsets_ok n ds \<Longrightarrow> sorted_wrt (\<lambda>x y. sec_end x \<le> snd y) ds"
  by (induction ds arbitrary: n) (auto simp: sec_end_def dest: offsets_ok_start)

lemma length_encode_entry [simp]: "length (encode_entry d) = 32"
  by (simp add: encode_entry_def)

lemma encode_entry_fields:
  assumes "snd d < u64_limit" and "length (sp_bytes (fst d)) < u64_limit"
  shows "read_u32 (encode_entry d) 0 = sp_id (fst d)"
    and "read_u32 (encode_entry d) 4 = 0"
    and "unat (read_u64 (encode_entry d) 8) = snd d"
    and "unat (read_u64 (encode_entry d) 16) = length (sp_bytes (fst d))"
    and "read_u64 (encode_entry d) 24 = sp_elem_count (fst d)"
  using assms
  by (simp_all add: encode_entry_def read_u32_def read_u64_def slice_append_right slice_append_left
      unat_of_nat)

definition entry_state :: "(SectionPayload \<times> nat) list \<Rightarrow> open_state" where
  "entry_state ds =
     \<lparr>os_sections = map_of (rev (map (\<lambda>d. (sp_id (fst d),
        \<lparr>cs_offset = snd d, cs_length = length (sp_bytes (fst d)),
         cs_elem_count = sp_elem_count (fst d)\<rparr>)) ds)),
      os_ranges = map (\<lambda>d. (snd d, sec_end d)) ds,
      os_previous = (if ds = [] then None else Some (sp_id (fst (last ds))))\<rparr>"

lemma open_entry_step:
  assumes "offsets_ok header ds" and "sorted_wrt (<) (map (\<lambda>d. sp_id (fst d)) ds)"
    and "\<forall>d \<in> set ds. known_section spec (sp_id (fst d))"
    and "k < length ds" and "\<forall>d \<in> set ds. sec_end d \<le> file_len"
  shows "open_entry spec file_len header (concat (map encode_entry ds)) (entry_state (take k ds)) k
     = Inr (entry_state (take (Suc k) ds))"
proof -
  let ?d = "ds ! k"
  have d: "?d \<in> set ds" using assms(4) by simp
  have entry: "slice (k * SECTION_TABLE_ENTRY_BYTES) ((k + 1) * SECTION_TABLE_ENTRY_BYTES)
      (concat (map encode_entry ds)) = encode_entry ?d"
    unfolding SECTION_TABLE_ENTRY_BYTES_def using assms(4) by (intro slice_concat_chunks) auto
  have b: "8 dvd snd ?d" "sec_end ?d < u64_limit" "header \<le> snd ?d" "sec_end ?d \<le> file_len"
    using offsets_ok_entry [OF assms(1) d] offsets_ok_start [OF assms(1) d] assms(5) d by auto
  then have lt: "snd ?d < u64_limit" "length (sp_bytes (fst ?d)) < u64_limit"
    by (auto simp: sec_end_def)
  have smaller: "\<And>x. x \<in> set (take k ds) \<Longrightarrow> sp_id (fst x) < sp_id (fst ?d)"
    using assms(2,4) by (clarsimp simp: sorted_wrt_iff_nth_less in_set_conv_nth) (metis fst_conv)
  have prev: "\<not> (case os_previous (entry_state (take k ds)) of None \<Rightarrow> False
      | Some p \<Rightarrow> p \<ge> sp_id (fst ?d))"
    using smaller [of "last (take k ds)"] by (auto simp: entry_state_def)
  have fresh: "os_sections (entry_state (take k ds)) (sp_id (fst ?d)) = None"
    by (auto simp: entry_state_def map_of_eq_None_iff dest!: smaller)
  have "open_entry spec file_len header (concat (map encode_entry ds)) (entry_state (take k ds)) k
     = Inr \<lparr>os_sections = (os_sections (entry_state (take k ds)))(sp_id (fst ?d) \<mapsto>
         \<lparr>cs_offset = snd ?d, cs_length = length (sp_bytes (fst ?d)),
          cs_elem_count = sp_elem_count (fst ?d)\<rparr>),
        os_ranges = os_ranges (entry_state (take k ds)) @ [(snd ?d, sec_end ?d)],
        os_previous = Some (sp_id (fst ?d))\<rparr>"
    unfolding open_entry_def entry Let_def encode_entry_fields [OF lt] checked_add_def
      sec_end_def [symmetric]
    using prev fresh assms(3) d b by simp
  then show ?thesis
    by (simp add: entry_state_def take_Suc_conv_app_nth [OF assms(4)])
qed

lemma open_entries:
  assumes "offsets_ok header ds" and "sorted_wrt (<) (map (\<lambda>d. sp_id (fst d)) ds)"
    and "\<forall>d \<in> set ds. known_section spec (sp_id (fst d))"
    and "\<forall>d \<in> set ds. sec_end d \<le> file_len"
  shows "k \<le> length ds \<Longrightarrow>
    foldE (open_entry spec file_len header (concat (map encode_entry ds)))
      \<lparr>os_sections = Map.empty, os_ranges = [], os_previous = None\<rparr> [0..<k]
    = Inr (entry_state (take k ds))"
proof (induction k)
  case 0
  show ?case by (simp add: entry_state_def)
next
  case (Suc k)
  then show ?case
    using open_entry_step [OF assms(1-3) _ assms(4), of k] by (simp add: foldE_append)
qed

lemma align_eight_id:
  assumes "align_eight n = Inr r" and "8 dvd n"
  shows "r = n"
proof -
  have a: "align_to n (2 ^ 3) = Inr r" using assms(1) by (simp add: align_eight_def)
  have "n \<le> r" "r < n + 8" "8 dvd r" using align_to_Inr [OF a] by simp_all
  then have "8 dvd r - n" and "r - n < 8" using assms(2) by auto
  then have "r - n = 0" by (auto dest: dvd_imp_le)
  with \<open>n \<le> r\<close> show ?thesis by simp
qed

lemma length_table [simp]: "length (concat (map encode_entry ds)) = 32 * length ds"
  by (induction ds) auto

lemma length_encode_head [simp]:
  "length (magic spec) = 8 \<Longrightarrow> length (encode_head crc spec flags fl n ds) = 32 + 32 * length ds"
  by (simp add: encode_head_def encode_prefix_def Let_def)

text \<open>What a successful encoding has established about its sections and their layout.\<close>

lemma encode_Inr:
  assumes enc: "encode_with_alignments crc spec flags sections als = Inr bytes"
    and mag: "length (magic spec) = 8"
  obtains ds where
    "map fst ds = sort_key sp_id sections" and "ds \<noteq> []" and "length ds \<le> 64"
    and "sorted_wrt (<) (map (\<lambda>d. sp_id (fst d)) ds)"
    and "\<forall>d \<in> set ds. known_section spec (sp_id (fst d))"
    and "set (required_sections spec) \<subseteq> sp_id ` set sections"
    and "offsets_ok (32 + 32 * length ds) ds"
    and "sec_end (last ds) \<le> max_file_len spec"
    and "flags AND NOT (allowed_flags spec) = 0"
    and "bytes = foldl append_section (encode_head crc spec flags (sec_end (last ds)) (length ds) ds) ds"
proof -
  let ?o = "sort_key sp_id sections"
  from enc obtain al tb hb nx ds fl n where
    flags: "flags AND NOT (allowed_flags spec) = 0"
    and sec: "sections \<noteq> []" "length sections \<le> 64"
    and dup: "\<not> windows_any (\<lambda>x y. sp_id x = sp_id y) ?o"
    and known: "\<not> list_ex (\<lambda>s. \<not> known_section spec (sp_id s)) ?o"
    and req: "\<not> list_ex (\<lambda>r. r \<notin> set (map sp_id ?o)) (required_sections spec)"
    and al: "foldE (check_alignment spec ?o) Map.empty als = Inr al"
    and hb: "hb = 32 + length ?o * 32" and nx: "align_eight hb = Inr nx"
    and lay: "layout al nx ?o = Inr ds" and fl: "fl = sec_end (last ds)" "fl \<le> max_file_len spec"
    and n: "align_eight (length (encode_head crc spec flags fl (length sections) ds)) = Inr n"
    and bytes: "bytes = foldl append_section (resize n (encode_head crc spec flags fl (length sections) ds)) ds"
    using mag unfolding encode_with_alignments_def Let_def validate_artifact_flags_def
    by (auto simp: res_simps MAX_SECTIONS_def COMMON_HEADER_BYTES_def SECTION_TABLE_ENTRY_BYTES_def
        sec_end_def not_less split: if_splits)
  have fst: "map fst ds = ?o" using lay by (rule layout_fst)
  then have len: "length ds = length sections" by (metis length_map length_sort)
  have ids: "map (\<lambda>d. sp_id (fst d)) ds = map sp_id ?o" using fst by (metis comp_def list.map_comp map_cong)
  have nx': "nx = 32 + 32 * length ds" using align_eight_id [OF nx] hb len by simp
  have n': "n = length (encode_head crc spec flags fl (length sections) ds)"
    using align_eight_id [OF n] mag by simp
  show ?thesis
  proof (rule that [of ds])
    show "map fst ds = ?o" by (rule fst)
    show "ds \<noteq> []" "length ds \<le> 64" using len sec by auto
    show "sorted_wrt (<) (map (\<lambda>d. sp_id (fst d)) ds)"
      unfolding ids by (rule windows_any_sorted_ids [OF sorted_sort_key dup])
    show "\<forall>d \<in> set ds. known_section spec (sp_id (fst d))"
      using known fst by (metis image_eqI list.set_map list_ex_iff)
    show "set (required_sections spec) \<subseteq> sp_id ` set sections"
      using req by (auto simp: list_ex_iff)
    show "offsets_ok (32 + 32 * length ds) ds"
      using layout_offsets [OF lay check_alignments_ok [OF al]] nx' by simp
    show "sec_end (last ds) \<le> max_file_len spec" using fl by simp
    show "flags AND NOT (allowed_flags spec) = 0" by (rule flags)
    show "bytes = foldl append_section (encode_head crc spec flags (sec_end (last ds)) (length ds) ds) ds"
      using bytes n' fl len by (simp add: resize_def)
  qed
qed

lemma encode_head_fields:
  assumes "length (magic spec) = 8" and "fl < u64_limit" and "n < 2 ^ 32"
    and "fixed = take 32 (encode_head crc spec flags fl n ds)"
  shows "take 8 fixed = magic spec" and "read_u32 fixed 8 = FORMAT_VERSION"
    and "read_u32 fixed 12 = flags" and "unat (read_u64 fixed 16) = fl"
    and "unat (read_u32 fixed 24) = n"
    and "read_u32 fixed 28 = crc (encode_prefix spec flags fl n @ concat (map encode_entry ds))"
    and "take 28 fixed = encode_prefix spec flags fl n"
  using assms
  by (simp_all add: encode_head_def encode_prefix_def Let_def read_u32_def read_u64_def
      slice_append_right slice_append_left unat_of_nat take_Cons')

lemma ranges_sorted:
  assumes "offsets_ok n ds"
  shows "sorted (map (\<lambda>d. (snd d, sec_end d)) ds)"
proof -
  have "sorted_wrt (\<lambda>x y. sec_end x \<le> snd y) ds" using assms by (rule offsets_ok_sorted)
  then show ?thesis
    unfolding sorted_map
    by (rule sorted_wrt_mono_rel [rotated]) (auto simp: sec_end_def less_eq_prod_def)
qed

lemma entry_state_lookup:
  assumes "distinct (map (\<lambda>d. sp_id (fst d)) ds)" and "d \<in> set ds"
  shows "os_sections (entry_state ds) (sp_id (fst d)) =
    Some \<lparr>cs_offset = snd d, cs_length = length (sp_bytes (fst d)), cs_elem_count = sp_elem_count (fst d)\<rparr>"
  unfolding entry_state_def open_state.simps
  by (rule map_of_is_SomeI) (use assms in \<open>auto simp: rev_map [symmetric] comp_def\<close>)

lemma encoded_open:
  fixes crc :: "byte list \<Rightarrow> u32"
  assumes mag: "length (magic spec) = 8" and adm: "\<And>a b. admits f a b"
    and ds: "ds \<noteq> []" "length ds \<le> 64" "sorted_wrt (<) (map (\<lambda>d. sp_id (fst d)) ds)"
    and known: "\<forall>d \<in> set ds. known_section spec (sp_id (fst d))"
    and req: "set (required_sections spec) \<subseteq> (sp_id \<circ> fst) ` set ds"
    and off: "offsets_ok (32 + 32 * length ds) ds" and max: "sec_end (last ds) \<le> max_file_len spec"
    and flags: "flags AND NOT (allowed_flags spec) = 0"
    and bytes: "plain f = foldl append_section
        (encode_head crc spec flags (sec_end (last ds)) (length ds) ds) ds"
  shows "artifact_open crc spec f =
    Inr \<lparr>ca_file = f, ca_flags = flags, ca_sections = os_sections (entry_state ds)\<rparr>"
proof -
  let ?fl = "sec_end (last ds)" and ?n = "length ds"
  let ?head = "encode_head crc spec flags ?fl ?n ds" and ?table = "concat (map encode_entry ds)"
  have len: "length (plain f) = ?fl"
    unfolding bytes using ds(1) mag by (intro fold_sections_length [OF off]) simp_all
  obtain rest where rest: "plain f = ?head @ rest"
    using fold_sections_extend [OF off, of ?head] mag bytes by auto
  have fl: "?fl < u64_limit" using offsets_ok_entry [OF off, of "last ds"] ds(1) by simp
  have start: "32 + 32 * ?n \<le> ?fl"
    using offsets_ok_start [OF off, of "last ds"] ds(1) by (simp add: sec_end_def)
  define fixed where "fixed = take 32 ?head"
  have fixed: "slice 0 32 (plain f) = fixed" using mag by (simp add: rest fixed_def)
  have n32: "?n < 2 ^ 32" using ds(2) by simp
  note fields = encode_head_fields [OF mag fl n32 fixed_def]
  have table: "slice 32 (32 + ?n * 32) (plain f) = ?table"
    unfolding rest using mag
    by (subst slice_append_left) (simp_all add: encode_head_def encode_prefix_def slice_append_right Let_def)
  have entries: "foldE (open_entry spec ?fl (32 + ?n * 32) ?table)
      \<lparr>os_sections = Map.empty, os_ranges = [], os_previous = None\<rparr> [0..<?n] = Inr (entry_state ds)"
    using open_entries [OF _ ds(3) known, of "32 + ?n * 32" ?fl ?n] off offsets_ok_end [OF off]
    by (simp add: mult.commute)
  have dist: "distinct (map (\<lambda>d. sp_id (fst d)) ds)"
    using ds(3) by (simp add: strict_sorted_iff)
  have "\<not> list_ex (\<lambda>r. os_sections (entry_state ds) r = None) (required_sections spec)"
    using req entry_state_lookup [OF dist] by (fastforce simp: list_ex_iff)
  moreover have "sort (os_ranges (entry_state ds)) = map (\<lambda>d. (snd d, sec_end d)) ds"
    using ranges_sorted [OF off] by (simp add: entry_state_def sorted_sort_id)
  moreover have "\<not> windows_any (\<lambda>x y. snd x > fst y) (map (\<lambda>d. (snd d, sec_end d)) ds)"
    using offsets_ok_sorted [OF off] by (intro no_overlap_sorted) (simp add: sorted_wrt_map)
  moreover have "snd (last (map (\<lambda>d. (snd d, sec_end d)) ds)) = ?fl"
    using ds(1) by (simp add: last_map)
  ultimately show ?thesis
    unfolding artifact_open_def read_range_admitted_def COMMON_HEADER_BYTES_def
      SECTION_TABLE_ENTRY_BYTES_def MAX_SECTIONS_def Let_def len
    using start max ds(1,2) flags
    by (simp add: adm fixed table fields entries checked_mul_def checked_add_def
        validate_artifact_flags_def mult.commute slice_0 [of 8 fixed] del: slice_0)
qed

section \<open>Round trip\<close>

lemma encoded_artifact_opens:
  assumes "length (magic spec) = 8"
    and "encode_with_alignments crc spec flags sections alignments = Inr bytes"
    and "plain f = bytes" and "\<And>a b. admits f a b"
  shows "\<exists>art. artifact_open crc spec f = Inr art \<and> ca_flags art = flags
    \<and> dom (ca_sections art) = sp_id ` set sections
    \<and> (\<forall>s \<in> set sections. read_section art (sp_id s) = Inr (sp_bytes s)
         \<and> map_option cs_elem_count (section_of art (sp_id s)) = Some (sp_elem_count s))"
proof -
  from assms(2,1) obtain ds where
    fst: "map fst ds = sort_key sp_id sections" and ds: "ds \<noteq> []" "length ds \<le> 64"
    "sorted_wrt (<) (map (\<lambda>d. sp_id (fst d)) ds)"
    and known: "\<forall>d \<in> set ds. known_section spec (sp_id (fst d))"
    and req: "set (required_sections spec) \<subseteq> sp_id ` set sections"
    and off: "offsets_ok (32 + 32 * length ds) ds" and max: "sec_end (last ds) \<le> max_file_len spec"
    and flags: "flags AND NOT (allowed_flags spec) = 0"
    and bytes: "bytes = foldl append_section
        (encode_head crc spec flags (sec_end (last ds)) (length ds) ds) ds"
    by (rule encode_Inr)
  have set: "fst ` set ds = set sections" by (metis fst set_map set_sort)
  have dist: "distinct (map (\<lambda>d. sp_id (fst d)) ds)" using ds(3) by (simp add: strict_sorted_iff)
  have ids: "(sp_id \<circ> fst) ` set ds = sp_id ` set sections" by (simp only: image_comp [symmetric] set)
  let ?art = "\<lparr>ca_file = f, ca_flags = flags, ca_sections = os_sections (entry_state ds)\<rparr>"
  have "artifact_open crc spec f = Inr ?art"
    using req by (intro encoded_open [OF assms(1,4) ds known _ off max flags])
      (simp_all only: assms(3) bytes ids)
  moreover have "dom (os_sections (entry_state ds)) = sp_id ` set sections"
    by (simp add: entry_state_def dom_map_of_conv_image_fst image_image ids [symmetric])
  moreover have "read_section ?art (sp_id s) = Inr (sp_bytes s)
      \<and> map_option cs_elem_count (section_of ?art (sp_id s)) = Some (sp_elem_count s)"
    if "s \<in> set sections" for s
  proof -
    from that set obtain d where d: "d \<in> set ds" "fst d = s" by (metis imageE)
    have "slice (snd d) (sec_end d) (plain f) = sp_bytes s"
      unfolding assms(3) bytes using fold_sections_slice [OF off _ d(1)] assms(1) d by simp
    then show ?thesis
      using entry_state_lookup [OF dist d(1)] offsets_ok_entry [OF off d(1)] d(2) assms(4)
      by (simp add: read_section_def read_section_range_def section_of_def read_range_admitted_def
          checked_add_def sec_end_def)
  qed
  ultimately show ?thesis by force
qed

section \<open>What the loader accepts\<close>

definition open_inv :: "ArtifactSpec \<Rightarrow> nat \<Rightarrow> nat \<Rightarrow> open_state \<Rightarrow> bool" where
  "open_inv spec file_len header st \<longleftrightarrow>
     (\<exists>ids. distinct ids \<and> set ids = dom (os_sections st)
        \<and> os_ranges st = map (\<lambda>i. let s = the (os_sections st i) in (cs_offset s, cs_offset s + cs_length s)) ids)
     \<and> (\<forall>i s. os_sections st i = Some s \<longrightarrow> known_section spec i \<and> 8 dvd cs_offset s
          \<and> header \<le> cs_offset s \<and> cs_offset s + cs_length s \<le> file_len)"

lemma open_entry_Inr:
  assumes "open_entry spec fl h table st k = Inr st'"
  obtains i s where "known_section spec i" and "os_sections st i = None"
    and "8 dvd cs_offset s" and "h \<le> cs_offset s" and "cs_offset s + cs_length s \<le> fl"
    and "st' = \<lparr>os_sections = (os_sections st)(i \<mapsto> s),
        os_ranges = os_ranges st @ [(cs_offset s, cs_offset s + cs_length s)], os_previous = Some i\<rparr>"
proof -
  let ?e = "slice (k * SECTION_TABLE_ENTRY_BYTES) ((k + 1) * SECTION_TABLE_ENTRY_BYTES) table"
  let ?s = "\<lparr>cs_offset = unat (read_u64 ?e 8), cs_length = unat (read_u64 ?e 16),
      cs_elem_count = read_u64 ?e 24\<rparr>"
  show ?thesis
    by (rule that [of "read_u32 ?e 0" ?s])
      (use assms in \<open>auto simp: open_entry_def Let_def res_simps split: if_splits\<close>)
qed

lemma open_entry_inv:
  assumes "open_inv spec fl h st" and "open_entry spec fl h table st k = Inr st'"
  shows "open_inv spec fl h st'"
proof -
  from assms(2) obtain i s where known: "known_section spec i" and fresh: "os_sections st i = None"
    and r: "8 dvd cs_offset s" "h \<le> cs_offset s" "cs_offset s + cs_length s \<le> fl"
    and st': "st' = \<lparr>os_sections = (os_sections st)(i \<mapsto> s),
        os_ranges = os_ranges st @ [(cs_offset s, cs_offset s + cs_length s)], os_previous = Some i\<rparr>"
    by (rule open_entry_Inr)
  from assms(1) obtain ids where ids: "distinct ids" "set ids = dom (os_sections st)"
    "os_ranges st = map (\<lambda>i. let s = the (os_sections st i) in (cs_offset s, cs_offset s + cs_length s)) ids"
    by (auto simp: open_inv_def)
  then have "i \<notin> set ids" using fresh by auto
  then have "distinct (ids @ [i]) \<and> set (ids @ [i]) = dom (os_sections st') \<and>
     os_ranges st' = map (\<lambda>i. let s = the (os_sections st' i) in (cs_offset s, cs_offset s + cs_length s)) (ids @ [i])"
    using ids by (auto simp: st' Let_def)
  moreover have "\<forall>j t. os_sections st' j = Some t \<longrightarrow> known_section spec j \<and> 8 dvd cs_offset t
      \<and> h \<le> cs_offset t \<and> cs_offset t + cs_length t \<le> fl"
    using assms(1) known r by (auto simp: open_inv_def st')
  ultimately show ?thesis unfolding open_inv_def by blast
qed

lemma artifact_open_accepts:
  assumes "artifact_open crc spec f = Inr art"
  shows "ca_file art = f \<and> ca_flags art AND NOT (allowed_flags spec) = 0
    \<and> set (required_sections spec) \<subseteq> dom (ca_sections art)
    \<and> (\<forall>i s. section_of art i = Some s \<longrightarrow> known_section spec i \<and> 8 dvd cs_offset s
         \<and> 64 \<le> cs_offset s \<and> cs_offset s + cs_length s \<le> length (plain f))
    \<and> (\<forall>i j s t. section_of art i = Some s \<and> section_of art j = Some t \<and> i \<noteq> j \<longrightarrow>
         cs_offset s + cs_length s \<le> cs_offset t \<or> cs_offset t + cs_length t \<le> cs_offset s)"
proof -
  let ?fl = "length (plain f)"
  let ?flags = "read_u32 (slice 0 32 (plain f)) 12"
  from assms obtain n table st where flags: "?flags AND NOT (allowed_flags spec) = 0"
    and n: "0 < n" and fold: "foldE (open_entry spec ?fl (32 + n * 32) table)
        \<lparr>os_sections = Map.empty, os_ranges = [], os_previous = None\<rparr> [0..<n] = Inr st"
    and req: "\<not> list_ex (\<lambda>r. os_sections st r = None) (required_sections spec)"
    and ov: "\<not> windows_any (\<lambda>x y. snd x > fst y) (sort (os_ranges st))"
    and art: "art = \<lparr>ca_file = f, ca_flags = ?flags, ca_sections = os_sections st\<rparr>"
    unfolding artifact_open_def read_range_admitted_def validate_artifact_flags_def Let_def
    by (auto simp: res_simps COMMON_HEADER_BYTES_def SECTION_TABLE_ENTRY_BYTES_def split: if_splits)
  have "open_inv spec ?fl (32 + n * 32) st"
    by (rule foldE_invariant [OF fold _ open_entry_inv]) (auto simp: open_inv_def)
  then obtain ids where ids: "distinct ids" "set ids = dom (os_sections st)"
    "os_ranges st = map (\<lambda>i. let s = the (os_sections st i) in (cs_offset s, cs_offset s + cs_length s)) ids"
    and each: "\<And>i s. os_sections st i = Some s \<Longrightarrow> known_section spec i \<and> 8 dvd cs_offset s
          \<and> 32 + n * 32 \<le> cs_offset s \<and> cs_offset s + cs_length s \<le> ?fl"
    unfolding open_inv_def by blast
  let ?R = "\<lambda>x y :: nat \<times> nat. snd x \<le> fst y \<or> snd y \<le> fst x"
  have "sorted_wrt (\<lambda>x y. snd x \<le> fst y) (sort (os_ranges st))"
    by (rule no_overlap_pairwise [OF ov]) (auto simp: ids(3) Let_def)
  then have "sorted_wrt ?R (sort (os_ranges st))"
    by (rule sorted_wrt_mono_rel [rotated]) auto
  then have sw: "sorted_wrt ?R (os_ranges st)"
    by (rule sorted_wrt_mset_sym [rotated]) auto
  have "cs_offset s + cs_length s \<le> cs_offset t \<or> cs_offset t + cs_length t \<le> cs_offset s"
    if "os_sections st i = Some s" "os_sections st j = Some t" "i \<noteq> j" for i j s t
    using distinct_pair_sorted_wrt [OF ids(1) sw [unfolded ids(3)], of i j] that ids(2)
    by (auto simp: Let_def)
  moreover have "set (required_sections spec) \<subseteq> dom (os_sections st)"
    using req by (auto simp: list_ex_iff)
  moreover have "known_section spec i \<and> 8 dvd cs_offset s \<and> 64 \<le> cs_offset s
      \<and> cs_offset s + cs_length s \<le> ?fl" if "os_sections st i = Some s" for i s
    using each [OF that] n by simp
  ultimately show ?thesis
    using flags unfolding art section_of_def by (simp, blast)
qed


text \<open>
  C32. Every artifact the encoder produces, with any admissible alignments and any checksum function,
  is accepted by the loader; it has exactly the encoded flags and section ids, and reading a
  section returns the bytes and element count that were encoded. A magic is eight bytes by its type
  in the source.
\<close>

theorem artifact_roundtrip:
  assumes "length (magic spec) = 8"
    and "encode_with_alignments crc spec flags sections alignments = Inr bytes"
    and "plain f = bytes" and "\<And>a b. admits f a b"
  shows "\<exists>art. artifact_open crc spec f = Inr art \<and> ca_flags art = flags
    \<and> dom (ca_sections art) = sp_id ` set sections
    \<and> (\<forall>s \<in> set sections. read_section art (sp_id s) = Inr (sp_bytes s)
         \<and> map_option cs_elem_count (section_of art (sp_id s)) = Some (sp_elem_count s))"
  by (rule encoded_artifact_opens [OF assms])

definition demo_spec :: ArtifactSpec where
  "demo_spec = \<lparr>magic = [71, 65, 85, 83, 78, 73, 48, 49], allowed_flags = 1,
     required_sections = [1], optional_sections = [4], max_file_len = 4096\<rparr>"

definition demo_sections :: "SectionPayload list" where
  "demo_sections = [\<lparr>sp_id = 4, sp_elem_count = 1, sp_bytes = [9]\<rparr>,
     \<lparr>sp_id = 1, sp_elem_count = 2, sp_bytes = [7, 8, 9]\<rparr>]"

lemma demo_encodes: "\<exists>bytes. encode_with_alignments (\<lambda>_. 5) demo_spec 1 demo_sections [(4, 16)] = Inr bytes"
proof -
  have "\<not> isl (encode_with_alignments (\<lambda>_. 5) demo_spec 1 demo_sections [(4, 16)])"
    by (simp add: encode_with_alignments_def demo_spec_def demo_sections_def Let_def
        validate_artifact_flags_def known_section_def check_alignment_def is_power_of_two_def
        align_eight_def align_to_def checked_add_def checked_mul_def MAX_SECTIONS_def
        SECTION_TABLE_ENTRY_BYTES_def COMMON_HEADER_BYTES_def encode_head_def encode_prefix_def
        upt_rec)
  then show ?thesis by (cases "encode_with_alignments (\<lambda>_. 5) demo_spec 1 demo_sections [(4, 16)]") auto
qed

theorem artifact_roundtrip_witness:
  "\<exists>bytes art. encode_with_alignments (\<lambda>_. 5) demo_spec 1 demo_sections [(4, 16)] = Inr bytes
    \<and> artifact_open (\<lambda>_. 5) demo_spec \<lparr>plain = bytes, admits = \<lambda>_ _. True\<rparr> = Inr art
    \<and> read_section art 1 = Inr [7, 8, 9] \<and> read_section art 4 = Inr [9]"
proof -
  obtain bytes where e: "encode_with_alignments (\<lambda>_. 5) demo_spec 1 demo_sections [(4, 16)] = Inr bytes"
    using demo_encodes by blast
  have m: "length (magic demo_spec) = 8" by (simp add: demo_spec_def)
  show ?thesis
    using artifact_roundtrip [OF m e, of "\<lparr>plain = bytes, admits = \<lambda>_ _. True\<rparr>"] e
    by (auto simp: demo_sections_def)
qed


end
