(* ===== verification/Nid_Index.thy ===== *)
theory Nid_Index
  imports Graph_Artifact
begin

text \<open>
  The segment handle index \<open>nid.gdx\<close> of \<open>chirondb-core/src/graph_nid.rs\<close>: the map from live node
  ids to segment ordinals and back, its Bloom filter, its file format and the checks its loader
  makes. Files are written through the checked artifact envelope.

  Main results: a built or loaded index answers \<open>lookup\<close> exactly as the reverse table says, so the
  Bloom filter never hides a live node, and writing then opening returns the same index.
\<close>

unbundle bit_operations_syntax

definition FLAG_BLOOM :: u32 where "FLAG_BLOOM = 1"
definition SECTION_SORTED_NIDS :: u32 where "SECTION_SORTED_NIDS = 1"
definition SECTION_SORTED_ORDINALS :: u32 where "SECTION_SORTED_ORDINALS = 2"
definition SECTION_ORDINAL_TO_NID :: u32 where "SECTION_ORDINAL_TO_NID = 3"
definition SECTION_BLOOM :: u32 where "SECTION_BLOOM = 4"
definition BLOOM_HASHES :: nat where "BLOOM_HASHES = 7"
definition BLOOM_BITS_PER_KEY :: nat where "BLOOM_BITS_PER_KEY = 10"
definition BLOOM_HEADER_BYTES :: nat where "BLOOM_HEADER_BYTES = 16"
definition BLOOM_MIN_BITS :: nat where "BLOOM_MIN_BITS = 64"

text \<open>The magic is \<open>GAUSNI01\<close>.\<close>

definition NID_SPEC :: ArtifactSpec where
  "NID_SPEC = \<lparr>magic = [71, 65, 85, 83, 78, 73, 48, 49], allowed_flags = FLAG_BLOOM,
     required_sections = [SECTION_SORTED_NIDS, SECTION_SORTED_ORDINALS, SECTION_ORDINAL_TO_NID],
     optional_sections = [SECTION_BLOOM], max_file_len = 128 * 1024 * 1024 * 1024\<rparr>"

record NidBloom =
  bit_count :: nat
  bits :: "byte list"

record NidIndex =
  sorted_nids :: "nid list"
  sorted_ordinals :: "u32 list"
  ordinal_to_nid :: "nid list"
  bloom :: "NidBloom option"

datatype nid_msg =
    Nid_artifact artifact_msg | Nid_panic | Count_exceeds_cap | Duplicate_live_nid | Invalid_nid
  | Bloom_size_overflow | Bloom_alignment_overflow | Truncated_bloom | Invalid_bloom_metadata
  | Bloom_length_mismatch | Bloom_flag_disagrees | Section_counts_disagree | Bloom_count_disagrees
  | Nid_length_overflow | Nid_length_mismatch | Map_cardinality | Nids_not_sorted | Ordinal_map_invalid
  | Forward_reverse_disagree | Bloom_false_negative | Unindexed_nid

section \<open>Bloom filter\<close>

definition splitmix64 :: "u64 \<Rightarrow> u64" where
  "splitmix64 value =
     (let v = value + 0x9e3779b97f4a7c15;
          v = (v XOR drop_bit 30 v) * 0xbf58476d1ce4e5b9;
          v = (v XOR drop_bit 27 v) * 0x94d049bb133111eb
      in v XOR drop_bit 31 v)"

definition bloom_positions :: "nid \<Rightarrow> nat \<Rightarrow> nat list" where
  "bloom_positions n cnt =
     (let first = splitmix64 n; second = splitmix64 (n XOR 0x9e3779b97f4a7c15) OR 1
      in map (\<lambda>i. unat (first + word_of_nat i * second) mod cnt) [0..<BLOOM_HASHES])"

definition set_bit_at :: "byte list \<Rightarrow> nat \<Rightarrow> byte list" where
  "set_bit_at bs b = bs[b div 8 := bs ! (b div 8) OR push_bit (b mod 8) 1]"

definition bloom_insert :: "NidBloom \<Rightarrow> nid \<Rightarrow> NidBloom" where
  "bloom_insert f n = f\<lparr>bits := foldl set_bit_at (bits f) (bloom_positions n (bit_count f))\<rparr>"

definition may_contain :: "NidBloom \<Rightarrow> nid \<Rightarrow> bool" where
  "may_contain f n =
     list_all (\<lambda>b. bits f ! (b div 8) AND push_bit (b mod 8) 1 \<noteq> 0) (bloom_positions n (bit_count f))"

definition bloom_build :: "nid list \<Rightarrow> (nid_msg, NidBloom) result" where
  "bloom_build nids =
     bindE (ok_or (InvalidRequest Bloom_size_overflow)
       (checked_mul (length nids) BLOOM_BITS_PER_KEY)) (\<lambda>w.
     bindE (ok_or (InvalidRequest Bloom_alignment_overflow)
       (map_option (\<lambda>b. unat ((word_of_nat b :: u64) AND NOT 63))
          (checked_add (max w BLOOM_MIN_BITS) 63))) (\<lambda>cnt.
     Inr (foldl bloom_insert \<lparr>bit_count = cnt, bits = replicate (cnt div 8) 0\<rparr> nids)))"

definition bloom_encode :: "NidBloom \<Rightarrow> byte list" where
  "bloom_encode f = to_le 8 (bit_count f) @ to_le 4 BLOOM_HASHES @ to_le 4 0 @ bits f"

definition bloom_decode :: "byte list \<Rightarrow> (nid_msg, NidBloom) result" where
  "bloom_decode bs =
     (if length bs < BLOOM_HEADER_BYTES then Inl (InvalidRequest Truncated_bloom)
      else let cnt = from_le (slice 0 8 bs); hashes = from_le (slice 8 12 bs);
               reserved = from_le (slice 12 16 bs) in
      if cnt < BLOOM_MIN_BITS \<or> \<not> 64 dvd cnt \<or> hashes \<noteq> BLOOM_HASHES \<or> reserved \<noteq> 0
      then Inl (InvalidRequest Invalid_bloom_metadata)
      else if length bs \<noteq> BLOOM_HEADER_BYTES + cnt div 8
      then Inl (InvalidRequest Bloom_length_mismatch)
      else Inr \<lparr>bit_count = cnt, bits = drop BLOOM_HEADER_BYTES bs\<rparr>)"

section \<open>Index\<close>

definition validate_nid :: "nid \<Rightarrow> (nid_msg, unit) result" where
  "validate_nid n =
     (if \<not> nid_is_assigned n \<or> nid_epoch n = 0 \<or> nid_epoch n > GRAPH_ALLOCATOR_MAX_EPOCH
         \<or> nid_counter n = 0 \<or> nid_counter n > GRAPH_ALLOCATOR_MAX_COUNTER
      then Inl (InvalidRequest Invalid_nid) else Inr ())"

text \<open>One turn of the loop of \<open>build\<close>: the set seen so far and the pairs collected.\<close>

definition build_step ::
  "nid set \<times> (nid \<times> u32) list \<Rightarrow> nat \<times> nid \<Rightarrow> (nid_msg, nid set \<times> (nid \<times> u32) list) result" where
  "build_step st p =
     (case (st, p) of ((seen, pairs), (ordinal, n)) \<Rightarrow>
       if n = nid_UNASSIGNED then Inr (seen, pairs)
       else bindE (validate_nid n) (\<lambda>_.
         if n \<in> seen then Inl (InvalidRequest Duplicate_live_nid)
         else Inr (insert n seen, pairs @ [(n, word_of_nat ordinal)])))"

definition nid_build :: "nid list \<Rightarrow> bool \<Rightarrow> (nid_msg, NidIndex) result" where
  "nid_build reverse include_bloom =
     (if length reverse > 2 ^ 32 - 1 then Inl (InvalidRequest Count_exceeds_cap)
      else bindE (foldE build_step ({}, []) (enumerate 0 reverse)) (\<lambda>(seen, pairs).
      let sorted = sort_key fst pairs; nids = map fst sorted; ords = map snd sorted in
      bindE (if include_bloom then bindE (bloom_build nids) (\<lambda>f. Inr (Some f)) else Inr None)
        (\<lambda>f. Inr \<lparr>sorted_nids = nids, sorted_ordinals = ords, ordinal_to_nid = reverse, bloom = f\<rparr>)))"

definition nid_lookup :: "NidIndex \<Rightarrow> nid \<Rightarrow> u32 option" where
  "nid_lookup idx n =
     (if n = nid_UNASSIGNED
         \<or> sorted_nids idx = [] \<or> n < hd (sorted_nids idx) \<or> n > last (sorted_nids idx)
         \<or> (case bloom idx of None \<Rightarrow> False | Some f \<Rightarrow> \<not> may_contain f n)
      then None
      else case binary_search (sorted_nids idx) n of
             Inl _ \<Rightarrow> None
           | Inr i \<Rightarrow> Some (sorted_ordinals idx ! i))"

definition nid_for_ordinal :: "NidIndex \<Rightarrow> u32 \<Rightarrow> nid option" where
  "nid_for_ordinal idx ord =
     (if unat ord < length (ordinal_to_nid idx) \<and> ordinal_to_nid idx ! unat ord \<noteq> nid_UNASSIGNED
      then Some (ordinal_to_nid idx ! unat ord) else None)"

section \<open>File format\<close>

definition encode_nids :: "nid list \<Rightarrow> byte list" where
  "encode_nids ns = concat (map (\<lambda>n. to_le 8 (unat n)) ns)"

definition encode_ordinals :: "u32 list \<Rightarrow> byte list" where
  "encode_ordinals os = concat (map (\<lambda>n. to_le 4 (unat n)) os)"

definition checked_width :: "nat \<Rightarrow> nat \<Rightarrow> nat \<Rightarrow> (nid_msg, nat) result" where
  "checked_width actual_bytes elem_count width =
     bindE (ok_or (SegmentCorruption Nid_length_overflow) (checked_mul elem_count width)) (\<lambda>expected.
     if actual_bytes \<noteq> expected then Inl (SegmentCorruption Nid_length_mismatch) else Inr elem_count)"

definition decode_nids :: "byte list \<Rightarrow> nat \<Rightarrow> (nid_msg, nid list) result" where
  "decode_nids bs elem_count =
     bindE (checked_width (length bs) elem_count 8)
       (\<lambda>n. Inr (map (\<lambda>c. word_of_nat (from_le c)) (take n (chunks_exact 8 bs))))"

definition decode_ordinals :: "byte list \<Rightarrow> nat \<Rightarrow> (nid_msg, u32 list) result" where
  "decode_ordinals bs elem_count =
     bindE (checked_width (length bs) elem_count 4)
       (\<lambda>n. Inr (map (\<lambda>c. word_of_nat (from_le c)) (take n (chunks_exact 4 bs))))"

text \<open>\<open>map_err(|error| corruption(path, &error.to_string()))\<close>.\<close>

definition as_corruption :: "'m GaussError \<Rightarrow> 'm GaussError" where
  "as_corruption e = (case e of InvalidRequest m \<Rightarrow> SegmentCorruption m | _ \<Rightarrow> e)"

definition loaded_step ::
  "nid list \<Rightarrow> NidBloom option \<Rightarrow> nid option \<times> u32 set \<Rightarrow> nid \<times> u32
     \<Rightarrow> (nid_msg, nid option \<times> u32 set) result" where
  "loaded_step reverse filt st p =
     (case (st, p) of ((previous, seen), (n, ord)) \<Rightarrow>
       bindE (map_err as_corruption (validate_nid n)) (\<lambda>_.
       if (case previous of None \<Rightarrow> False | Some v \<Rightarrow> v \<ge> n)
       then Inl (SegmentCorruption Nids_not_sorted)
       else if unat ord \<ge> length reverse \<or> ord \<in> seen
       then Inl (SegmentCorruption Ordinal_map_invalid)
       else if reverse ! unat ord \<noteq> n then Inl (SegmentCorruption Forward_reverse_disagree)
       else if (case filt of None \<Rightarrow> False | Some f \<Rightarrow> \<not> may_contain f n)
       then Inl (SegmentCorruption Bloom_false_negative)
       else Inr (Some n, insert ord seen)))"

definition validate_loaded ::
  "nid list \<Rightarrow> u32 list \<Rightarrow> nid list \<Rightarrow> NidBloom option \<Rightarrow> (nid_msg, unit) result" where
  "validate_loaded nids ords reverse filt =
     (if length nids \<noteq> length ords \<or> length nids > length reverse
      then Inl (SegmentCorruption Map_cardinality)
      else bindE (foldE (loaded_step reverse filt) (None, {}) (zip nids ords)) (\<lambda>_.
      if length (filter (\<lambda>n. n \<noteq> nid_UNASSIGNED) reverse) \<noteq> length nids
      then Inl (SegmentCorruption Unindexed_nid)
      else foldE (\<lambda>_ n. map_err as_corruption (validate_nid n)) ()
             (filter (\<lambda>n. n \<noteq> nid_UNASSIGNED) reverse)))"

abbreviation nid_artifact :: "(artifact_msg, 'a) result \<Rightarrow> (nid_msg, 'a) result" where
  "nid_artifact \<equiv> map_err (map_GaussError Nid_artifact)"

text \<open>The bytes \<open>write\<close> puts at its path.\<close>

definition nid_sections :: "NidIndex \<Rightarrow> SectionPayload list" where
  "nid_sections idx =
     [\<lparr>sp_id = SECTION_SORTED_NIDS, sp_elem_count = word_of_nat (length (sorted_nids idx)),
       sp_bytes = encode_nids (sorted_nids idx)\<rparr>,
      \<lparr>sp_id = SECTION_SORTED_ORDINALS, sp_elem_count = word_of_nat (length (sorted_ordinals idx)),
       sp_bytes = encode_ordinals (sorted_ordinals idx)\<rparr>,
      \<lparr>sp_id = SECTION_ORDINAL_TO_NID, sp_elem_count = word_of_nat (length (ordinal_to_nid idx)),
       sp_bytes = encode_nids (ordinal_to_nid idx)\<rparr>]
     @ (case bloom idx of None \<Rightarrow> []
        | Some f \<Rightarrow> [\<lparr>sp_id = SECTION_BLOOM, sp_elem_count = word_of_nat (bit_count f),
                      sp_bytes = bloom_encode f\<rparr>])"

definition nid_write :: "(byte list \<Rightarrow> u32) \<Rightarrow> NidIndex \<Rightarrow> (nid_msg, byte list) result" where
  "nid_write crc idx =
     nid_artifact (artifact_encode crc NID_SPEC (if bloom idx \<noteq> None then FLAG_BLOOM else 0)
       (nid_sections idx))"

definition nid_open_bloom :: "CheckedArtifact \<Rightarrow> (nid_msg, NidBloom option) result" where
  "nid_open_bloom art =
     (if ca_flags art AND FLAG_BLOOM \<noteq> 0
      then bindE (expect (InvalidRequest Nid_panic) (section_of art SECTION_BLOOM)) (\<lambda>sec.
           bindE (nid_artifact (read_section art SECTION_BLOOM)) (\<lambda>bs.
           bindE (map_err as_corruption (bloom_decode bs)) (\<lambda>f.
           if unat (cs_elem_count sec) \<noteq> bit_count f
           then Inl (SegmentCorruption Bloom_count_disagrees) else Inr (Some f))))
      else Inr None)"

definition nid_open :: "(byte list \<Rightarrow> u32) \<Rightarrow> PersistentFile \<Rightarrow> (nid_msg, NidIndex) result" where
  "nid_open crc file =
     bindE (nid_artifact (artifact_open crc NID_SPEC file)) (\<lambda>art.
     if (ca_flags art AND FLAG_BLOOM \<noteq> 0) \<noteq> (section_of art SECTION_BLOOM \<noteq> None)
     then Inl (SegmentCorruption Bloom_flag_disagrees)
     else bindE (expect (InvalidRequest Nid_panic) (section_of art SECTION_SORTED_NIDS)) (\<lambda>ns.
     bindE (expect (InvalidRequest Nid_panic) (section_of art SECTION_SORTED_ORDINALS)) (\<lambda>os.
     bindE (expect (InvalidRequest Nid_panic) (section_of art SECTION_ORDINAL_TO_NID)) (\<lambda>rs.
     if cs_elem_count ns \<noteq> cs_elem_count os then Inl (SegmentCorruption Section_counts_disagree)
     else if unat (cs_elem_count rs) > 2 ^ 32 - 1 then Inl (SegmentCorruption Count_exceeds_cap)
     else bindE (nid_artifact (read_section art SECTION_SORTED_NIDS)) (\<lambda>b1.
     bindE (decode_nids b1 (unat (cs_elem_count ns))) (\<lambda>nids.
     bindE (nid_artifact (read_section art SECTION_SORTED_ORDINALS)) (\<lambda>b2.
     bindE (decode_ordinals b2 (unat (cs_elem_count os))) (\<lambda>ords.
     bindE (nid_artifact (read_section art SECTION_ORDINAL_TO_NID)) (\<lambda>b3.
     bindE (decode_nids b3 (unat (cs_elem_count rs))) (\<lambda>reverse.
     bindE (nid_open_bloom art) (\<lambda>f.
     bindE (validate_loaded nids ords reverse f) (\<lambda>_.
     Inr \<lparr>sorted_nids = nids, sorted_ordinals = ords, ordinal_to_nid = reverse, bloom = f\<rparr>))))))))))))"

section \<open>The Bloom filter has no false negatives\<close>

definition bloom_wf :: "NidBloom \<Rightarrow> bool" where
  "bloom_wf f \<longleftrightarrow> 64 \<le> bit_count f \<and> 64 dvd bit_count f \<and> length (bits f) = bit_count f div 8
     \<and> bit_count f < u64_limit"

lemma set_bit_at_bit:
  assumes "b div 8 < length bs"
  shows "bit (set_bit_at bs b ! (c div 8)) (c mod 8) \<longleftrightarrow> bit (bs ! (c div 8)) (c mod 8) \<or> c = b"
proof -
  have "bit (push_bit (b mod 8) 1 :: byte) (c mod 8) \<longleftrightarrow> c mod 8 = b mod 8"
    by (auto simp: bit_exp_iff)
  moreover have "c = b \<longleftrightarrow> c div 8 = b div 8 \<and> c mod 8 = b mod 8"
    by (metis div_mult_mod_eq)
  ultimately show ?thesis
    using assms by (auto simp: set_bit_at_def nth_list_update bit_or_iff)
qed

lemma length_set_bit_at [simp]: "length (set_bit_at bs b) = length bs"
  by (simp add: set_bit_at_def)

lemma length_set_bits [simp]: "length (foldl set_bit_at bs ps) = length bs"
  by (induction ps arbitrary: bs) auto

lemma set_bits_bit:
  assumes "\<And>p. p \<in> set ps \<Longrightarrow> p div 8 < length bs"
  shows "bit (foldl set_bit_at bs ps ! (c div 8)) (c mod 8) \<longleftrightarrow> bit (bs ! (c div 8)) (c mod 8) \<or> c \<in> set ps"
  using assms by (induction ps arbitrary: bs) (auto simp: set_bit_at_bit)

lemma may_contain_bits:
  "may_contain f n \<longleftrightarrow> (\<forall>b \<in> set (bloom_positions n (bit_count f)). bit (bits f ! (b div 8)) (b mod 8))"
  by (simp add: may_contain_def list_all_iff bit_iff_and_push_bit_not_eq_0)

lemma bloom_positions_bound:
  assumes "bloom_wf f" and "p \<in> set (bloom_positions n (bit_count f))"
  shows "p div 8 < length (bits f)"
proof -
  have "p < bit_count f" using assms by (auto simp: bloom_wf_def bloom_positions_def Let_def)
  moreover have "bit_count f = 8 * (bit_count f div 8)"
    using assms(1) by (auto simp: bloom_wf_def elim: dvdE)
  ultimately show ?thesis using assms(1) by (simp add: bloom_wf_def less_mult_imp_div_less mult.commute)
qed

lemma bloom_insert_wf: "bloom_wf f \<Longrightarrow> bloom_wf (bloom_insert f n)"
  by (simp add: bloom_wf_def bloom_insert_def)

lemma bloom_insert_contains:
  assumes "bloom_wf f" and "may_contain f k \<or> k = n"
  shows "may_contain (bloom_insert f n) k"
  using assms(2) bloom_positions_bound [OF assms(1)]
  by (auto simp: may_contain_bits bloom_insert_def set_bits_bit)

lemma bloom_inserts_contain:
  assumes "bloom_wf f" and "may_contain f k \<or> k \<in> set ns"
  shows "bloom_wf (foldl bloom_insert f ns) \<and> may_contain (foldl bloom_insert f ns) k"
  using assms
proof (induction ns arbitrary: f)
  case (Cons n ns)
  then have "bloom_wf (bloom_insert f n)" "may_contain (bloom_insert f n) k \<or> k \<in> set ns"
    using bloom_insert_wf bloom_insert_contains by auto
  then show ?case using Cons.IH by simp
qed simp

lemma bloom_inserts_wf: "bloom_wf f \<Longrightarrow> bloom_wf (foldl bloom_insert f ns)"
  by (induction ns arbitrary: f) (simp_all add: bloom_insert_wf)

lemma bloom_build_Inr:
  assumes "bloom_build nids = Inr f"
  shows "bloom_wf f" and "\<And>n. n \<in> set nids \<Longrightarrow> may_contain f n"
proof -
  let ?b = "max (length nids * BLOOM_BITS_PER_KEY) BLOOM_MIN_BITS + 63"
  let ?c = "unat ((word_of_nat ?b :: u64) AND NOT (mask 6))"
  let ?f = "\<lparr>bit_count = ?c, bits = replicate (?c div 8) 0\<rparr>"
  have f: "f = foldl bloom_insert ?f nids" and b: "?b < u64_limit"
    using assms by (auto simp: bloom_build_def res_simps mask_eq_exp_minus_1)
  have "?c = ?b div 64 * 64" using unat_and_not_mask [OF b, of 6] by simp
  moreover have "1 \<le> ?b div 64" by (simp add: BLOOM_MIN_BITS_def less_eq_div_iff_mult_less_eq)
  moreover have "?b div 64 * 64 \<le> ?b" by (rule div_times_less_eq_dividend)
  ultimately have wf: "bloom_wf ?f" using b by (simp add: bloom_wf_def del: max_less_iff_conj) 
  show "bloom_wf f" unfolding f by (rule bloom_inserts_wf [OF wf])
  show "may_contain f n" if "n \<in> set nids" for n
    unfolding f using bloom_inserts_contain [OF wf] that by blast
qed

lemma bloom_decode_encode:
  assumes "bloom_wf f"
  shows "bloom_decode (bloom_encode f) = Inr f"
  using assms
  by (simp add: bloom_wf_def bloom_decode_def bloom_encode_def BLOOM_HEADER_BYTES_def BLOOM_MIN_BITS_def
      BLOOM_HASHES_def slice_append_right slice_append_left Let_def)

lemma bloom_decode_wf:
  assumes "bloom_decode bs = Inr f"
  shows "bloom_wf f"
proof -
  define c where "c = from_le (take 8 bs)"
  have "(256::nat) ^ length (take 8 bs) \<le> 256 ^ 8" by (rule power_increasing) auto
  then have "c < 256 ^ 8" unfolding c_def by (rule order.strict_trans2 [OF from_le_bound])
  moreover have "\<not> (c < 64 \<or> \<not> 64 dvd c)" and "length bs = 16 + c div 8"
    and "f = \<lparr>bit_count = c, bits = drop 16 bs\<rparr>"
    using assms unfolding bloom_decode_def Let_def BLOOM_HEADER_BYTES_def BLOOM_MIN_BITS_def slice_0
      c_def [symmetric]
    by (simp_all only: res_simps sum.inject not_less de_Morgan_disj if_Inl_eq_Inr simp_thms)
  ultimately show ?thesis by (simp add: bloom_wf_def)
qed

lemma sorted_last_le: "sorted xs \<Longrightarrow> x \<in> set xs \<Longrightarrow> x \<le> last xs"
  by (induction xs rule: rev_induct) (auto simp: sorted_append)

section \<open>Well-formed indexes\<close>

text \<open>
  The invariant of an index: strictly sorted valid ids, each at the ordinal that the reverse table
  gives it, every assigned ordinal indexed, and no false negative in the filter.
\<close>

definition valid_nid :: "nid \<Rightarrow> bool" where
  "valid_nid n \<longleftrightarrow> validate_nid n = Inr ()"

definition pairs_ok :: "nid list \<Rightarrow> NidBloom option \<Rightarrow> (nid \<times> u32) list \<Rightarrow> bool" where
  "pairs_ok reverse filt ps \<longleftrightarrow>
     (\<forall>(n, ord) \<in> set ps. valid_nid n \<and> unat ord < length reverse \<and> reverse ! unat ord = n
        \<and> (\<forall>f. filt = Some f \<longrightarrow> may_contain f n))"

definition index_wf :: "NidIndex \<Rightarrow> bool" where
  "index_wf idx \<longleftrightarrow>
     length (sorted_nids idx) = length (sorted_ordinals idx)
     \<and> sorted_wrt (<) (sorted_nids idx) \<and> distinct (sorted_ordinals idx)
     \<and> pairs_ok (ordinal_to_nid idx) (bloom idx) (zip (sorted_nids idx) (sorted_ordinals idx))
     \<and> (\<forall>i < length (ordinal_to_nid idx). ordinal_to_nid idx ! i \<noteq> 0 \<longrightarrow>
          i \<in> unat ` set (sorted_ordinals idx))"

lemma valid_nid_assigned: "valid_nid n \<Longrightarrow> n \<noteq> 0"
  by (auto simp: valid_nid_def validate_nid_def nid_is_assigned_def)

lemma validate_nid_cases: "validate_nid n = (if valid_nid n then Inr () else Inl (InvalidRequest Invalid_nid))"
  by (auto simp: valid_nid_def validate_nid_def)

lemma lookup_indexed:
  assumes "index_wf idx"
  shows "nid_lookup idx n = Some ord \<longleftrightarrow> (n, ord) \<in> set (zip (sorted_nids idx) (sorted_ordinals idx))"
proof -
  let ?ns = "sorted_nids idx" and ?os = "sorted_ordinals idx"
  have len: "length ?ns = length ?os" and s: "sorted_wrt (<) ?ns"
    and ok: "pairs_ok (ordinal_to_nid idx) (bloom idx) (zip ?ns ?os)"
    using assms by (auto simp: index_wf_def)
  have mem: "n \<in> set ?ns \<Longrightarrow> n \<noteq> 0 \<and> (\<forall>f. bloom idx = Some f \<longrightarrow> may_contain f n)" for n
    using ok len valid_nid_assigned by (auto simp: pairs_ok_def in_set_conv_nth set_zip)
  have sorted: "sorted ?ns" using s by (simp add: strict_sorted_iff)
  have range: "?ns \<noteq> [] \<and> hd ?ns \<le> n \<and> n \<le> last ?ns" if "n \<in> set ?ns" for n
    using that sorted sorted_wrt_iff_nth_less
    by (cases ?ns) (auto intro: order_trans simp: last_ConsR dest: sorted_last_le)
  have "nid_lookup idx n = Some ord \<longleftrightarrow> (\<exists>i < length ?ns. ?ns ! i = n \<and> ?os ! i = ord)"
  proof (cases "n \<in> set ?ns")
    case True
    then obtain i where i: "i < length ?ns" "?ns ! i = n" by (auto simp: in_set_conv_nth)
    then have found: "binary_search ?ns n = Inr i" using binary_search_Inr [OF s] by blast
    have uniq: "j = i" if "j < length ?ns" "?ns ! j = n" for j
      using that i s by (metis nth_eq_iff_index_eq strict_sorted_iff)
    have "n \<noteq> 0" "?ns \<noteq> []" "\<not> n < hd ?ns" "\<not> last ?ns < n"
      using mem [OF True] range [OF True] by (simp_all add: not_less)
    moreover have "(case bloom idx of None \<Rightarrow> False | Some f \<Rightarrow> \<not> may_contain f n) = False"
      using mem [OF True] by (simp split: option.split)
    ultimately have "nid_lookup idx n = Some (?os ! i)"
      by (simp only: nid_lookup_def nid_UNASSIGNED_def found simp_thms if_False sum.case)
    moreover have "(\<exists>j < length ?ns. ?ns ! j = n \<and> ?os ! j = ord) \<longleftrightarrow> ?os ! i = ord"
      using i uniq by blast
    ultimately show ?thesis by simp
  next
    case False
    then have "binary_search ?ns n \<noteq> Inr i" for i
      using binary_search_Inr [OF s, of n i] nth_mem [of i ?ns] by auto
    then obtain j where "binary_search ?ns n = Inl j" by (cases "binary_search ?ns n") auto
    then have "nid_lookup idx n = None" by (simp add: nid_lookup_def)
    with False show ?thesis by (auto simp: in_set_conv_nth)
  qed
  then show ?thesis using len by (auto simp: set_zip)
qed

lemma lookup_reverse:
  assumes "index_wf idx"
  shows "nid_lookup idx n = Some ord \<longleftrightarrow> nid_for_ordinal idx ord = Some n"
proof -
  let ?ps = "set (zip (sorted_nids idx) (sorted_ordinals idx))"
  have ok: "pairs_ok (ordinal_to_nid idx) (bloom idx) (zip (sorted_nids idx) (sorted_ordinals idx))"
    using assms by (simp add: index_wf_def)
  have "(n, ord) \<in> ?ps" if o: "unat ord < length (ordinal_to_nid idx)"
    "ordinal_to_nid idx ! unat ord = n" "n \<noteq> 0"
  proof -
    have "unat ord \<in> unat ` set (sorted_ordinals idx)"
      using assms that unfolding index_wf_def by metis
    then have "ord \<in> set (sorted_ordinals idx)" by (simp add: inj_image_mem_iff)
    then obtain i where "i < length (sorted_ordinals idx)" "sorted_ordinals idx ! i = ord"
      by (auto simp: in_set_conv_nth)
    with assms have m: "(sorted_nids idx ! i, ord) \<in> ?ps" by (auto simp: index_wf_def set_zip)
    with ok o show ?thesis by (auto simp: pairs_ok_def)
  qed
  moreover have "unat ord < length (ordinal_to_nid idx) \<and> ordinal_to_nid idx ! unat ord = n \<and> n \<noteq> 0"
    if "(n, ord) \<in> ?ps"
    using ok that by (auto simp: pairs_ok_def dest: valid_nid_assigned)
  ultimately show ?thesis
    unfolding lookup_indexed [OF assms] nid_for_ordinal_def nid_UNASSIGNED_def by auto
qed

section \<open>What the loader checks\<close>

lemma loaded_step_Inr:
  "loaded_step reverse filt (prev, seen) (n, ord) = Inr st \<longleftrightarrow>
     st = (Some n, insert ord seen) \<and> (\<forall>p. prev = Some p \<longrightarrow> p < n) \<and> ord \<notin> seen
     \<and> pairs_ok reverse filt [(n, ord)]"
  by (auto simp: loaded_step_def validate_nid_cases pairs_ok_def res_simps split: option.splits if_splits)

lemma pairs_ok_Cons: "pairs_ok reverse filt (p # ps) \<longleftrightarrow> pairs_ok reverse filt [p] \<and> pairs_ok reverse filt ps"
  by (simp add: pairs_ok_def)

lemma loaded_fold:
  "(\<exists>st. foldE (loaded_step reverse filt) (prev, seen) ps = Inr st) \<longleftrightarrow>
     sorted_wrt (<) ((case prev of None \<Rightarrow> [] | Some p \<Rightarrow> [p]) @ map fst ps)
     \<and> distinct (map snd ps) \<and> set (map snd ps) \<inter> seen = {} \<and> pairs_ok reverse filt ps"
proof (induction ps arbitrary: prev seen)
  case Nil
  show ?case by (simp add: pairs_ok_def split: option.splits)
next
  case (Cons p ps)
  obtain n ord where p: "p = (n, ord)" by force
  show ?case
    unfolding p foldE.simps bindE_eq_Inr loaded_step_Inr pairs_ok_Cons [of _ _ "(n, ord)" ps]
    using Cons.IH [of "Some n" "insert ord seen"]
    by (auto split: option.splits)
qed

lemma foldE_unit_Inr: "foldE (\<lambda>_. f) () xs = Inr () \<longleftrightarrow> (\<forall>x \<in> set xs. f x = Inr ())"
  by (induction xs) (auto simp: res_simps)

lemma assigned_count:
  assumes "distinct ords" and "unat ` set ords \<subseteq> {i. i < length r \<and> r ! i \<noteq> (0::nid)}"
  shows "length (filter (\<lambda>n. n \<noteq> 0) r) = length (ords :: u32 list) \<longleftrightarrow>
    (\<forall>i < length r. r ! i \<noteq> 0 \<longrightarrow> i \<in> unat ` set ords)"
proof -
  define A where "A = {i. i < length r \<and> r ! i \<noteq> 0}"
  define B where "B = unat ` set ords"
  have sub: "B \<subseteq> A" and fin: "finite A" using assms(2) by (auto simp: A_def B_def)
  have B: "card B = length ords"
    using assms(1) by (simp add: B_def card_image inj_on_subset [OF inj_unsigned] distinct_card)
  have A: "length (filter (\<lambda>n. n \<noteq> 0) r) = card A" unfolding A_def by (rule length_filter_conv_card)
  have "card A = card B \<longleftrightarrow> A \<subseteq> B"
    using card_subset_eq [OF fin sub] sub by auto
  then show ?thesis unfolding A B [symmetric] B_def [symmetric] by (auto simp: A_def)
qed

lemma validate_loaded_Inr:
  "validate_loaded nids ords reverse filt = Inr () \<longleftrightarrow>
     length nids = length ords \<and> length nids \<le> length reverse
     \<and> (\<exists>st. foldE (loaded_step reverse filt) (None, {}) (zip nids ords) = Inr st)
     \<and> length (filter (\<lambda>n. n \<noteq> 0) reverse) = length nids
     \<and> (\<forall>n \<in> set reverse. n \<noteq> 0 \<longrightarrow> valid_nid n)"
  unfolding validate_loaded_def nid_UNASSIGNED_def
  by (auto simp: res_simps foldE_unit_Inr validate_nid_cases)

lemma validate_loaded_iff:
  "validate_loaded (sorted_nids idx) (sorted_ordinals idx) (ordinal_to_nid idx) (bloom idx) = Inr ()
     \<longleftrightarrow> index_wf idx" (is "?L \<longleftrightarrow> _")
proof -
  let ?ns = "sorted_nids idx" and ?os = "sorted_ordinals idx" and ?r = "ordinal_to_nid idx"
  let ?ps = "zip ?ns ?os"
  define base where "base \<longleftrightarrow> length ?ns = length ?os \<and> sorted_wrt (<) ?ns \<and> distinct ?os
    \<and> pairs_ok ?r (bloom idx) ?ps"
  have L: "?L \<longleftrightarrow> base \<and> length (filter (\<lambda>n. n \<noteq> 0) ?r) = length ?ns
      \<and> (\<forall>n \<in> set ?r. n \<noteq> 0 \<longrightarrow> valid_nid n)"
    unfolding validate_loaded_Inr loaded_fold base_def
    by (auto simp: length_filter_le) (metis length_filter_le)
  have W: "index_wf idx \<longleftrightarrow> base \<and> (\<forall>i < length ?r. ?r ! i \<noteq> 0 \<longrightarrow> i \<in> unat ` set ?os)"
    by (auto simp: index_wf_def base_def)
  show ?thesis
  proof (cases base)
    case True
    then have pair: "valid_nid n \<and> unat ord < length ?r \<and> ?r ! unat ord = n" if "(n, ord) \<in> set ?ps" for n ord
      using that by (auto simp: base_def pairs_ok_def)
    have ord: "unat ord < length ?r \<and> valid_nid (?r ! unat ord)" if "ord \<in> set ?os" for ord
      using that True pair by (metis base_def in_set_impl_in_set_zip2)
    then have "length (filter (\<lambda>n. n \<noteq> 0) ?r) = length ?os \<longleftrightarrow>
        (\<forall>i < length ?r. ?r ! i \<noteq> 0 \<longrightarrow> i \<in> unat ` set ?os)"
      using True valid_nid_assigned by (intro assigned_count) (auto simp: base_def)
    moreover have "valid_nid n" if "\<forall>i < length ?r. ?r ! i \<noteq> 0 \<longrightarrow> i \<in> unat ` set ?os" "n \<in> set ?r" "n \<noteq> 0" for n
      using that ord by (fastforce simp: in_set_conv_nth)
    ultimately show ?thesis
      using True unfolding L W by (auto simp: base_def)
  qed (simp add: L W)
qed

section \<open>Building\<close>

text \<open>The pairs the loop of \<open>build\<close> collects: the assigned ids with their ordinals.\<close>

definition assigned_pairs :: "(nat \<times> nid) list \<Rightarrow> (nid \<times> u32) list" where
  "assigned_pairs ps = map (\<lambda>(i, n). (n, word_of_nat i)) (filter (\<lambda>(i, n). n \<noteq> 0) ps)"

lemma assigned_pairs_simps [simp]:
  "assigned_pairs [] = []"
  "assigned_pairs ((i, n) # ps) =
     (if n = 0 then assigned_pairs ps else (n, word_of_nat i) # assigned_pairs ps)"
  by (simp_all add: assigned_pairs_def)

lemma build_step_unassigned: "build_step st (i, 0) = Inr st"
  by (cases st) (simp add: build_step_def nid_UNASSIGNED_def)

lemma build_step_Inr:
  "n \<noteq> 0 \<Longrightarrow> build_step (seen, acc) (i, n) = Inr st \<longleftrightarrow>
     valid_nid n \<and> n \<notin> seen \<and> st = (insert n seen, acc @ [(n, word_of_nat i)])"
  by (auto simp: build_step_def nid_UNASSIGNED_def validate_nid_cases)

lemma build_fold:
  "foldE build_step (seen, acc) ps = Inr (seen', acc') \<Longrightarrow>
     acc' = acc @ assigned_pairs ps \<and> distinct (map fst (assigned_pairs ps))
     \<and> set (map fst (assigned_pairs ps)) \<inter> seen = {} \<and> (\<forall>p \<in> set (assigned_pairs ps). valid_nid (fst p))"
proof (induction ps arbitrary: seen acc)
  case (Cons p ps)
  obtain i n where p: "p = (i, n)" by force
  show ?case
  proof (cases "n = 0")
    case True
    with Cons p show ?thesis by (simp add: build_step_unassigned)
  next
    case False
    with Cons.prems p have "valid_nid n" "n \<notin> seen"
      and "foldE build_step (insert n seen, acc @ [(n, word_of_nat i)]) ps = Inr (seen', acc')"
      by (auto simp: build_step_Inr res_simps)
    with Cons.IH [of "insert n seen" "acc @ [(n, word_of_nat i)]"] False p show ?thesis
      by simp
  qed
qed simp

lemma assigned_pairs_enumerate:
  assumes "length r < 2 ^ 32"
  shows "(n, ord) \<in> set (assigned_pairs (enumerate 0 r)) \<longleftrightarrow> unat ord < length r \<and> r ! unat ord = n \<and> n \<noteq> 0"
proof -
  have "i < length r \<Longrightarrow> unat (word_of_nat i :: u32) = i" for i using assms by (simp add: unat_of_nat)
  then show ?thesis
    by (force simp: assigned_pairs_def in_set_enumerate_eq)
qed

lemma build_index_wf:
  assumes "nid_build r b = Inr idx"
  shows "index_wf idx \<and> ordinal_to_nid idx = r \<and> length r < 2 ^ 32 \<and> (\<forall>f. bloom idx = Some f \<longrightarrow> bloom_wf f)"
proof -
  from assms obtain seen pairs f where len: "length r < 2 ^ 32"
    and fold: "foldE build_step ({}, []) (enumerate 0 r) = Inr (seen, pairs)"
    and bl: "(if b then bindE (bloom_build (map fst (sort_key fst pairs))) (\<lambda>f. Inr (Some f)) else Inr None) = Inr f"
    and idx: "idx = \<lparr>sorted_nids = map fst (sort_key fst pairs), sorted_ordinals = map snd (sort_key fst pairs),
      ordinal_to_nid = r, bloom = f\<rparr>"
    by (auto simp: nid_build_def Let_def bindE_eq_Inr if_Inl_eq_Inr)
  have pairs: "pairs = assigned_pairs (enumerate 0 r)" and d: "distinct (map fst pairs)"
    and v: "\<And>p. p \<in> set pairs \<Longrightarrow> valid_nid (fst p)"
    using build_fold [OF fold] by auto
  note mem = assigned_pairs_enumerate [OF len, folded pairs]
  have f: "\<forall>g. f = Some g \<longrightarrow> bloom_wf g \<and> (\<forall>n \<in> fst ` set pairs. may_contain g n)"
    using bl bloom_build_Inr by (auto simp: res_simps split: if_splits) force
  have s: "sorted_wrt (<) (map fst (sort_key fst pairs))"
    using d by (simp add: strict_sorted_iff distinct_map)
  have "distinct (map snd pairs)"
    using d mem by (auto simp: distinct_map inj_on_def)
  then have "distinct (map snd (sort_key fst pairs))"
    by (simp add: distinct_map)
  moreover have "pairs_ok r f (sort_key fst pairs)"
    using v mem f by (force simp: pairs_ok_def)
  moreover have "i \<in> unat ` set (map snd (sort_key fst pairs))" if "i < length r" "r ! i \<noteq> 0" for i
  proof -
    have "unat (word_of_nat i :: u32) = i" using that len by (simp add: unat_of_nat)
    with that have "(r ! i, word_of_nat i) \<in> set pairs" by (simp add: mem)
    then show ?thesis using \<open>unat _ = i\<close> by force
  qed
  ultimately show ?thesis
    using s f len by (auto simp: idx index_wf_def zip_map_fst_snd)
qed

section \<open>Writing and opening\<close>

lemma decode_encode_nids:
  "length ns < 2 ^ 60 \<Longrightarrow> decode_nids (encode_nids ns) (length ns) = Inr ns"
  by (simp add: decode_nids_def encode_nids_def checked_width_def checked_mul_def length_concat_chunks
      chunks_exact_concat comp_def)

lemma decode_encode_ordinals:
  "length os < 2 ^ 60 \<Longrightarrow> decode_ordinals (encode_ordinals os) (length os) = Inr os"
  by (simp add: decode_ordinals_def encode_ordinals_def checked_width_def checked_mul_def length_concat_chunks
      chunks_exact_concat comp_def)

lemma index_wf_length:
  assumes "index_wf idx"
  shows "length (sorted_nids idx) \<le> length (ordinal_to_nid idx)"
  using validate_loaded_iff [of idx] assms by (simp add: validate_loaded_Inr)

lemmas nid_sections_defs = FLAG_BLOOM_def SECTION_SORTED_NIDS_def SECTION_SORTED_ORDINALS_def
  SECTION_ORDINAL_TO_NID_def SECTION_BLOOM_def

lemma nid_open_written:
  assumes wf: "index_wf idx" and len: "length (ordinal_to_nid idx) < 2 ^ 32"
    and bwf: "\<And>f. bloom idx = Some f \<Longrightarrow> bloom_wf f"
    and "nid_write crc idx = Inr bytes" and "plain file = bytes" and "\<And>a b. admits file a b"
  shows "nid_open crc file = Inr idx"
proof -
  let ?flags = "if bloom idx \<noteq> None then FLAG_BLOOM else 0"
  have magic: "length (magic NID_SPEC) = 8" by (simp add: NID_SPEC_def)
  have e: "encode_with_alignments crc NID_SPEC ?flags (nid_sections idx) [] = Inr bytes"
    using assms(4) by (simp add: nid_write_def res_simps artifact_encode_def)
  from encoded_artifact_opens [OF magic e assms(5,6)]
  obtain art where art: "artifact_open crc NID_SPEC file = Inr art" "ca_flags art = ?flags"
    "dom (ca_sections art) = sp_id ` set (nid_sections idx)"
    and all: "\<forall>s \<in> set (nid_sections idx). read_section art (sp_id s) = Inr (sp_bytes s)
         \<and> map_option cs_elem_count (section_of art (sp_id s)) = Some (sp_elem_count s)"
    by (elim exE conjE) (rule that)
  note sec = bspec [OF all]
  have bloomsec: "section_of art SECTION_BLOOM \<noteq> None \<longleftrightarrow> bloom idx \<noteq> None"
    unfolding section_of_def domIff [symmetric] art(3)
    by (cases "bloom idx") (auto simp: nid_sections_def nid_sections_defs)
  have n: "length (sorted_nids idx) < 2 ^ 32" "length (sorted_ordinals idx) < 2 ^ 32"
    "length (sorted_ordinals idx) = length (sorted_nids idx)"
    using index_wf_length [OF wf] len wf by (auto simp: index_wf_def)
  have u: "unat (word_of_nat m :: u64) = m" if "m < 2 ^ 32" for m using that by (simp add: unat_of_nat)
  obtain s1 s2 s3 where s: "section_of art SECTION_SORTED_NIDS = Some s1" "section_of art SECTION_SORTED_ORDINALS = Some s2"
    "section_of art SECTION_ORDINAL_TO_NID = Some s3"
    and c: "cs_elem_count s1 = word_of_nat (length (sorted_nids idx))"
    "cs_elem_count s2 = word_of_nat (length (sorted_ordinals idx))"
    "cs_elem_count s3 = word_of_nat (length (ordinal_to_nid idx))"
    and r: "read_section art SECTION_SORTED_NIDS = Inr (encode_nids (sorted_nids idx))"
    "read_section art SECTION_SORTED_ORDINALS = Inr (encode_ordinals (sorted_ordinals idx))"
    "read_section art SECTION_ORDINAL_TO_NID = Inr (encode_nids (ordinal_to_nid idx))"
    using sec [of "nid_sections idx ! 0"] sec [of "nid_sections idx ! 1"] sec [of "nid_sections idx ! 2"]
    by (auto simp: nid_sections_def)
  have b: "nid_open_bloom art = Inr (bloom idx)"
  proof (cases "bloom idx")
    case (Some f)
    then obtain s4 where "section_of art SECTION_BLOOM = Some s4" "cs_elem_count s4 = word_of_nat (bit_count f)"
      "read_section art SECTION_BLOOM = Inr (bloom_encode f)"
      using sec [of "nid_sections idx ! 3"] by (auto simp: nid_sections_def)
    moreover have "unat (word_of_nat (bit_count f) :: u64) = bit_count f"
      using bwf [OF Some] by (simp add: bloom_wf_def unat_of_nat)
    ultimately show ?thesis
      using Some art(2) bloom_decode_encode [OF bwf [OF Some]]
      by (simp add: nid_open_bloom_def expect_def FLAG_BLOOM_def)
  qed (simp add: nid_open_bloom_def art(2))
  have "validate_loaded (sorted_nids idx) (sorted_ordinals idx) (ordinal_to_nid idx) (bloom idx) = Inr ()"
    using validate_loaded_iff wf by blast
  moreover have "decode_nids (encode_nids (sorted_nids idx)) (length (sorted_nids idx)) = Inr (sorted_nids idx)"
    "decode_nids (encode_nids (ordinal_to_nid idx)) (length (ordinal_to_nid idx)) = Inr (ordinal_to_nid idx)"
    "decode_ordinals (encode_ordinals (sorted_ordinals idx)) (length (sorted_ordinals idx)) = Inr (sorted_ordinals idx)"
    using n len decode_encode_nids [of "sorted_nids idx"] decode_encode_nids [of "ordinal_to_nid idx"]
      decode_encode_ordinals [of "sorted_ordinals idx"] by simp_all
  ultimately show ?thesis
    unfolding nid_open_def
    using art bloomsec s c r b n len by (simp add: expect_def u FLAG_BLOOM_def)
qed

lemma nid_open_wf:
  assumes "nid_open crc file = Inr idx"
  shows "index_wf idx"
proof -
  from assms obtain nids ords reverse f u where "validate_loaded nids ords reverse f = Inr u"
    and idx: "idx = \<lparr>sorted_nids = nids, sorted_ordinals = ords, ordinal_to_nid = reverse, bloom = f\<rparr>"
    unfolding nid_open_def bindE_eq_Inr if_Inl_eq_Inr by blast
  then show ?thesis using validate_loaded_iff [of idx] by simp
qed

text \<open>
  C31. A built index answers exactly: \<open>lookup\<close> finds a live id at an ordinal if and only if the
  reverse table has that id at that ordinal. In particular neither the range test nor the Bloom
  filter nor the binary search loses a live id.
\<close>

theorem nid_build_lookup_exact:
  assumes "nid_build reverse include_bloom = Inr idx"
  shows "nid_lookup idx n = Some ord \<longleftrightarrow>
    n \<noteq> 0 \<and> unat ord < length reverse \<and> reverse ! unat ord = n"
proof -
  have wf: "index_wf idx" and r: "ordinal_to_nid idx = reverse" using build_index_wf [OF assms] by auto
  show ?thesis
    unfolding lookup_reverse [OF wf] by (auto simp: nid_for_ordinal_def nid_UNASSIGNED_def r)
qed

text \<open>
  C12. Whatever file the loader accepts, with whatever contents, the loaded index answers \<open>lookup\<close>
  as the inverse of \<open>nid_for_ordinal\<close>.
\<close>

theorem nid_open_lookup_exact:
  assumes "nid_open crc file = Inr idx"
  shows "nid_lookup idx n = Some ord \<longleftrightarrow> nid_for_ordinal idx ord = Some n"
  by (rule lookup_reverse [OF nid_open_wf [OF assms]])

text \<open>
  C33. Writing a built index and opening the file again returns the same index, filter included.
\<close>

theorem nid_write_open_roundtrip:
  assumes "nid_build reverse include_bloom = Inr idx" and "nid_write crc idx = Inr bytes"
    and "plain file = bytes" and "\<And>a b. admits file a b"
  shows "nid_open crc file = Inr idx"
  using build_index_wf [OF assms(1)] by (intro nid_open_written [OF _ _ _ assms(2-4)]) auto

definition demo_reverse :: "nid list" where
  "demo_reverse = [0x10000000002, 0, 0x10000000001]"

lemma demo_valid: "valid_nid 0x10000000001" "valid_nid 0x10000000002"
  by (simp_all add: valid_nid_def validate_nid_def nid_is_assigned_def nid_epoch_def nid_counter_def
      GRAPH_ALLOCATOR_COUNTER_BITS_def max_epoch_num max_counter_num)

lemma demo_builds: "\<exists>f. nid_build demo_reverse b = Inr \<lparr>sorted_nids = [0x10000000001, 0x10000000002],
    sorted_ordinals = [2, 0], ordinal_to_nid = demo_reverse, bloom = if b then Some f else None\<rparr>"
  by (simp add: nid_build_def demo_reverse_def build_step_def nid_UNASSIGNED_def validate_nid_cases demo_valid
      bloom_build_def checked_mul_def checked_add_def BLOOM_BITS_PER_KEY_def BLOOM_MIN_BITS_def)

theorem nid_build_lookup_exact_witness:
  "\<exists>idx. nid_build demo_reverse True = Inr idx \<and> nid_lookup idx 0x10000000001 = Some 2
     \<and> nid_lookup idx 0x10000000003 = None"
proof -
  obtain idx where idx: "nid_build demo_reverse True = Inr idx" using demo_builds by blast
  have "nid_lookup idx 0x10000000001 = Some 2"
    using nid_build_lookup_exact [OF idx, of "0x10000000001" 2] by (simp add: demo_reverse_def)
  moreover have "nid_lookup idx 0x10000000003 \<noteq> Some ord" for ord
    using nid_build_lookup_exact [OF idx, of "0x10000000003" ord]
    by (auto simp: demo_reverse_def less_Suc_eq numeral_3_eq_3)
  ultimately show ?thesis using idx by auto
qed

lemma demo_writes:
  "\<exists>bytes. nid_write (\<lambda>_. 5) \<lparr>sorted_nids = [0x10000000001, 0x10000000002],
    sorted_ordinals = [2, 0], ordinal_to_nid = demo_reverse, bloom = None\<rparr> = Inr bytes"
  by (simp add: nid_write_def artifact_encode_def encode_with_alignments_def NID_SPEC_def nid_sections_def nid_sections_defs
       Let_def encode_nids_def encode_ordinals_def demo_reverse_def
        validate_artifact_flags_def known_section_def check_alignment_def is_power_of_two_def
        align_eight_def align_to_def checked_add_def checked_mul_def MAX_SECTIONS_def
        SECTION_TABLE_ENTRY_BYTES_def COMMON_HEADER_BYTES_def encode_head_def encode_prefix_def)

theorem nid_write_open_roundtrip_witness:
  "\<exists>idx bytes. nid_build demo_reverse False = Inr idx \<and> nid_write (\<lambda>_. 5) idx = Inr bytes
     \<and> nid_open (\<lambda>_. 5) \<lparr>plain = bytes, admits = \<lambda>_ _. True\<rparr> = Inr idx"
proof -
  obtain idx bytes where idx: "nid_build demo_reverse False = Inr idx" "nid_write (\<lambda>_. 5) idx = Inr bytes"
    using demo_builds [of False] demo_writes by auto
  with nid_write_open_roundtrip [OF idx, of "\<lparr>plain = bytes, admits = \<lambda>_ _. True\<rparr>"]
  show ?thesis by auto
qed

theorem nid_open_lookup_exact_witness:
  "\<exists>bytes idx. nid_open (\<lambda>_. 5) \<lparr>plain = bytes, admits = \<lambda>_ _. True\<rparr> = Inr idx
     \<and> nid_lookup idx 0x10000000002 = Some 0"
proof -
  obtain idx bytes where idx: "nid_build demo_reverse False = Inr idx" "nid_write (\<lambda>_. 5) idx = Inr bytes"
    using demo_builds [of False] demo_writes by auto
  let ?f = "\<lparr>plain = bytes, admits = \<lambda>_ _. True\<rparr>"
  have o: "nid_open (\<lambda>_. 5) ?f = Inr idx"
    using build_index_wf [OF idx(1)] by (intro nid_open_written [OF _ _ _ idx(2)]) auto
  have "nid_for_ordinal idx 0 = Some 0x10000000002"
    using build_index_wf [OF idx(1)] by (simp add: nid_for_ordinal_def demo_reverse_def nid_UNASSIGNED_def)
  with nid_open_lookup_exact [OF o, of "0x10000000002" 0] o show ?thesis by auto
qed

end
