(* ===== verification/Graph_Identity.thy ===== *)
theory Graph_Identity
  imports Graph_Types
begin

text \<open>
  The installation identity and id allocator of \<open>chirondb-core/src/graph_identity.rs\<close> and the
  public edge token of \<open>chirondb-core/src/edge_token.rs\<close>.

  The identity file is the state on disk; the allocator state is in memory and lost by a crash.
  What the outside world decides about one call is the record \<open>io\<close>: whether the atomic file
  replacement succeeds, fails before it or fails after it took effect, the length of the file on
  disk, whether the injected failpoint fires, and the random UUID. The state machine
  \<open>alloc_step\<close> runs the calls in any order with crashes between them; its main invariant gives
  that no identifier is ever issued twice.

  The checksum is the parameter \<open>crc\<close> and the base64 engine the parameters \<open>b64enc\<close>, \<open>b64dec\<close>.
\<close>

type_synonym uuid = "128 word"

definition uuid_bytes :: "uuid \<Rightarrow> byte list" where
  "uuid_bytes u = to_be 16 (unat u)"

definition uuid_from_bytes :: "byte list \<Rightarrow> uuid" where
  "uuid_from_bytes bs = word_of_nat (from_be bs)"

section \<open>Snapshots and their codec\<close>

definition GRAPH_IDENTITY_MAGIC :: "byte list" where
  "GRAPH_IDENTITY_MAGIC = [71, 65, 85, 83, 71, 73, 48, 49]"

definition GRAPH_IDENTITY_VERSION :: nat where "GRAPH_IDENTITY_VERSION = 1"

definition GRAPH_IDENTITY_BYTES :: nat where "GRAPH_IDENTITY_BYTES = 64"

definition MAX_ENCODED_IDENTITY_BYTES :: nat where "MAX_ENCODED_IDENTITY_BYTES = 1024 * 1024"

abbreviation max_epoch :: nat where "max_epoch \<equiv> unat GRAPH_ALLOCATOR_MAX_EPOCH"

abbreviation max_counter :: nat where "max_counter \<equiv> unat GRAPH_ALLOCATOR_MAX_COUNTER"

record GraphIdentitySnapshot =
  database_id :: uuid
  allocator_epoch :: nat
  node_high_water :: nat
  edge_high_water :: nat

datatype identity_msg =
    Not_a_regular_file | Encoded_identity_too_long | Epoch_space_exhausted | Counter_space_exhausted
  | Identity_length | Identity_magic | Identity_version | Identity_header_length | Identity_reserved
  | Identity_crc | Nil_database_id | Epoch_out_of_range | High_water_out_of_range
  | Unreadable_file | Invalid_frontier_file | Lineage_regressed | Not_removable
  | Invalid_edge_token

definition identity_fresh :: "uuid \<Rightarrow> GraphIdentitySnapshot" where
  "identity_fresh u =
     \<lparr>database_id = u, allocator_epoch = 1, node_high_water = 0, edge_high_water = 0\<rparr>"

definition successor_epoch ::
  "GraphIdentitySnapshot \<Rightarrow> (identity_msg, GraphIdentitySnapshot) result" where
  "successor_epoch s =
     (if allocator_epoch s + 1 \<ge> 2 ^ 32
      then Inl (Graph (graph_error_new AllocatorExhausted Epoch_space_exhausted))
      else if allocator_epoch s + 1 > max_epoch
      then Inl (Graph (graph_error_new AllocatorExhausted Epoch_space_exhausted))
      else Inr \<lparr>database_id = database_id s, allocator_epoch = allocator_epoch s + 1,
                 node_high_water = 0, edge_high_water = 0\<rparr>)"

definition identity_payload :: "GraphIdentitySnapshot \<Rightarrow> byte list" where
  "identity_payload s =
     GRAPH_IDENTITY_MAGIC @ to_le 2 GRAPH_IDENTITY_VERSION @ to_le 2 GRAPH_IDENTITY_BYTES
     @ replicate 4 0 @ uuid_bytes (database_id s) @ to_le 4 (allocator_epoch s) @ replicate 4 0
     @ to_le 8 (node_high_water s) @ to_le 8 (edge_high_water s) @ replicate 4 0"

definition identity_encode :: "(byte list \<Rightarrow> u32) \<Rightarrow> GraphIdentitySnapshot \<Rightarrow> byte list" where
  "identity_encode crc s = identity_payload s @ to_le 4 (unat (crc (identity_payload s)))"

definition identity_decode ::
  "(byte list \<Rightarrow> u32) \<Rightarrow> byte list \<Rightarrow> (identity_msg, GraphIdentitySnapshot) result" where
  "identity_decode crc bs =
     (if length bs \<noteq> GRAPH_IDENTITY_BYTES then Inl (SegmentCorruption Identity_length)
      else if slice 0 8 bs \<noteq> GRAPH_IDENTITY_MAGIC then Inl (SegmentCorruption Identity_magic)
      else if from_le (slice 8 10 bs) \<noteq> GRAPH_IDENTITY_VERSION
      then Inl (SegmentCorruption Identity_version)
      else if from_le (slice 10 12 bs) \<noteq> GRAPH_IDENTITY_BYTES
      then Inl (SegmentCorruption Identity_header_length)
      else if slice 12 16 bs \<noteq> replicate 4 0 \<or> slice 36 40 bs \<noteq> replicate 4 0
              \<or> slice 56 60 bs \<noteq> replicate 4 0
      then Inl (SegmentCorruption Identity_reserved)
      else if unat (crc (slice 0 60 bs)) \<noteq> from_le (slice 60 64 bs)
      then Inl (SegmentCorruption Identity_crc)
      else let u = uuid_from_bytes (slice 16 32 bs) in
      if u = 0 then Inl (SegmentCorruption Nil_database_id)
      else let epoch = from_le (slice 32 36 bs);
               node = from_le (slice 40 48 bs);
               edge = from_le (slice 48 56 bs) in
      if epoch = 0 \<or> epoch > max_epoch then Inl (SegmentCorruption Epoch_out_of_range)
      else if node > max_counter \<or> edge > max_counter
      then Inl (SegmentCorruption High_water_out_of_range)
      else Inr \<lparr>database_id = u, allocator_epoch = epoch, node_high_water = node,
                 edge_high_water = edge\<rparr>)"

section \<open>Files\<close>

text \<open>
  What \<open>symlink_metadata\<close> and \<open>read_persistent\<close> see at a path: nothing, an I/O error, something that is not a
  regular file (and whether it is a symbolic link), or a regular file with its length on disk and
  the plaintext it decrypts to, if it does.
\<close>

datatype FileEntry = Absent | Stat_error | Irregular bool | Regular nat "byte list option"

datatype write_outcome = Write_ok | Write_failed_before | Write_failed_after

record io =
  io_write :: write_outcome
  io_disk_len :: nat
  io_failpoint :: bool
  io_uuid :: uuid

definition read_persistent :: "byte list option \<Rightarrow> (identity_msg, byte list) result" where
  "read_persistent c = ok_or (InvalidRequest Unreadable_file) c"

definition write_state ::
  "(byte list \<Rightarrow> u32) \<Rightarrow> io \<Rightarrow> GraphIdentitySnapshot \<Rightarrow> FileEntry
     \<Rightarrow> FileEntry \<times> (identity_msg, unit) result" where
  "write_state crc env s f =
     (let new = Regular (io_disk_len env) (Some (identity_encode crc s)) in
      case io_write env of
        Write_ok \<Rightarrow> (new, Inr ())
      | Write_failed_before \<Rightarrow> (f, Inl Io)
      | Write_failed_after \<Rightarrow> (new, Inl Io))"

definition failpoint_check :: "io \<Rightarrow> (identity_msg, unit) result" where
  "failpoint_check env = (if io_failpoint env then Inl Io else Inr ())"

section \<open>The allocator\<close>

record AllocatorState =
  issued :: GraphIdentitySnapshot
  node_reserved :: nat
  edge_reserved :: nat

definition allocator_new :: "GraphIdentitySnapshot \<Rightarrow> AllocatorState" where
  "allocator_new s =
     \<lparr>issued = s, node_reserved = node_high_water s, edge_reserved = edge_high_water s\<rparr>"

definition durable_snapshot :: "AllocatorState \<Rightarrow> GraphIdentitySnapshot" where
  "durable_snapshot st =
     (issued st)\<lparr>node_high_water := node_reserved st, edge_high_water := edge_reserved st\<rparr>"

record AllocatedGraphIdRange =
  r_epoch :: nat
  first_counter :: nat
  last_counter :: nat

datatype CounterKind = Node | Edge

definition range_len :: "AllocatedGraphIdRange \<Rightarrow> nat" where
  "range_len r = last_counter r - first_counter r + 1"

text \<open>\<open>nids\<close> and \<open>edge_ids\<close>; the panic of \<open>expect\<close> is the value on the left.\<close>

definition range_nids :: "AllocatedGraphIdRange \<Rightarrow> unit + nid list" where
  "range_nids r =
     mapE (\<lambda>c. expect () (nid_from_parts (word_of_nat (r_epoch r)) (word_of_nat c)))
       [first_counter r..<Suc (last_counter r)]"

definition range_edge_ids :: "AllocatedGraphIdRange \<Rightarrow> unit + edge_id list" where
  "range_edge_ids r =
     mapE (\<lambda>c. expect () (edge_from_parts (word_of_nat (r_epoch r)) (word_of_nat c)))
       [first_counter r..<Suc (last_counter r)]"

definition identity_open ::
  "(byte list \<Rightarrow> u32) \<Rightarrow> io \<Rightarrow> FileEntry \<Rightarrow> FileEntry \<times> (identity_msg, AllocatorState) result" where
  "identity_open crc env f =
     (case (case f of
              Regular len content \<Rightarrow>
                if len > MAX_ENCODED_IDENTITY_BYTES
                then Inl (SegmentCorruption Encoded_identity_too_long)
                else bindE (read_persistent content)
                       (\<lambda>bs. bindE (identity_decode crc bs) successor_epoch)
            | Irregular _ \<Rightarrow> Inl (SegmentCorruption Not_a_regular_file)
            | Stat_error \<Rightarrow> Inl Io
            | Absent \<Rightarrow> Inr (identity_fresh (io_uuid env))) of
        Inl e \<Rightarrow> (f, Inl e)
      | Inr s \<Rightarrow>
          (case write_state crc env s f of (f', w) \<Rightarrow>
             (f', bindE w (\<lambda>_. bindE (failpoint_check env) (\<lambda>_. Inr (allocator_new s))))))"

definition reserve_new_epoch ::
  "(byte list \<Rightarrow> u32) \<Rightarrow> io \<Rightarrow> FileEntry \<times> AllocatorState
     \<Rightarrow> (FileEntry \<times> AllocatorState) \<times> (identity_msg, nat) result" where
  "reserve_new_epoch crc env p =
     (case p of (f, st) \<Rightarrow>
       (case successor_epoch (issued st) of
          Inl e \<Rightarrow> ((f, st), Inl e)
        | Inr next \<Rightarrow>
            (case write_state crc env next f of (f', w) \<Rightarrow>
               (case bindE w (\<lambda>_. failpoint_check env) of
                  Inl e \<Rightarrow> ((f', st), Inl e)
                | Inr _ \<Rightarrow> ((f', allocator_new next), Inr (allocator_epoch next))))))"

definition kind_water :: "CounterKind \<Rightarrow> GraphIdentitySnapshot \<Rightarrow> nat" where
  "kind_water k s = (case k of Node \<Rightarrow> node_high_water s | Edge \<Rightarrow> edge_high_water s)"

definition set_kind_water :: "CounterKind \<Rightarrow> nat \<Rightarrow> GraphIdentitySnapshot \<Rightarrow> GraphIdentitySnapshot" where
  "set_kind_water k n s = (case k of Node \<Rightarrow> s\<lparr>node_high_water := n\<rparr> | Edge \<Rightarrow> s\<lparr>edge_high_water := n\<rparr>)"

definition kind_reserved :: "CounterKind \<Rightarrow> AllocatorState \<Rightarrow> nat" where
  "kind_reserved k st = (case k of Node \<Rightarrow> node_reserved st | Edge \<Rightarrow> edge_reserved st)"

definition lease_high_water :: "nat \<Rightarrow> nat" where
  "lease_high_water n =
     min (saturating_mul ((n + MAX_GRAPH_EDGES_PER_BATCH - 1) div MAX_GRAPH_EDGES_PER_BATCH)
            MAX_GRAPH_EDGES_PER_BATCH) max_counter"

text \<open>The lease extension in the middle of \<open>allocate_range\<close>.\<close>

definition extend_lease ::
  "(byte list \<Rightarrow> u32) \<Rightarrow> io \<Rightarrow> CounterKind \<Rightarrow> nat \<Rightarrow> FileEntry \<times> AllocatorState
     \<Rightarrow> (FileEntry \<times> AllocatorState) \<times> (identity_msg, unit) result" where
  "extend_lease crc env k next p =
     (case p of (f, st) \<Rightarrow>
       if next > kind_reserved k st
       then let durable = set_kind_water k (lease_high_water next) (durable_snapshot st) in
            (case write_state crc env durable f of
               (f', Inl e) \<Rightarrow> ((f', st), Inl e)
             | (f', Inr _) \<Rightarrow>
                 ((f', st\<lparr>node_reserved := node_high_water durable,
                         edge_reserved := edge_high_water durable\<rparr>), Inr ()))
       else ((f, st), Inr ()))"

definition allocate_range ::
  "(byte list \<Rightarrow> u32) \<Rightarrow> io \<Rightarrow> nat \<Rightarrow> CounterKind \<Rightarrow> FileEntry \<times> AllocatorState
     \<Rightarrow> (FileEntry \<times> AllocatorState) \<times> (identity_msg, AllocatedGraphIdRange) result" where
  "allocate_range crc env n k p =
     (let water = kind_water k (issued (snd p));
          exhausted = Graph (graph_error_new AllocatorExhausted Counter_space_exhausted) in
      case checked_add water n of
        None \<Rightarrow> (p, Inl exhausted)
      | Some next \<Rightarrow>
          if next > max_counter then (p, Inl exhausted)
          else case extend_lease crc env k next p of
                 (p', Inl e) \<Rightarrow> (p', Inl e)
               | ((f', st'), Inr _) \<Rightarrow>
                   (case failpoint_check env of
                      Inl e \<Rightarrow> ((f', st'), Inl e)
                    | Inr _ \<Rightarrow>
                        ((f', st'\<lparr>issued := set_kind_water k next (issued st')\<rparr>),
                         Inr \<lparr>r_epoch = allocator_epoch (issued st'), first_counter = water + 1,
                              last_counter = next\<rparr>)))"

definition allocate_nids where
  "allocate_nids crc env n p = allocate_range crc env n Node p"

definition allocate_edge_ids where
  "allocate_edge_ids crc env n p = allocate_range crc env n Edge p"

definition preserve_for_root_swap ::
  "(byte list \<Rightarrow> u32) \<Rightarrow> io \<Rightarrow> AllocatorState \<Rightarrow> FileEntry \<Rightarrow> FileEntry \<times> (identity_msg, unit) result" where
  "preserve_for_root_swap crc env st staged = write_state crc env (durable_snapshot st) staged"

definition discard_imported_from :: "FileEntry \<Rightarrow> FileEntry \<times> (identity_msg, unit) result" where
  "discard_imported_from f =
     (case f of
        Regular _ _ \<Rightarrow> (Absent, Inr ())
      | Irregular symlink \<Rightarrow> if symlink then (Absent, Inr ()) else (f, Inl (SegmentCorruption Not_removable))
      | Absent \<Rightarrow> (f, Inr ())
      | Stat_error \<Rightarrow> (f, Inl Io))"

definition frontier_file :: "FileEntry \<Rightarrow> (identity_msg, byte list option) result" where
  "frontier_file f =
     (case f of
        Absent \<Rightarrow> Inl Io
      | Stat_error \<Rightarrow> Inl Io
      | Irregular _ \<Rightarrow> Inl (InvalidRequest Invalid_frontier_file)
      | Regular len content \<Rightarrow>
          if len > MAX_ENCODED_IDENTITY_BYTES then Inl (InvalidRequest Invalid_frontier_file)
          else Inr content)"

definition validate_materialized_allocator ::
  "(byte list \<Rightarrow> u32) \<Rightarrow> FileEntry \<Rightarrow> FileEntry \<Rightarrow> (identity_msg, unit) result" where
  "validate_materialized_allocator crc current materialized =
     bindE (frontier_file current) (\<lambda>c. bindE (frontier_file materialized) (\<lambda>m.
     bindE (read_persistent c) (\<lambda>cb. bindE (identity_decode crc cb) (\<lambda>cur.
     bindE (read_persistent m) (\<lambda>mb. bindE (identity_decode crc mb) (\<lambda>base.
     if database_id cur \<noteq> database_id base \<or> allocator_epoch cur < allocator_epoch base
        \<or> (allocator_epoch cur = allocator_epoch base
            \<and> (node_high_water cur < node_high_water base \<or> edge_high_water cur < edge_high_water base))
     then Inl (InvalidRequest Lineage_regressed) else Inr ()))))))"

section \<open>Edge tokens\<close>

definition EDGE_TOKEN_VERSION :: byte where "EDGE_TOKEN_VERSION = 1"

definition EDGE_TOKEN_PAYLOAD_BYTES :: nat where "EDGE_TOKEN_PAYLOAD_BYTES = 1 + 16 + 8"

definition EDGE_TOKEN_BYTES :: nat where "EDGE_TOKEN_BYTES = EDGE_TOKEN_PAYLOAD_BYTES + 4"

definition EDGE_TOKEN_ENCODED_BYTES :: nat where "EDGE_TOKEN_ENCODED_BYTES = 39"

definition valid_edge_id :: "edge_id \<Rightarrow> bool" where
  "valid_edge_id e \<longleftrightarrow> edge_epoch e \<noteq> 0 \<and> edge_counter e \<noteq> 0"

definition invalid_token :: "identity_msg GaussError" where
  "invalid_token = Graph (graph_error_new EdgeNotFound Invalid_edge_token)"

definition token_encode ::
  "(byte list \<Rightarrow> u32) \<Rightarrow> (byte list \<Rightarrow> string) \<Rightarrow> uuid \<Rightarrow> edge_id \<Rightarrow> (identity_msg, string) result" where
  "token_encode crc b64enc u e =
     (if u = 0 \<or> \<not> valid_edge_id e then Inl invalid_token
      else let payload = [EDGE_TOKEN_VERSION] @ uuid_bytes u @ to_le 8 (unat e) in
      Inr (b64enc (payload @ to_le 4 (unat (crc payload)))))"

definition token_decode ::
  "(byte list \<Rightarrow> u32) \<Rightarrow> (string \<Rightarrow> byte list option) \<Rightarrow> uuid \<Rightarrow> string
     \<Rightarrow> (identity_msg, edge_id) result" where
  "token_decode crc b64dec u token =
     (if u = 0 \<or> length token \<noteq> EDGE_TOKEN_ENCODED_BYTES then Inl invalid_token
      else bindE (ok_or invalid_token (b64dec token)) (\<lambda>bs.
      if length bs \<noteq> EDGE_TOKEN_BYTES then Inl invalid_token
      else if bs ! 0 \<noteq> EDGE_TOKEN_VERSION then Inl invalid_token
      else if unat (crc (slice 0 EDGE_TOKEN_PAYLOAD_BYTES bs))
              \<noteq> from_le (slice EDGE_TOKEN_PAYLOAD_BYTES EDGE_TOKEN_BYTES bs)
      then Inl invalid_token
      else if slice 1 17 bs \<noteq> uuid_bytes u then Inl invalid_token
      else let e = word_of_nat (from_le (slice 17 25 bs)) in
      if \<not> valid_edge_id e then Inl invalid_token else Inr e))"

section \<open>The state machine\<close>

record alloc_sys =
  disk :: FileEntry
  mem :: "AllocatorState option"
  ids :: "(uuid \<times> CounterKind \<times> u64) list"

definition issued_ids ::
  "uuid \<Rightarrow> CounterKind \<Rightarrow> ('e, AllocatedGraphIdRange) result \<Rightarrow> (uuid \<times> CounterKind \<times> u64) list" where
  "issued_ids u k res =
     (case res of Inl _ \<Rightarrow> []
      | Inr r \<Rightarrow>
          (case (case k of Node \<Rightarrow> range_nids r | Edge \<Rightarrow> range_edge_ids r) of
             Inl _ \<Rightarrow> [] | Inr ns \<Rightarrow> map (\<lambda>n. (u, k, n)) ns))"

text \<open>
  The steps of an installation: opening (a random UUID is not nil and has not been used before), allocation, an
  explicit epoch, a root swap, a crash or shutdown, and the removal of the file while stopped.
\<close>

inductive alloc_step :: "(byte list \<Rightarrow> u32) \<Rightarrow> alloc_sys \<Rightarrow> alloc_sys \<Rightarrow> bool" for crc where
  Open: "mem s = None \<Longrightarrow> io_uuid env \<noteq> 0 \<Longrightarrow> io_uuid env \<notin> fst ` set (ids s)
     \<Longrightarrow> identity_open crc env (disk s) = (f, Inr st) \<Longrightarrow> alloc_step crc s (s\<lparr>disk := f, mem := Some st\<rparr>)"
| Open_failed: "mem s = None \<Longrightarrow> io_uuid env \<noteq> 0 \<Longrightarrow> io_uuid env \<notin> fst ` set (ids s)
     \<Longrightarrow> identity_open crc env (disk s) = (f, Inl e) \<Longrightarrow> alloc_step crc s (s\<lparr>disk := f\<rparr>)"
| Allocate: "mem s = Some st \<Longrightarrow> 0 < n
     \<Longrightarrow> allocate_range crc env n k (disk s, st) = ((f, st'), res)
     \<Longrightarrow> alloc_step crc s (s\<lparr>disk := f, mem := Some st',
            ids := ids s @ issued_ids (database_id (issued st)) k res\<rparr>)"
| Reserve_epoch: "mem s = Some st \<Longrightarrow> reserve_new_epoch crc env (disk s, st) = ((f, st'), res)
     \<Longrightarrow> alloc_step crc s (s\<lparr>disk := f, mem := Some st'\<rparr>)"
| Root_swap: "mem s = Some st \<Longrightarrow> preserve_for_root_swap crc env st staged = (f, Inr ())
     \<Longrightarrow> alloc_step crc s (s\<lparr>disk := f\<rparr>)"
| Crash: "alloc_step crc s (s\<lparr>mem := None\<rparr>)"
| Remove: "mem s = None \<Longrightarrow> alloc_step crc s (s\<lparr>disk := Absent\<rparr>)"

definition alloc_start :: "alloc_sys \<Rightarrow> bool" where
  "alloc_start s \<longleftrightarrow> mem s = None \<and> ids s = []"

section \<open>The codec\<close>

lemma max_epoch_nat: "max_epoch = 2 ^ 24 - 1"
  by (simp add: max_epoch_num)

lemma max_counter_nat: "max_counter = 2 ^ 40 - 1"
  by (simp add: max_counter_num)

definition identity_ok :: "GraphIdentitySnapshot \<Rightarrow> bool" where
  "identity_ok s \<longleftrightarrow> database_id s \<noteq> 0 \<and> 0 < allocator_epoch s \<and> allocator_epoch s \<le> max_epoch
     \<and> node_high_water s \<le> max_counter \<and> edge_high_water s \<le> max_counter"

lemma length_uuid_bytes [simp]: "length (uuid_bytes u) = 16"
  by (simp add: uuid_bytes_def)

lemma uuid_from_to_bytes [simp]: "uuid_from_bytes (uuid_bytes u) = u"
proof -
  have "unat u < 2 ^ LENGTH(128)" by (rule unsigned_less)
  then show ?thesis by (simp add: uuid_from_bytes_def uuid_bytes_def)
qed

lemma uuid_bytes_inject: "uuid_bytes u = uuid_bytes v \<longleftrightarrow> u = v"
  by (metis uuid_from_to_bytes)

lemma length_identity_payload [simp]: "length (identity_payload s) = 60"
  by (simp add: identity_payload_def GRAPH_IDENTITY_MAGIC_def)

lemma crc_le4: "from_le (to_le 4 (unat (w :: u32))) = unat w"
proof -
  have "unat w < 2 ^ LENGTH(32)" by (rule unsigned_less)
  then show ?thesis by simp
qed

lemma slice_full: "n = length xs \<Longrightarrow> slice 0 n xs = xs"
  by simp

lemma identity_decode_encode:
  assumes "identity_ok s"
  shows "identity_decode crc (identity_encode crc s) = Inr s"
proof -
  have "allocator_epoch s < 256 ^ 4" "node_high_water s < 256 ^ 8" "edge_high_water s < 256 ^ 8"
    using assms by (auto simp: identity_ok_def max_epoch_nat max_counter_nat)
  then have f: "slice 0 8 (identity_payload s) = GRAPH_IDENTITY_MAGIC"
    "from_le (slice 8 10 (identity_payload s)) = GRAPH_IDENTITY_VERSION"
    "from_le (slice 10 12 (identity_payload s)) = GRAPH_IDENTITY_BYTES"
    "slice 12 16 (identity_payload s) = replicate 4 0" "slice 36 40 (identity_payload s) = replicate 4 0"
    "slice 56 60 (identity_payload s) = replicate 4 0"
    "slice 16 32 (identity_payload s) = uuid_bytes (database_id s)"
    "from_le (slice 32 36 (identity_payload s)) = allocator_epoch s"
    "from_le (slice 40 48 (identity_payload s)) = node_high_water s"
    "from_le (slice 48 56 (identity_payload s)) = edge_high_water s"
    by (simp_all add: identity_payload_def GRAPH_IDENTITY_MAGIC_def GRAPH_IDENTITY_VERSION_def
        GRAPH_IDENTITY_BYTES_def slice_append_right slice_append_left del: to_le.simps replicate.simps append_Cons)
  show ?thesis
    unfolding identity_decode_def identity_encode_def
    using assms by (simp add: slice_append_left slice_append_right f GRAPH_IDENTITY_BYTES_def crc_le4 Let_def
       identity_ok_def not_less slice_full del: slice_0)
qed

lemma identity_decode_ok: "identity_decode crc bs = Inr s \<Longrightarrow> identity_ok s"
  by (auto simp: identity_decode_def identity_ok_def Let_def not_less split: if_splits)

interpretation identity_codec: codec "identity_encode crc" "identity_decode crc" identity_ok for crc
  by unfold_locales (rule identity_decode_encode)

section \<open>No identifier is issued twice\<close>

definition id_below :: "GraphIdentitySnapshot \<Rightarrow> uuid \<times> CounterKind \<times> u64 \<Rightarrow> bool" where
  "id_below s i =
     (case i of (u, k, n) \<Rightarrow> u = database_id s \<longrightarrow>
        unat (nid_epoch n) < allocator_epoch s
        \<or> unat (nid_epoch n) = allocator_epoch s \<and> unat (nid_counter n) \<le> kind_water k s)"

definition id_epoch_below :: "GraphIdentitySnapshot \<Rightarrow> uuid \<times> CounterKind \<times> u64 \<Rightarrow> bool" where
  "id_epoch_below s i = (case i of (u, k, n) \<Rightarrow> u = database_id s \<longrightarrow> unat (nid_epoch n) \<le> allocator_epoch s)"

definition disk_inv :: "(byte list \<Rightarrow> u32) \<Rightarrow> FileEntry \<Rightarrow> (uuid \<times> CounterKind \<times> u64) list \<Rightarrow> bool" where
  "disk_inv crc f is \<longleftrightarrow>
     (\<forall>len bs s. f = Regular len (Some bs) \<longrightarrow> identity_decode crc bs = Inr s \<longrightarrow> list_all (id_epoch_below s) is)"

text \<open>The persisted snapshot is ahead of the allocator: a later epoch, or the same with its leases.\<close>

definition snap_covers :: "GraphIdentitySnapshot \<Rightarrow> AllocatorState \<Rightarrow> bool" where
  "snap_covers s st \<longleftrightarrow> identity_ok s \<and> database_id s = database_id (issued st)
     \<and> (allocator_epoch (issued st) < allocator_epoch s
        \<or> allocator_epoch (issued st) = allocator_epoch s
          \<and> node_reserved st \<le> node_high_water s \<and> edge_reserved st \<le> edge_high_water s)"

definition alloc_ok :: "AllocatorState \<Rightarrow> bool" where
  "alloc_ok st \<longleftrightarrow> identity_ok (issued st)
     \<and> (\<forall>k. kind_water k (issued st) \<le> kind_reserved k st \<and> kind_reserved k st \<le> max_counter)"

definition run_inv ::
  "(byte list \<Rightarrow> u32) \<Rightarrow> FileEntry \<Rightarrow> (uuid \<times> CounterKind \<times> u64) list \<Rightarrow> AllocatorState \<Rightarrow> bool" where
  "run_inv crc f is st \<longleftrightarrow> alloc_ok st \<and> list_all (id_below (issued st)) is
     \<and> (\<exists>len s. f = Regular len (Some (identity_encode crc s)) \<and> snap_covers s st)"

definition alloc_inv :: "(byte list \<Rightarrow> u32) \<Rightarrow> alloc_sys \<Rightarrow> bool" where
  "alloc_inv crc s \<longleftrightarrow> distinct (ids s) \<and> disk_inv crc (disk s) (ids s)
     \<and> (\<forall>st. mem s = Some st \<longrightarrow> run_inv crc (disk s) (ids s) st)"

lemma run_inv_disk_inv: "run_inv crc f is st \<Longrightarrow> disk_inv crc f is"
  by (fastforce simp: run_inv_def disk_inv_def snap_covers_def identity_codec.dec_enc_iff list_all_iff
      id_below_def id_epoch_below_def)

lemma lease_high_water_bounds:
  assumes "n \<le> max_counter"
  shows "n \<le> lease_high_water n \<and> lease_high_water n \<le> max_counter"
proof -
  have "(n + 4096 - 1) div 4096 * 4096 + (n + 4096 - 1) mod 4096 = n + 4096 - 1" by (rule div_mult_mod_eq)
  moreover have "(n + 4096 - 1) mod 4096 < 4096" by simp
  ultimately have "n \<le> (n + 4096 - 1) div 4096 * 4096" by linarith
  moreover have "(n + 4096 - 1) div 4096 * 4096 < u64_limit"
    using assms by (simp add: max_counter_nat)
  ultimately show ?thesis
    using assms by (simp add: lease_high_water_def saturating_mul_def MAX_GRAPH_EDGES_PER_BATCH_def)
qed

lemma identity_ok_set_water: "identity_ok s \<Longrightarrow> n \<le> max_counter \<Longrightarrow> identity_ok (set_kind_water k n s)"
  by (cases k) (auto simp: identity_ok_def set_kind_water_def)

lemma set_kind_water_simps [simp]:
  "database_id (set_kind_water k n s) = database_id s"
  "allocator_epoch (set_kind_water k n s) = allocator_epoch s"
  "kind_water j (set_kind_water k n s) = (if j = k then n else kind_water j s)"
  by (cases k; cases j; simp add: set_kind_water_def kind_water_def)+

lemma durable_snapshot_simps [simp]:
  "database_id (durable_snapshot st) = database_id (issued st)"
  "allocator_epoch (durable_snapshot st) = allocator_epoch (issued st)"
  "kind_water k (durable_snapshot st) = kind_reserved k st"
  by (cases k; simp add: durable_snapshot_def kind_water_def kind_reserved_def)+

lemma kind_all: "(\<forall>k. P k) \<longleftrightarrow> P Node \<and> P Edge"
  by (metis CounterKind.exhaust)

lemma identity_ok_kinds:
  "identity_ok s \<longleftrightarrow> database_id s \<noteq> 0 \<and> 0 < allocator_epoch s \<and> allocator_epoch s \<le> max_epoch
     \<and> (\<forall>k. kind_water k s \<le> max_counter)"
  by (auto simp: identity_ok_def kind_all kind_water_def)

lemma snap_covers_kinds:
  "snap_covers s st \<longleftrightarrow> identity_ok s \<and> database_id s = database_id (issued st)
     \<and> (allocator_epoch (issued st) < allocator_epoch s
        \<or> allocator_epoch (issued st) = allocator_epoch s \<and> (\<forall>k. kind_reserved k st \<le> kind_water k s))"
  by (auto simp: snap_covers_def kind_all kind_water_def kind_reserved_def)

lemma snap_covers_durable: "alloc_ok st \<Longrightarrow> snap_covers (durable_snapshot st) st"
  by (simp add: alloc_ok_def snap_covers_kinds identity_ok_kinds)

lemma run_inv_root_swap:
  assumes "run_inv crc f is st" and "preserve_for_root_swap crc env st staged = (f', Inr ())"
  shows "run_inv crc f' is st"
  using assms snap_covers_durable
  by (auto simp: run_inv_def preserve_for_root_swap_def write_state_def Let_def split: write_outcome.splits)

definition ids_before :: "GraphIdentitySnapshot \<Rightarrow> (uuid \<times> CounterKind \<times> u64) list \<Rightarrow> bool" where
  "ids_before s is \<longleftrightarrow> (\<forall>(u, k, n) \<in> set is. u = database_id s \<longrightarrow> unat (nid_epoch n) < allocator_epoch s)"

lemma write_state_cases:
  assumes "write_state crc env s f = (f', w)"
  shows "(f' = f \<and> w = Inl Io) \<or> (\<exists>len. f' = Regular len (Some (identity_encode crc s)))"
    and "w = Inr u \<Longrightarrow> \<exists>len. f' = Regular len (Some (identity_encode crc s))"
  using assms by (auto simp: write_state_def Let_def split: write_outcome.splits)

lemma successor_epoch_Inr:
  assumes "successor_epoch s = Inr s'" and "identity_ok s"
  shows "identity_ok s' \<and> database_id s' = database_id s \<and> allocator_epoch s' = Suc (allocator_epoch s)
    \<and> (\<forall>k. kind_water k s' = 0)"
  using assms by (auto simp: successor_epoch_def identity_ok_def kind_water_def split: if_splits CounterKind.splits)

lemma new_epoch_run_inv:
  assumes "identity_ok s" and "\<forall>k. kind_water k s = 0" and "ids_before s is"
  shows "run_inv crc (Regular len (Some (identity_encode crc s))) is (allocator_new s)"
  using assms
  by (auto simp: run_inv_def alloc_ok_def allocator_new_def snap_covers_def ids_before_def id_below_def
      list_all_iff kind_all kind_water_def kind_reserved_def)

lemma identity_open_cases:
  assumes "identity_open crc env f = (f', res)" and "disk_inv crc f is"
    and "io_uuid env \<noteq> 0" and "io_uuid env \<notin> fst ` set is"
  obtains "f' = f" and "isl res"
  | s len where "f' = Regular len (Some (identity_encode crc s))" and "identity_ok s"
    and "\<forall>k. kind_water k s = 0" and "ids_before s is" and "\<And>st. res = Inr st \<Longrightarrow> st = allocator_new s"
proof -
  define cand where "cand = (case f of
              Regular len content \<Rightarrow>
                if len > MAX_ENCODED_IDENTITY_BYTES
                then Inl (SegmentCorruption Encoded_identity_too_long)
                else bindE (read_persistent content)
                       (\<lambda>bs. bindE (identity_decode crc bs) successor_epoch)
            | Irregular _ \<Rightarrow> Inl (SegmentCorruption Not_a_regular_file)
            | Stat_error \<Rightarrow> Inl Io
            | Absent \<Rightarrow> Inr (identity_fresh (io_uuid env)))"
  show thesis
  proof (cases cand)
    case (Inl e)
    with assms(1) show thesis by (intro that(1)) (auto simp: identity_open_def cand_def)
  next
    case (Inr s)
    have s: "identity_ok s \<and> (\<forall>k. kind_water k s = 0) \<and> ids_before s is"
    proof (cases f)
      case Absent
      with Inr assms(3,4) show ?thesis
        by (force simp: cand_def identity_fresh_def identity_ok_def kind_water_def ids_before_def max_epoch_nat
            split: CounterKind.splits)
    next
      case (Regular len content)
      with Inr obtain bs s0 where "content = Some bs" and d: "identity_decode crc bs = Inr s0"
        and n: "successor_epoch s0 = Inr s"
        by (auto simp: cand_def res_simps read_persistent_def)
      with assms(2) Regular have "list_all (id_epoch_below s0) is" by (simp add: disk_inv_def)
      then show ?thesis
        using successor_epoch_Inr [OF n identity_decode_ok [OF d]]
        by (auto simp: ids_before_def list_all_iff id_epoch_below_def less_Suc_eq_le)
    qed (use Inr in \<open>auto simp: cand_def\<close>)
    obtain f'' w where w: "write_state crc env s f = (f'', w)" by force
    with Inr assms(1) have r: "f' = f''" "res = bindE w (\<lambda>_. bindE (failpoint_check env) (\<lambda>_. Inr (allocator_new s)))"
      by (auto simp: identity_open_def cand_def)
    from write_state_cases(1) [OF w] show thesis
    proof
      assume "f'' = f \<and> w = Inl Io"
      with r show thesis by (intro that(1)) auto
    next
      assume "\<exists>len. f'' = Regular len (Some (identity_encode crc s))"
      with r s show thesis by (auto simp: res_simps intro: that(2))
    qed
  qed
qed

lemma open_run_inv:
  assumes "identity_open crc env f = (f', Inr st)" and "disk_inv crc f is"
    and "io_uuid env \<noteq> 0" and "io_uuid env \<notin> fst ` set is"
  shows "run_inv crc f' is st"
  using assms by (rule identity_open_cases) (auto simp: new_epoch_run_inv)

lemma open_disk_inv:
  assumes "identity_open crc env f = (f', res)" and "disk_inv crc f is"
    and "io_uuid env \<noteq> 0" and "io_uuid env \<notin> fst ` set is"
  shows "disk_inv crc f' is"
  using assms(1-4)
proof (rule identity_open_cases)
  fix s len
  assume "f' = Regular len (Some (identity_encode crc s))" "identity_ok s" "\<forall>k. kind_water k s = 0" "ids_before s is"
  then show ?thesis using new_epoch_run_inv run_inv_disk_inv by blast
qed (use assms(2) in simp)

lemma reserve_run_inv:
  assumes "run_inv crc f is st" and "reserve_new_epoch crc env (f, st) = ((f', st'), res)"
  shows "run_inv crc f' is st'"
proof (cases "successor_epoch (issued st)")
  case (Inl e)
  with assms show ?thesis by (auto simp: reserve_new_epoch_def)
next
  case (Inr s)
  have ok: "identity_ok s" "\<forall>k. kind_water k s = 0" "database_id s = database_id (issued st)"
    "allocator_epoch s = Suc (allocator_epoch (issued st))"
    using successor_epoch_Inr [OF Inr] assms(1) by (auto simp: run_inv_def alloc_ok_def)
  obtain f'' w where w: "write_state crc env s f = (f'', w)" by force
  have same: "run_inv crc (Regular len (Some (identity_encode crc s))) is st" for len
    using assms(1) ok by (auto simp: run_inv_def snap_covers_def)
  have "ids_before s is"
    using assms(1) ok by (fastforce simp: run_inv_def ids_before_def list_all_iff id_below_def)
  then have new: "run_inv crc (Regular len (Some (identity_encode crc s))) is (allocator_new s)" for len
    using new_epoch_run_inv ok by blast
  from assms(2) Inr w have r: "f' = f''" "st' = st \<or> (w = Inr () \<and> st' = allocator_new s)"
    by (auto simp: reserve_new_epoch_def res_simps split: sum.splits)
  show ?thesis using write_state_cases [OF w] r same new assms(1) by auto
qed

lemma extend_lease_run_inv:
  assumes "run_inv crc f is st" and "next \<le> max_counter"
    and "extend_lease crc env k next (f, st) = ((f', st'), w)"
  shows "run_inv crc f' is st' \<and> issued st' = issued st \<and> (w = Inr () \<longrightarrow> next \<le> kind_reserved k st')"
proof (cases "next > kind_reserved k st")
  case False
  with assms show ?thesis by (simp add: extend_lease_def)
next
  case True
  let ?d = "set_kind_water k (lease_high_water next) (durable_snapshot st)"
  let ?st = "st\<lparr>node_reserved := node_high_water ?d, edge_reserved := edge_high_water ?d\<rparr>"
  have lease: "next \<le> lease_high_water next" "lease_high_water next \<le> max_counter"
    using lease_high_water_bounds [OF assms(2)] by auto
  have ok: "alloc_ok st" using assms(1) by (simp add: run_inv_def)
  have res: "kind_reserved j ?st = (if j = k then lease_high_water next else kind_reserved j st)" for j
    by (cases j; cases k; simp add: kind_reserved_def set_kind_water_def durable_snapshot_def)
  have dok: "identity_ok ?d" using ok lease by (simp add: alloc_ok_def identity_ok_kinds)
  have old: "run_inv crc (Regular len (Some (identity_encode crc ?d))) is st" for len
    using assms(1) dok ok True lease by (auto simp: run_inv_def snap_covers_kinds intro: less_imp_le order_trans)
  have "alloc_ok ?st" using ok lease True unfolding alloc_ok_def res
    by (auto intro: less_imp_le order_trans)
  then have new: "run_inv crc (Regular len (Some (identity_encode crc ?d))) is ?st" for len
    using assms(1) dok by (auto simp: run_inv_def snap_covers_kinds res)
  obtain f'' u where w: "write_state crc env ?d f = (f'', u)" by force
  from assms(3) True w have "f' = f'' \<and> ((st' = st \<and> isl w) \<or> (u = Inr () \<and> st' = ?st))"
    by (auto simp: extend_lease_def Let_def split: sum.splits)
  then show ?thesis
    using write_state_cases [OF w] old new assms(1) lease(1) res [of k] by auto
qed

definition pack :: "nat \<Rightarrow> nat \<Rightarrow> u64" where
  "pack e c = the (nid_from_parts (word_of_nat e) (word_of_nat c))"

lemma pack_parts:
  assumes "0 < e" and "e \<le> max_epoch" and "0 < c" and "c \<le> max_counter"
  shows "nid_from_parts (word_of_nat e) (word_of_nat c) = Some (pack e c)"
    and "unat (nid_epoch (pack e c)) = e" and "unat (nid_counter (pack e c)) = c"
proof -
  have e: "unat (word_of_nat e :: u32) = e" and c: "unat (word_of_nat c :: u64) = c"
    using assms by (auto simp: unat_of_nat max_epoch_nat max_counter_nat)
  have "nid_from_parts (word_of_nat e) (word_of_nat c) \<noteq> None"
    using assms e c
    by (auto simp: nid_from_parts_def word_unat_eq_iff word_less_nat_alt)
  then show s: "nid_from_parts (word_of_nat e) (word_of_nat c) = Some (pack e c)"
    by (auto simp: pack_def)
  show "unat (nid_epoch (pack e c)) = e" "unat (nid_counter (pack e c)) = c"
    using nid_from_parts_epoch_counter [OF s] e c by auto
qed

lemma range_ids:
  assumes "0 < r_epoch r" and "r_epoch r \<le> max_epoch" and "0 < first_counter r" and "last_counter r \<le> max_counter"
  shows "range_nids r = Inr (map (pack (r_epoch r)) [first_counter r..<Suc (last_counter r)])"
    and "range_edge_ids r = Inr (map (pack (r_epoch r)) [first_counter r..<Suc (last_counter r)])"
proof -
  have "expect () (nid_from_parts (word_of_nat (r_epoch r)) (word_of_nat c)) = Inr (pack (r_epoch r) c)"
    if "c \<in> set [first_counter r..<Suc (last_counter r)]" for c
  proof -
    have "0 < c" "c \<le> max_counter" using that assms by auto
    then show ?thesis using pack_parts(1) [OF assms(1,2)] by (simp add: expect_def)
  qed
  then show "range_nids r = Inr (map (pack (r_epoch r)) [first_counter r..<Suc (last_counter r)])"
    "range_edge_ids r = Inr (map (pack (r_epoch r)) [first_counter r..<Suc (last_counter r)])"
    unfolding range_nids_def range_edge_ids_def edge_is_nid by (intro mapE_all_Inr; blast)+
qed

lemma allocate_range_Inr:
  assumes "run_inv crc f is st" and "allocate_range crc env n k (f, st) = ((f', st'), Inr r)"
  shows "r = \<lparr>r_epoch = allocator_epoch (issued st), first_counter = kind_water k (issued st) + 1,
      last_counter = kind_water k (issued st) + n\<rparr>"
    and "kind_water k (issued st) + n \<le> max_counter"
    and "issued st' = set_kind_water k (kind_water k (issued st) + n) (issued st)"
    and "\<exists>st0. st' = st0\<lparr>issued := issued st'\<rparr> \<and> run_inv crc f' is st0 \<and> issued st0 = issued st
       \<and> kind_water k (issued st) + n \<le> kind_reserved k st0"
proof -
  let ?n = "kind_water k (issued st) + n"
  from assms(2) obtain st0 where n: "?n \<le> max_counter"
    and e: "extend_lease crc env k ?n (f, st) = ((f', st0), Inr ())"
    and st': "st' = st0\<lparr>issued := set_kind_water k ?n (issued st0)\<rparr>"
    and r: "r = \<lparr>r_epoch = allocator_epoch (issued st0), first_counter = kind_water k (issued st) + 1, last_counter = ?n\<rparr>"
    by (auto simp: allocate_range_def Let_def checked_add_def split: if_splits sum.splits prod.splits option.splits)
  note x = extend_lease_run_inv [OF assms(1) n e]
  show "r = \<lparr>r_epoch = allocator_epoch (issued st), first_counter = kind_water k (issued st) + 1, last_counter = ?n\<rparr>"
    using r x by simp
  show "?n \<le> max_counter" by (rule n)
  show "issued st' = set_kind_water k ?n (issued st)" using st' x by simp
  show "\<exists>st0. st' = st0\<lparr>issued := issued st'\<rparr> \<and> run_inv crc f' is st0 \<and> issued st0 = issued st \<and> ?n \<le> kind_reserved k st0"
    using st' x by auto
qed

lemma allocate_range_Inl:
  assumes "run_inv crc f is st" and "allocate_range crc env n k (f, st) = ((f', st'), Inl e)"
  shows "run_inv crc f' is st' \<and> issued st' = issued st"
proof -
  let ?n = "kind_water k (issued st) + n"
  from assms(2) consider "f' = f" "st' = st"
    | w where "?n \<le> max_counter" "extend_lease crc env k ?n (f, st) = ((f', st'), w)"
    by (auto simp: allocate_range_def Let_def checked_add_def split: if_splits sum.splits prod.splits option.splits)
  then show ?thesis using assms(1) extend_lease_run_inv by cases blast+
qed

lemma allocate_keeps:
  assumes inv: "run_inv crc f is st" "distinct is"
    and alloc: "allocate_range crc env n k (f, st) = ((f', st'), res)"
  defines "new \<equiv> issued_ids (database_id (issued st)) k res"
  shows "run_inv crc f' (is @ new) st' \<and> distinct (is @ new)"
proof (cases res)
  case (Inl e)
  with allocate_range_Inl [OF inv(1)] alloc inv(2) show ?thesis by (simp add: new_def issued_ids_def)
next
  case (Inr r)
  let ?s = "issued st" and ?w = "kind_water k (issued st)"
  note a = allocate_range_Inr [OF inv(1) alloc [unfolded Inr]]
  have ok: "0 < allocator_epoch ?s" "allocator_epoch ?s \<le> max_epoch"
    using inv(1) by (auto simp: run_inv_def alloc_ok_def identity_ok_def)
  have new: "new = map (\<lambda>c. (database_id ?s, k, pack (allocator_epoch ?s) c)) [?w + 1..<Suc (?w + n)]"
    unfolding new_def issued_ids_def Inr using range_ids [of r] ok a(1,2) by (cases k) (simp_all add: a(1))
  have parts: "unat (nid_epoch (pack (allocator_epoch ?s) c)) = allocator_epoch ?s"
    "unat (nid_counter (pack (allocator_epoch ?s) c)) = c" if "?w < c" "c \<le> ?w + n" for c
    using pack_parts(2,3) [OF ok] that a(2) by auto
  have "inj_on (\<lambda>c. (database_id ?s, k, pack (allocator_epoch ?s) c)) (set [?w + 1..<Suc (?w + n)])"
    by (rule inj_on_inverseI [where g = "\<lambda>(_, _, i). unat (nid_counter i)"]) (use parts in auto)
  then have "distinct new" unfolding new by (simp add: distinct_map del: upt_Suc)
  moreover have "set is \<inter> set new = {}"
  proof -
    have "\<not> id_below ?s i" if "i \<in> set new" for i
      using that parts by (auto simp: new id_below_def)
    then show ?thesis using inv(1) by (auto simp: run_inv_def list_all_iff)
  qed
  moreover from a(4) obtain st0 where st0: "st' = st0\<lparr>issued := issued st'\<rparr>" "run_inv crc f' is st0"
    "issued st0 = ?s" "?w + n \<le> kind_reserved k st0" by blast
  have res0: "kind_reserved j st' = kind_reserved j st0" for j
    by (subst st0(1)) (cases j; simp add: kind_reserved_def)
  have "run_inv crc f' (is @ new) st'"
  proof -
    have "list_all (id_below (issued st')) new"
      using parts by (auto simp: new list_all_iff a(3) id_below_def)
    moreover have "list_all (id_below (issued st')) is"
      using inv(1) by (fastforce simp: run_inv_def list_all_iff a(3) id_below_def split: if_splits)
    moreover have "alloc_ok st'"
      using st0(2-4) a(2) by (auto simp: run_inv_def alloc_ok_def res0 a(3) identity_ok_set_water)
    moreover have "snap_covers s st0 \<Longrightarrow> snap_covers s st'" for s
      using st0(3) by (simp add: snap_covers_kinds res0 a(3))
    ultimately show ?thesis using st0(2) by (auto simp: run_inv_def)
  qed
  ultimately show ?thesis using inv(2) by simp
qed

lemma alloc_step_inv:
  assumes "alloc_inv crc s" and "alloc_step crc s t"
  shows "alloc_inv crc t"
  using assms(2)
proof cases
  case (Open env f st)
  have "disk_inv crc (disk s) (ids s)" using assms(1) by (simp add: alloc_inv_def)
  with Open have "run_inv crc f (ids s) st" using open_run_inv by blast
  with Open assms(1) show ?thesis by (auto simp: alloc_inv_def dest: run_inv_disk_inv)
next
  case (Open_failed env f e)
  have "disk_inv crc (disk s) (ids s)" using assms(1) by (simp add: alloc_inv_def)
  with Open_failed have "disk_inv crc f (ids s)" using open_disk_inv by blast
  with Open_failed assms(1) show ?thesis by (auto simp: alloc_inv_def)
next
  case (Allocate st n env k f st' res)
  have "run_inv crc (disk s) (ids s) st" "distinct (ids s)"
    using assms(1) Allocate(2) by (simp_all add: alloc_inv_def)
  then have "run_inv crc f (ids t) st' \<and> distinct (ids t)"
    using allocate_keeps Allocate(4) unfolding Allocate(1) by simp
  moreover then have "disk_inv crc f (ids t)" using run_inv_disk_inv by blast
  ultimately show ?thesis unfolding alloc_inv_def by (simp add: Allocate(1))
next
  case (Reserve_epoch st env f st' res)
  have "run_inv crc (disk s) (ids s) st" using assms(1) Reserve_epoch(2) by (simp add: alloc_inv_def)
  then have "run_inv crc f (ids s) st'" using reserve_run_inv Reserve_epoch(3) by blast
  with Reserve_epoch assms(1) show ?thesis by (auto simp: alloc_inv_def dest: run_inv_disk_inv)
next
  case (Root_swap st env staged f)
  have "run_inv crc (disk s) (ids s) st" using assms(1) Root_swap(2) by (simp add: alloc_inv_def)
  then have "run_inv crc f (ids s) st" using run_inv_root_swap Root_swap(3) by blast
  with Root_swap assms(1) show ?thesis by (auto simp: alloc_inv_def dest: run_inv_disk_inv)
next
  case Crash
  with assms(1) show ?thesis by (auto simp: alloc_inv_def)
next
  case Remove
  with assms(1) show ?thesis by (auto simp: alloc_inv_def disk_inv_def)
qed

interpretation allocator: invariant_system alloc_start "alloc_step crc" "alloc_inv crc" for crc
  by unfold_locales (simp add: alloc_start_def alloc_inv_def disk_inv_def, rule alloc_step_inv)

section \<open>Results\<close>

text \<open>
  C1. No node or edge identifier is ever issued twice by an installation: in any order of opening,
  allocating, reserving epochs and swapping the root, with writes that fail before or after they
  took effect, injected failures and crashes at any point, the identifiers handed out under one
  database UUID are pairwise distinct.
\<close>

theorem ids_never_reused:
  assumes "alloc_start s" and "(alloc_step crc)\<^sup>*\<^sup>* s t"
  shows "distinct (ids t)"
  using allocator.inv_reachable [OF assms] by (simp add: alloc_inv_def)

text \<open>
  C20. While the store is open, the identity file on disk decodes to a snapshot of the same
  database that is ahead of what was handed out: a later epoch, or the same epoch with high waters
  at least the leases in memory, which bound the issued counters.
\<close>

theorem leases_are_durable:
  assumes "alloc_start s" and "(alloc_step crc)\<^sup>*\<^sup>* s t" and "mem t = Some st"
  shows "\<exists>len bs snap. disk t = Regular len (Some bs) \<and> identity_decode crc bs = Inr snap
    \<and> database_id snap = database_id (issued st)
    \<and> (allocator_epoch (issued st) < allocator_epoch snap
       \<or> allocator_epoch (issued st) = allocator_epoch snap
         \<and> (\<forall>k. kind_water k (issued st) \<le> kind_reserved k st \<and> kind_reserved k st \<le> kind_water k snap))"
proof -
  have "run_inv crc (disk t) (ids t) st"
    using allocator.inv_reachable [OF assms(1,2)] assms(3) by (simp add: alloc_inv_def)
  then obtain len snap where "disk t = Regular len (Some (identity_encode crc snap))" "snap_covers snap st" "alloc_ok st"
    by (auto simp: run_inv_def)
  then show ?thesis
    using identity_decode_encode [of snap crc] by (auto simp: snap_covers_kinds alloc_ok_def)
qed

text \<open>
  C37. One allocation, on every path. A success returns exactly the requested number of consecutive
  identifiers after the last one issued, none of which panics on conversion, and advances the
  cursor to the last of them; a failure of any kind leaves the issued cursors unchanged.
\<close>

theorem allocate_range_behaviour:
  assumes "alloc_start s" and "(alloc_step crc)\<^sup>*\<^sup>* s t" and "mem t = Some st"
    and "0 < n" and "allocate_range crc env n k (disk t, st) = ((f', st'), res)"
  shows "case res of
      Inr r \<Rightarrow> range_len r = n \<and> first_counter r = kind_water k (issued st) + 1
        \<and> r_epoch r = allocator_epoch (issued st) \<and> last_counter r = kind_water k (issued st')
        \<and> (\<exists>ns. range_nids r = Inr ns \<and> range_edge_ids r = Inr ns \<and> length ns = n)
    | Inl e \<Rightarrow> issued st' = issued st"
proof -
  have inv: "run_inv crc (disk t) (ids t) st"
    using allocator.inv_reachable [OF assms(1,2)] assms(3) by (simp add: alloc_inv_def)
  show ?thesis
  proof (cases res)
    case (Inl e)
    then show ?thesis using allocate_range_Inl [OF inv] assms(5) by simp
  next
    case (Inr r)
    note a = allocate_range_Inr [OF inv assms(5) [unfolded Inr]]
    have "0 < allocator_epoch (issued st)" "allocator_epoch (issued st) \<le> max_epoch"
      using inv by (auto simp: run_inv_def alloc_ok_def identity_ok_def)
    then show ?thesis
      using a(2,3) range_ids [of r] assms(4) unfolding Inr by (simp add: a(1) range_len_def)
  qed
qed

text \<open>
  C39. The identity file's codec: every in-range snapshot is read back from its 64 bytes.
\<close>

theorem identity_roundtrip:
  assumes "identity_ok s"
  shows "length (identity_encode crc s) = 64 \<and> identity_decode crc (identity_encode crc s) = Inr s"
  by (simp add: identity_decode_encode [OF assms]) (simp add: identity_encode_def)

text \<open>
  C38. Edge tokens: a token decodes to the edge it was made for under the database UUID it was made
  for, and to the one uniform error under every other. What the code needs of the base64 engine is
  that it reads back what it wrote and that 29 bytes take 39 characters.
\<close>

theorem edge_token_roundtrip:
  assumes "\<And>bs. b64dec (b64enc bs) = Some bs" and "\<And>bs. length bs = 29 \<Longrightarrow> length (b64enc bs) = 39"
    and "token_encode crc b64enc u e = Inr tok"
  shows "token_decode crc b64dec v tok = (if v = u then Inr e else Inl invalid_token)"
proof -
  let ?p = "[EDGE_TOKEN_VERSION] @ uuid_bytes u @ to_le 8 (unat e)"
  let ?bs = "?p @ to_le 4 (unat (crc ?p))"
  from assms(3) have u: "u \<noteq> 0" "valid_edge_id e" and tok: "tok = b64enc ?bs"
    by (auto simp: token_encode_def Let_def split: if_splits)
  have f: "slice 0 25 ?bs = ?p" "slice 25 29 ?bs = to_le 4 (unat (crc ?p))" "?bs ! 0 = EDGE_TOKEN_VERSION"
    "slice 1 17 ?bs = uuid_bytes u" "slice 17 25 ?bs = to_le 8 (unat e)"
    by (simp_all add: slice_def)
  have len: "length tok = 39" "length ?bs = 29" using assms(2) by (simp_all add: tok)
  show ?thesis
    unfolding token_decode_def EDGE_TOKEN_ENCODED_BYTES_def EDGE_TOKEN_BYTES_def EDGE_TOKEN_PAYLOAD_BYTES_def
    using u len assms(1) f by (simp add: tok uuid_bytes_inject crc_le4 eq_commute [of u v] del: append_Cons)
qed

definition demo_io :: "nat \<Rightarrow> io" where
  "demo_io u = \<lparr>io_write = Write_ok, io_disk_len = 64, io_failpoint = False, io_uuid = word_of_nat u\<rparr>"

definition demo_crc :: "byte list \<Rightarrow> u32" where "demo_crc bs = 7"

text \<open>A run of the store: open, allocate two node ids, crash, open again, allocate one.\<close>

definition demo_start :: alloc_sys where
  "demo_start = \<lparr>disk = Absent, mem = None, ids = []\<rparr>"

definition demo_snap :: "nat \<Rightarrow> nat \<Rightarrow> GraphIdentitySnapshot" where
  "demo_snap e w = \<lparr>database_id = 1, allocator_epoch = e, node_high_water = w, edge_high_water = 0\<rparr>"

definition demo_state :: "nat \<Rightarrow> nat \<Rightarrow> nat \<Rightarrow> AllocatorState" where
  "demo_state e w r = \<lparr>issued = demo_snap e w, node_reserved = r, edge_reserved = 0\<rparr>"

definition demo_file :: "nat \<Rightarrow> nat \<Rightarrow> FileEntry" where
  "demo_file e w = Regular 64 (Some (identity_encode demo_crc (demo_snap e w)))"

lemma demo_snap_ok: "0 < e \<Longrightarrow> e \<le> 5 \<Longrightarrow> w \<le> 4096 \<Longrightarrow> identity_ok (demo_snap e w)"
  by (simp add: identity_ok_def demo_snap_def max_epoch_nat max_counter_nat)

lemma demo_open_fresh: "identity_open demo_crc (demo_io 1) Absent = (demo_file 1 0, Inr (demo_state 1 0 0))"
  by (simp add: identity_open_def write_state_def demo_io_def identity_fresh_def demo_file_def demo_snap_def
      demo_state_def failpoint_check_def allocator_new_def Let_def)

lemma demo_open_again:
  "identity_open demo_crc (demo_io 2) (demo_file 1 4096) = (demo_file 2 0, Inr (demo_state 2 0 0))"
  by (simp add: identity_open_def write_state_def demo_io_def demo_file_def MAX_ENCODED_IDENTITY_BYTES_def
      read_persistent_def identity_decode_encode [OF demo_snap_ok] successor_epoch_def max_epoch_nat)
    (simp add: demo_snap_def demo_state_def failpoint_check_def allocator_new_def numeral_2_eq_2)

lemma demo_allocate:
  "allocate_range demo_crc (demo_io 3) 2 Node (demo_file e 0, demo_state e 0 0) =
     ((demo_file e 4096, demo_state e 2 4096), Inr \<lparr>r_epoch = e, first_counter = 1, last_counter = 2\<rparr>)"
  by (simp add: allocate_range_def extend_lease_def kind_water_def kind_reserved_def set_kind_water_def
      demo_state_def demo_snap_def checked_add_def Let_def max_counter_nat lease_high_water_def saturating_mul_def
      MAX_GRAPH_EDGES_PER_BATCH_def write_state_def demo_io_def failpoint_check_def durable_snapshot_def demo_file_def)

lemma demo_run:
  "\<exists>t. (alloc_step demo_crc)\<^sup>*\<^sup>* demo_start t \<and> length (ids t) = 2 \<and> disk t = demo_file 2 0
     \<and> mem t = Some (demo_state 2 0 0)"
proof -
  let ?r = "\<lparr>r_epoch = 1, first_counter = 1, last_counter = 2\<rparr>"
  let ?ids = "issued_ids 1 Node (Inr ?r :: (identity_msg, AllocatedGraphIdRange) result)"
  let ?s1 = "\<lparr>disk = demo_file 1 0, mem = Some (demo_state 1 0 0), ids = []\<rparr>"
  let ?s2 = "\<lparr>disk = demo_file 1 4096, mem = Some (demo_state 1 2 4096), ids = ?ids\<rparr>"
  let ?s3 = "\<lparr>disk = demo_file 1 4096, mem = None, ids = ?ids\<rparr>"
  let ?s4 = "\<lparr>disk = demo_file 2 0, mem = Some (demo_state 2 0 0), ids = ?ids\<rparr>"
  have len: "length ?ids = 2"
    using range_ids [of ?r] by (simp add: issued_ids_def max_epoch_nat max_counter_nat)
  have "alloc_step demo_crc demo_start ?s1"
    using alloc_step.Open [of demo_start "demo_io 1" demo_crc] demo_open_fresh
    by (simp add: demo_start_def demo_io_def)
  moreover have "alloc_step demo_crc ?s1 ?s2"
    using alloc_step.Allocate [of ?s1 "demo_state 1 0 0" 2 demo_crc "demo_io 3" Node] demo_allocate [of 1]
    by (simp add: demo_state_def demo_snap_def)
  moreover have "alloc_step demo_crc ?s2 ?s3"
    using alloc_step.Crash [of demo_crc ?s2] by simp
  moreover have "alloc_step demo_crc ?s3 ?s4"
  proof -
    have "fst ` set ?ids \<subseteq> {1}" by (auto simp: issued_ids_def split: sum.splits)
    then have "io_uuid (demo_io 2) \<notin> fst ` set (ids ?s3)" by (auto simp: demo_io_def)
    then show ?thesis
      using alloc_step.Open [of ?s3 "demo_io 2" demo_crc] demo_open_again by (simp add: demo_io_def)
  qed
  ultimately have "(alloc_step demo_crc)\<^sup>*\<^sup>* demo_start ?s4"
    by (meson rtranclp.rtrancl_into_rtrancl rtranclp.rtrancl_refl)
  with len show ?thesis by (intro exI [of _ ?s4]) simp
qed

lemma demo_start_ok: "alloc_start demo_start"
  by (simp add: alloc_start_def demo_start_def)

theorem ids_never_reused_witness:
  "\<exists>t. (alloc_step demo_crc)\<^sup>*\<^sup>* demo_start t \<and> length (ids t) = 2 \<and> distinct (ids t)"
  using demo_run ids_never_reused [OF demo_start_ok] by blast

theorem leases_are_durable_witness:
  "\<exists>t st len bs snap. (alloc_step demo_crc)\<^sup>*\<^sup>* demo_start t \<and> mem t = Some st
     \<and> disk t = Regular len (Some bs) \<and> identity_decode demo_crc bs = Inr snap"
  using demo_run leases_are_durable [OF demo_start_ok] by blast

theorem allocate_range_behaviour_witness:
  "\<exists>f st. allocate_range demo_crc (demo_io 3) 2 Node (demo_file 2 0, demo_state 2 0 0) =
     ((f, st), Inr \<lparr>r_epoch = 2, first_counter = 1, last_counter = 2\<rparr>)
     \<and> (\<exists>ns. range_nids \<lparr>r_epoch = 2, first_counter = 1, last_counter = 2\<rparr> = Inr ns \<and> length ns = 2)"
proof -
  obtain t where t: "(alloc_step demo_crc)\<^sup>*\<^sup>* demo_start t" "disk t = demo_file 2 0" "mem t = Some (demo_state 2 0 0)"
    using demo_run by blast
  show ?thesis
    using allocate_range_behaviour [OF demo_start_ok t(1,3), of 2 "demo_io 3" Node] demo_allocate [of 2] t(2)
    by force
qed

theorem identity_roundtrip_witness:
  "identity_ok (demo_snap 1 3) \<and> identity_decode demo_crc (identity_encode demo_crc (demo_snap 1 3)) = Inr (demo_snap 1 3)"
  using identity_roundtrip [OF demo_snap_ok, of 1 3 demo_crc] demo_snap_ok by simp

theorem edge_token_roundtrip_witness:
  "\<exists>tok. token_encode demo_crc (\<lambda>bs. map (\<lambda>b. char_of (unat b)) bs @ replicate 10 CHR ''-'') 5 0x10000000001 = Inr tok
    \<and> token_decode demo_crc (\<lambda>s. Some (map (\<lambda>c. word_of_nat (of_char c)) (take (length s - 10) s))) 5 tok = Inr 0x10000000001
    \<and> token_decode demo_crc (\<lambda>s. Some (map (\<lambda>c. word_of_nat (of_char c)) (take (length s - 10) s))) 6 tok = Inl invalid_token"
proof -
  let ?enc = "\<lambda>bs. map (\<lambda>b :: byte. char_of (unat b)) bs @ replicate 10 CHR ''-''"
  let ?dec = "\<lambda>s. Some (map (\<lambda>c. word_of_nat (of_char c) :: byte) (take (length s - 10) s))"
  have "(word_of_nat (of_char (char_of (unat b))) :: byte) = b" for b
    using unat_byte_lt [of b] by simp
  then have rt: "?dec (?enc bs) = Some bs" for bs by (simp add: comp_def)
  have v: "valid_edge_id 0x10000000001"
    by (simp add: valid_edge_id_def edge_epoch_def edge_counter_def GRAPH_ALLOCATOR_COUNTER_BITS_def max_counter_num)
  obtain tok where tok: "token_encode demo_crc ?enc 5 0x10000000001 = Inr tok"
    using v by (simp add: token_encode_def Let_def)
  have "token_decode demo_crc ?dec w tok = (if w = 5 then Inr 0x10000000001 else Inl invalid_token)" for w
    by (rule edge_token_roundtrip [OF rt _ tok]) simp
  with tok show ?thesis by simp
qed

end
