(* ===== verification/Payload_Types.thy ===== *)
theory Payload_Types
  imports Prelude
begin

text \<open>
  The payload field types of \<open>chirondb-types/src/model.rs\<close>, which the catalog commands carry and the
  schema check reads.
\<close>

datatype PayloadType =
    PString | PNumber | PBool | PObject | PArray
  | POptionalString | POptionalNumber | POptionalBool | POptionalObject | POptionalArray
  | PNullableString | PNullableNumber | PNullableBool | PNullableObject | PNullableArray

definition is_optional :: "PayloadType \<Rightarrow> bool" where
  "is_optional t \<longleftrightarrow> t \<in> {POptionalString, POptionalNumber, POptionalBool, POptionalObject, POptionalArray}"

definition is_nullable :: "PayloadType \<Rightarrow> bool" where
  "is_nullable t \<longleftrightarrow> t \<in> {POptionalString, POptionalNumber, POptionalBool, POptionalObject, POptionalArray,
     PNullableString, PNullableNumber, PNullableBool, PNullableObject, PNullableArray}"

fun base_type :: "PayloadType \<Rightarrow> PayloadType" where
  "base_type POptionalString = PString"
| "base_type PNullableString = PString"
| "base_type POptionalNumber = PNumber"
| "base_type PNullableNumber = PNumber"
| "base_type POptionalBool = PBool"
| "base_type PNullableBool = PBool"
| "base_type POptionalObject = PObject"
| "base_type PNullableObject = PObject"
| "base_type POptionalArray = PArray"
| "base_type PNullableArray = PArray"
| "base_type t = t"

lemma base_type_idem [simp]: "base_type (base_type t) = base_type t"
  by (cases t) simp_all

lemma is_optional_nullable: "is_optional t \<Longrightarrow> is_nullable t"
  by (auto simp: is_optional_def is_nullable_def)

lemma base_type_plain: "\<not> is_nullable (base_type t)"
  by (cases t) (simp_all add: is_nullable_def)

end
