(* ===== verification/Raft.thy ===== *)
theory Raft
  imports Payload_Types "HOL-Library.AList"
begin

text \<open>
  The catalog consensus of \<open>chirondb-server/src/raft.rs\<close>: the node's state, its message handlers,
  elections, heartbeats, commit and application to the catalog, each one a function of the node.

  A remote call is an argument that gives its reply, \<open>None\<close> when the call failed. The two files of
  a node are the fields \<open>disk_state\<close> and \<open>disk_log\<close>; a save does nothing when \<open>storage_ok\<close> is off,
  since the code only logs the error. A hash map is an association list with distinct keys. The
  reply channel of a proposal is a number, and \<open>replies\<close> records what was sent on the channels.
  Terms and indexes are unbounded; timers are not modelled, so an election may start at any time.

  Below the handlers: the log and commit lemmas of one node, and a cluster of such nodes with an
  unreliable network, in which at most one node becomes leader in a term.
\<close>

type_synonym NodeId = nat
type_synonym Term = nat
type_synonym LogIndex = nat

section \<open>Commands and the catalog\<close>

text \<open>The fields of a collection's configuration the catalog reads; \<open>cc_rest\<close> stands for the others.\<close>

record 'r CollectionConfig =
  cc_name :: string
  cc_payload_schema :: "string \<rightharpoonup> PayloadType"
  cc_rest :: 'r

datatype 'r CatalogCommand =
    CreateCollection "'r CollectionConfig"
  | DeleteCollection string
  | UpdatePayloadSchema string "string \<rightharpoonup> PayloadType"
  | Noop

record 'r RaftLogEntry =
  e_term :: Term
  e_index :: LogIndex
  e_command :: "'r CatalogCommand"

record 'r CatalogStateMachine =
  collections :: "string \<rightharpoonup> 'r CollectionConfig"
  last_applied :: LogIndex

definition sm_default :: "'r CatalogStateMachine" where
  "sm_default = \<lparr>collections = Map.empty, last_applied = 0\<rparr>"

definition sm_apply :: "'r CatalogStateMachine \<Rightarrow> 'r RaftLogEntry \<Rightarrow> 'r CatalogStateMachine" where
  "sm_apply sm e =
     (case e_command e of
        CreateCollection c \<Rightarrow> sm\<lparr>collections := (collections sm)(cc_name c \<mapsto> c)\<rparr>
      | DeleteCollection n \<Rightarrow> sm\<lparr>collections := (collections sm)(n := None)\<rparr>
      | UpdatePayloadSchema n s \<Rightarrow>
          (case collections sm n of
             Some c \<Rightarrow> sm\<lparr>collections := (collections sm)(n \<mapsto> c\<lparr>cc_payload_schema := s\<rparr>)\<rparr>
           | None \<Rightarrow> sm)
      | Noop \<Rightarrow> sm)\<lparr>last_applied := e_index e\<rparr>"

section \<open>The node\<close>

datatype RaftRole = Follower "NodeId option" | Candidate | Leader

record 'r RaftNode =
  node_id :: NodeId
  peers :: "NodeId list"
  current_term :: Term
  voted_for :: "NodeId option"
  log :: "'r RaftLogEntry list"
  commit_index :: LogIndex
  role :: RaftRole
  votes_received :: "NodeId set"
  next_index :: "(NodeId \<times> LogIndex) list"
  match_index :: "(NodeId \<times> LogIndex) list"
  pending :: "(LogIndex \<times> nat) list"
  replies :: "(nat \<times> (string + unit)) list"
  disk_state :: "Term \<times> NodeId option"
  disk_log :: "'r RaftLogEntry list"
  storage_ok :: bool

record 'r AppendEntriesReq =
  ae_term :: Term
  ae_leader_id :: NodeId
  ae_prev_log_index :: LogIndex
  ae_prev_log_term :: Term
  ae_entries :: "'r RaftLogEntry list"
  ae_leader_commit :: LogIndex

record AppendEntriesResp =
  ar_term :: Term
  ar_success :: bool
  ar_conflict_index :: LogIndex
  ar_conflict_term :: Term

record RequestVoteReq =
  rv_term :: Term
  rv_candidate_id :: NodeId
  rv_last_log_index :: LogIndex
  rv_last_log_term :: Term

record RequestVoteResp =
  vr_term :: Term
  vr_vote_granted :: bool

text \<open>\<open>RaftNode::new\<close> after a crash or shutdown: only the two files survive.\<close>

definition last_index_of :: "'r RaftLogEntry list \<Rightarrow> LogIndex" where
  "last_index_of l = (if l = [] then 0 else e_index (last l))"

definition raft_restart :: "'r RaftNode \<Rightarrow> 'r RaftNode" where
  "raft_restart n =
     n\<lparr>current_term := fst (disk_state n), voted_for := snd (disk_state n), log := disk_log n,
       commit_index := last_index_of (disk_log n), role := Follower None, votes_received := {},
       next_index := [], match_index := [], pending := []\<rparr>"

definition save_state :: "'r RaftNode \<Rightarrow> 'r RaftNode" where
  "save_state n = (if storage_ok n then n\<lparr>disk_state := (current_term n, voted_for n)\<rparr> else n)"

definition save_log :: "'r RaftNode \<Rightarrow> 'r RaftNode" where
  "save_log n = (if storage_ok n then n\<lparr>disk_log := log n\<rparr> else n)"

definition last_log_index :: "'r RaftNode \<Rightarrow> LogIndex" where
  "last_log_index n = last_index_of (log n)"

definition last_log_term :: "'r RaftNode \<Rightarrow> Term" where
  "last_log_term n = (if log n = [] then 0 else e_term (last (log n)))"

definition term_at :: "'r RaftLogEntry list \<Rightarrow> LogIndex \<Rightarrow> Term" where
  "term_at l i =
     (if i = 0 then 0
      else case find (\<lambda>e. e_index e = i) l of None \<Rightarrow> 0 | Some e \<Rightarrow> e_term e)"

definition log_term_at :: "'r RaftNode \<Rightarrow> LogIndex \<Rightarrow> Term" where
  "log_term_at n i = term_at (log n) i"

definition is_candidate_log_ok :: "'r RaftNode \<Rightarrow> LogIndex \<Rightarrow> Term \<Rightarrow> bool" where
  "is_candidate_log_ok n last_index last_term =
     (if last_term \<noteq> last_log_term n then last_term > last_log_term n
      else last_index \<ge> last_log_index n)"

definition quorum_size :: "'r RaftNode \<Rightarrow> nat" where
  "quorum_size n = (length (peers n) + 1) div 2 + 1"

definition become_follower :: "'r RaftNode \<Rightarrow> Term \<Rightarrow> 'r RaftNode" where
  "become_follower n t =
     save_state (n\<lparr>current_term := t, voted_for := None, role := Follower None, votes_received := {}\<rparr>)"

definition become_leader :: "'r RaftNode \<Rightarrow> 'r RaftNode" where
  "become_leader n =
     (let next = last_log_index n + 1 in
      save_log (n\<lparr>next_index := map (\<lambda>p. (p, next)) (peers n),
                  match_index := map (\<lambda>p. (p, 0)) (peers n), role := Leader,
                  log := log n @ [\<lparr>e_term = current_term n, e_index = next, e_command = Noop\<rparr>]\<rparr>))"

definition acks :: "'r RaftNode \<Rightarrow> LogIndex \<Rightarrow> nat" where
  "acks n i = length (filter (\<lambda>(_, m). m \<ge> i) (match_index n)) + 1"

fun advance_loop :: "'r RaftNode \<Rightarrow> nat \<Rightarrow> 'r RaftNode" where
  "advance_loop n 0 = n"
| "advance_loop n (Suc i) =
     (if Suc i > commit_index n
      then if log_term_at n (Suc i) = current_term n \<and> acks n (Suc i) \<ge> quorum_size n
           then n\<lparr>commit_index := Suc i\<rparr>
           else advance_loop n i
      else n)"

definition try_advance_commit :: "'r RaftNode \<Rightarrow> 'r RaftNode" where
  "try_advance_commit n = advance_loop n (last_log_index n)"

definition notify_committed_proposals :: "'r RaftNode \<Rightarrow> 'r RaftNode" where
  "notify_committed_proposals n =
     (let done = filter (\<lambda>(i, _). i \<le> commit_index n) (pending n) in
      n\<lparr>pending := filter (\<lambda>(i, _). \<not> i \<le> commit_index n) (pending n),
        replies := replies n @ map (\<lambda>(_, p). (p, Inr ())) done\<rparr>)"

section \<open>Message handlers\<close>

definition retain_below :: "LogIndex \<Rightarrow> 'r RaftLogEntry list \<Rightarrow> 'r RaftLogEntry list" where
  "retain_below i l = filter (\<lambda>e. e_index e < i) l"

definition append_entry :: "'r RaftLogEntry list \<Rightarrow> 'r RaftLogEntry \<Rightarrow> 'r RaftLogEntry list" where
  "append_entry l e =
     (let t = term_at l (e_index e);
          l' = (if t \<noteq> 0 \<and> t \<noteq> e_term e then retain_below (e_index e) l else l)
      in if term_at l' (e_index e) = 0 then l' @ [e] else l')"

definition handle_append_entries :: "'r RaftNode \<Rightarrow> 'r AppendEntriesReq \<Rightarrow> 'r RaftNode \<times> AppendEntriesResp" where
  "handle_append_entries n req =
     (if ae_term req < current_term n
      then (n, \<lparr>ar_term = current_term n, ar_success = False, ar_conflict_index = 0, ar_conflict_term = 0\<rparr>)
      else let n1 = (if ae_term req > current_term n then become_follower n (ae_term req)
                     else n\<lparr>role := Follower (Some (ae_leader_id req))\<rparr>);
               our_term = log_term_at n1 (ae_prev_log_index req) in
      if ae_prev_log_index req > 0 \<and> our_term = 0
      then (n1, \<lparr>ar_term = current_term n1, ar_success = False,
                 ar_conflict_index = last_log_index n1 + 1, ar_conflict_term = 0\<rparr>)
      else if ae_prev_log_index req > 0 \<and> our_term \<noteq> ae_prev_log_term req
      then (save_log (n1\<lparr>log := retain_below (ae_prev_log_index req) (log n1)\<rparr>),
            \<lparr>ar_term = current_term n1, ar_success = False,
             ar_conflict_index = (case find (\<lambda>e. e_term e = our_term) (log n1) of
                                    None \<Rightarrow> ae_prev_log_index req | Some e \<Rightarrow> e_index e),
             ar_conflict_term = our_term\<rparr>)
      else let n2 = n1\<lparr>log := foldl append_entry (log n1) (ae_entries req)\<rparr>;
               n3 = (if ae_entries req \<noteq> [] then save_log n2 else n2);
               n4 = (if ae_leader_commit req > commit_index n3
                     then n3\<lparr>commit_index := min (ae_leader_commit req) (last_log_index n3)\<rparr> else n3)
           in (n4, \<lparr>ar_term = current_term n4, ar_success = True, ar_conflict_index = 0,
                    ar_conflict_term = 0\<rparr>))"

definition handle_request_vote :: "'r RaftNode \<Rightarrow> RequestVoteReq \<Rightarrow> 'r RaftNode \<times> RequestVoteResp" where
  "handle_request_vote n req =
     (if rv_term req < current_term n
      then (n, \<lparr>vr_term = current_term n, vr_vote_granted = False\<rparr>)
      else let n1 = (if rv_term req > current_term n then become_follower n (rv_term req) else n);
               other = (case voted_for n1 of None \<Rightarrow> False | Some v \<Rightarrow> v \<noteq> rv_candidate_id req);
               grant = (\<not> other \<and> is_candidate_log_ok n1 (rv_last_log_index req) (rv_last_log_term req));
               n2 = (if grant then save_state (n1\<lparr>voted_for := Some (rv_candidate_id req)\<rparr>) else n1)
           in (n2, \<lparr>vr_term = current_term n2, vr_vote_granted = grant\<rparr>))"

definition handle_propose :: "'r RaftNode \<Rightarrow> 'r CatalogCommand \<Rightarrow> nat \<Rightarrow> 'r RaftNode" where
  "handle_propose n cmd tx =
     (case role n of
        Leader \<Rightarrow>
          (let i = last_log_index n + 1;
               n1 = save_log (n\<lparr>log := log n @ [\<lparr>e_term = current_term n, e_index = i, e_command = cmd\<rparr>]\<rparr>)
           in n1\<lparr>pending := AList.update i tx (pending n1)\<rparr>)
      | _ \<Rightarrow> n\<lparr>replies := replies n @ [(tx, Inl ''not leader'')]\<rparr>)"

section \<open>Application, heartbeats and elections\<close>

function apply_loop :: "'r RaftNode \<Rightarrow> 'r CatalogStateMachine \<Rightarrow> 'r CatalogStateMachine" where
  "apply_loop n sm =
     (if last_applied sm < commit_index n
      then case find (\<lambda>e. e_index e = last_applied sm + 1) (log n) of
             Some e \<Rightarrow> apply_loop n (sm_apply sm e)
           | None \<Rightarrow> sm
      else sm)"
  by pat_completeness auto
termination
  by (relation "measure (\<lambda>(n, sm). commit_index n - last_applied sm)")
    (auto simp: sm_apply_def find_Some_iff)

declare apply_loop.simps [simp del]

definition apply_committed ::
  "'r RaftNode \<times> 'r CatalogStateMachine \<Rightarrow> 'r RaftNode \<times> 'r CatalogStateMachine" where
  "apply_committed p = (notify_committed_proposals (fst p), apply_loop (fst p) (snd p))"

definition heartbeat_request :: "'r RaftNode \<Rightarrow> NodeId \<Rightarrow> 'r AppendEntriesReq" where
  "heartbeat_request n p =
     (let next = (case map_of (next_index n) p of None \<Rightarrow> 1 | Some i \<Rightarrow> i); prev = next - 1 in
      \<lparr>ae_term = current_term n, ae_leader_id = node_id n, ae_prev_log_index = prev,
       ae_prev_log_term = log_term_at n prev, ae_entries = filter (\<lambda>e. e_index e \<ge> next) (log n),
       ae_leader_commit = commit_index n\<rparr>)"

text \<open>One reply: on the left the node after the early return, on the right the node to go on with.\<close>

definition heartbeat_result ::
  "'r RaftNode \<Rightarrow> NodeId \<times> AppendEntriesResp option \<Rightarrow> 'r RaftNode + 'r RaftNode" where
  "heartbeat_result n pr =
     (case pr of
        (_, None) \<Rightarrow> Inr n
      | (p, Some r) \<Rightarrow>
          if ar_term r > current_term n then Inl (become_follower n (ar_term r))
          else if ar_success r
          then Inr (n\<lparr>match_index := AList.update p (last_log_index n) (match_index n),
                      next_index := AList.update p (last_log_index n + 1) (next_index n)\<rparr>)
          else if ar_conflict_index r > 0
          then Inr (n\<lparr>next_index := AList.update p (ar_conflict_index r) (next_index n)\<rparr>)
          else let cur = (case map_of (next_index n) p of None \<Rightarrow> 1 | Some i \<Rightarrow> i) in
               Inr (n\<lparr>next_index := AList.update p (max (cur - 1) 1) (next_index n)\<rparr>))"

definition send_heartbeats_to_peers ::
  "(NodeId \<Rightarrow> 'r AppendEntriesReq \<Rightarrow> AppendEntriesResp option) \<Rightarrow> 'r RaftNode \<Rightarrow> 'r RaftNode" where
  "send_heartbeats_to_peers append_rpc n =
     (case foldE heartbeat_result n (map (\<lambda>p. (p, append_rpc p (heartbeat_request n p))) (peers n)) of
        Inl n' \<Rightarrow> n'
      | Inr n' \<Rightarrow> try_advance_commit n')"

definition begin_election :: "'r RaftNode \<Rightarrow> 'r RaftNode" where
  "begin_election n =
     save_state (n\<lparr>current_term := current_term n + 1, voted_for := Some (node_id n),
                   role := Candidate, votes_received := {node_id n}\<rparr>)"

definition vote_request :: "'r RaftNode \<Rightarrow> RequestVoteReq" where
  "vote_request n =
     \<lparr>rv_term = current_term n, rv_candidate_id = node_id n, rv_last_log_index = last_log_index n,
      rv_last_log_term = last_log_term n\<rparr>"

definition vote_result ::
  "Term \<Rightarrow> 'r RaftNode \<Rightarrow> NodeId \<times> RequestVoteResp option \<Rightarrow> 'r RaftNode + 'r RaftNode" where
  "vote_result t n pr =
     (case pr of
        (_, None) \<Rightarrow> Inr n
      | (p, Some r) \<Rightarrow>
          if vr_term r > current_term n then Inl (become_follower n (vr_term r))
          else if vr_vote_granted r \<and> current_term n = t
          then Inr (n\<lparr>votes_received := insert p (votes_received n)\<rparr>)
          else Inr n)"

definition finish_election ::
  "(NodeId \<times> RequestVoteResp option) list
     \<Rightarrow> (NodeId \<Rightarrow> 'r AppendEntriesReq \<Rightarrow> AppendEntriesResp option)
     \<Rightarrow> 'r RaftNode \<times> 'r CatalogStateMachine \<Rightarrow> 'r RaftNode \<times> 'r CatalogStateMachine" where
  "finish_election results append_rpc p =
     (case p of (n, sm) \<Rightarrow>
       (case foldE (vote_result (current_term n)) n results of
          Inl n' \<Rightarrow> (n', sm)
        | Inr n' \<Rightarrow>
            if card (votes_received n') \<ge> quorum_size n
            then apply_committed
                   (notify_committed_proposals
                     (try_advance_commit (send_heartbeats_to_peers append_rpc (become_leader n'))), sm)
            else (n', sm)))"

definition start_election ::
  "(NodeId \<Rightarrow> RequestVoteReq \<Rightarrow> RequestVoteResp option)
     \<Rightarrow> (NodeId \<Rightarrow> 'r AppendEntriesReq \<Rightarrow> AppendEntriesResp option)
     \<Rightarrow> 'r RaftNode \<times> 'r CatalogStateMachine \<Rightarrow> 'r RaftNode \<times> 'r CatalogStateMachine" where
  "start_election vote_rpc append_rpc p =
     (let n = begin_election (fst p) in
      finish_election (map (\<lambda>q. (q, vote_rpc q (vote_request n))) (peers n)) append_rpc (n, snd p))"

section \<open>The event loop\<close>

datatype 'r RaftInput =
    AppendEntries "'r AppendEntriesReq"
  | RequestVote RequestVoteReq
  | Propose "'r CatalogCommand" nat
  | ElectionTimeout
  | HeartbeatTick
  | ApplyCommitted

text \<open>One turn of the loop of \<open>run_raft\<close> on a received input (without the timer resets).\<close>

definition raft_input ::
  "(NodeId \<Rightarrow> RequestVoteReq \<Rightarrow> RequestVoteResp option)
     \<Rightarrow> (NodeId \<Rightarrow> 'r AppendEntriesReq \<Rightarrow> AppendEntriesResp option)
     \<Rightarrow> 'r RaftInput \<Rightarrow> 'r RaftNode \<times> 'r CatalogStateMachine \<Rightarrow> 'r RaftNode \<times> 'r CatalogStateMachine" where
  "raft_input vote_rpc append_rpc input p =
     (case p of (n, sm) \<Rightarrow>
       (case input of
          AppendEntries req \<Rightarrow> apply_committed (fst (handle_append_entries n req), sm)
        | RequestVote req \<Rightarrow> (fst (handle_request_vote n req), sm)
        | Propose cmd tx \<Rightarrow>
            (let n1 = handle_propose n cmd tx in
             if role n1 = Leader
             then apply_committed
                    (notify_committed_proposals
                      (try_advance_commit (send_heartbeats_to_peers append_rpc n1)), sm)
             else (n1, sm))
        | ElectionTimeout \<Rightarrow> start_election vote_rpc append_rpc (n, sm)
        | HeartbeatTick \<Rightarrow> (if role n = Leader then send_heartbeats_to_peers append_rpc n else n, sm)
        | ApplyCommitted \<Rightarrow> apply_committed (n, sm)))"

section \<open>The log of one node\<close>

text \<open>Entries carry consecutive indexes from one, and a term is never zero.\<close>

definition log_ok :: "'r RaftLogEntry list \<Rightarrow> bool" where
  "log_ok l \<longleftrightarrow> (\<forall>i < length l. e_index (l ! i) = Suc i \<and> 0 < e_term (l ! i))"

definition entries_from :: "nat \<Rightarrow> 'r RaftLogEntry list \<Rightarrow> bool" where
  "entries_from k es \<longleftrightarrow> (\<forall>j < length es. e_index (es ! j) = Suc (k + j) \<and> 0 < e_term (es ! j))"

lemma log_ok_last_index: "log_ok l \<Longrightarrow> last_index_of l = length l"
  by (cases l rule: rev_cases) (auto simp: last_index_of_def log_ok_def nth_append)

lemma log_ok_snoc: "log_ok (l @ [e]) \<longleftrightarrow> log_ok l \<and> e_index e = Suc (length l) \<and> 0 < e_term e"
  by (auto simp: log_ok_def nth_append less_Suc_eq)

lemma log_ok_take: "log_ok l \<Longrightarrow> log_ok (take k l)"
  by (auto simp: log_ok_def)

lemma log_ok_find:
  assumes "log_ok l"
  shows "find (\<lambda>e. e_index e = Suc i) l = (if i < length l then Some (l ! i) else None)"
proof (cases "i < length l")
  case True
  with assms show ?thesis by (auto simp: find_Some_iff log_ok_def intro!: exI [of _ i])
next
  case False
  with assms have "find (\<lambda>e. e_index e = Suc i) l = None"
    by (auto simp: find_None_iff log_ok_def in_set_conv_nth)
  with False show ?thesis by simp
qed

lemma log_ok_term_at:
  assumes "log_ok l"
  shows "term_at l (Suc i) = (if i < length l then e_term (l ! i) else 0)"
  by (simp add: term_at_def log_ok_find [OF assms])

lemma log_ok_retain_below: "log_ok l \<Longrightarrow> retain_below (Suc k) l = take k l"
proof (induction l rule: rev_induct)
  case (snoc e l)
  then show ?case
    by (cases "length l < k") (auto simp: retain_below_def log_ok_snoc Suc_diff_le [symmetric] take_Cons')
qed (simp add: retain_below_def)

lemma append_entry_log:
  assumes "log_ok l" and "e_index e = Suc k" and "k \<le> length l" and "0 < e_term e"
  shows "append_entry l e = (if k < length l \<and> e_term (l ! k) = e_term e then l else take k l @ [e])"
  using assms
  by (auto simp: append_entry_def Let_def log_ok_term_at log_ok_retain_below log_ok_take min_def log_ok_def)

text \<open>The reference for merging entries into a log behind position \<open>k\<close>.\<close>

fun merge_log :: "nat \<Rightarrow> 'r RaftLogEntry list \<Rightarrow> 'r RaftLogEntry list \<Rightarrow> 'r RaftLogEntry list" where
  "merge_log k l [] = l"
| "merge_log k l (e # es) =
     (if k < length l \<and> e_term (l ! k) = e_term e then merge_log (Suc k) l es else take k l @ e # es)"

lemma fold_append_entry_end:
  assumes "log_ok l" and "entries_from (length l) es"
  shows "foldl append_entry l es = l @ es"
  using assms
proof (induction es arbitrary: l)
  case (Cons e es)
  have e: "e_index e = Suc (length l)" "0 < e_term e" using Cons.prems(2) by (auto simp: entries_from_def)
  have "append_entry l e = l @ [e]" using append_entry_log [OF Cons.prems(1) e(1) _ e(2)] by simp
  moreover have "entries_from (length (l @ [e])) es"
    using Cons.prems(2) by (fastforce simp: entries_from_def)
  ultimately show ?case using Cons.IH [of "l @ [e]"] Cons.prems(1) e by (simp add: log_ok_snoc)
qed simp

lemma entries_from_Cons: "entries_from k (e # es) \<longleftrightarrow> e_index e = Suc k \<and> 0 < e_term e \<and> entries_from (Suc k) es"
  by (auto simp: entries_from_def less_Suc_eq_0_disj)

lemma fold_append_entry:
  assumes "log_ok l" and "entries_from k es" and "k \<le> length l"
  shows "foldl append_entry l es = merge_log k l es"
  using assms
proof (induction es arbitrary: l k)
  case (Cons e es)
  from Cons.prems have e: "e_index e = Suc k" "0 < e_term e" "entries_from (Suc k) es"
    by (auto simp: entries_from_Cons)
  note a = append_entry_log [OF Cons.prems(1) e(1) Cons.prems(3) e(2)]
  show ?case
  proof (cases "k < length l \<and> e_term (l ! k) = e_term e")
    case True
    with a Cons.IH [OF Cons.prems(1) e(3)] show ?thesis by simp
  next
    case False
    have "log_ok (take k l @ [e])"
      using log_ok_take [OF Cons.prems(1)] e Cons.prems(3) by (simp add: log_ok_snoc min_def)
    then have "foldl append_entry (take k l @ [e]) es = take k l @ e # es"
      using fold_append_entry_end [of "take k l @ [e]" es] e(3) Cons.prems(3) by (simp add: min_def)
    with False a show ?thesis by auto
  qed
qed simp

lemma log_ok_take_append:
  "log_ok l \<Longrightarrow> entries_from k es \<Longrightarrow> k \<le> length l \<Longrightarrow> log_ok (take k l @ es)"
  by (auto simp: log_ok_def entries_from_def nth_append min_def)

lemma merge_log_ok: "log_ok l \<Longrightarrow> entries_from k es \<Longrightarrow> k \<le> length l \<Longrightarrow> log_ok (merge_log k l es)"
proof (induction k l es rule: merge_log.induct)
  case (2 k l e es)
  then show ?case
    using log_ok_take_append [of l k "e # es"] by (auto simp: entries_from_Cons simp del: append_Cons)
qed simp

lemma merge_log_length: "k \<le> length l \<Longrightarrow> k + length es \<le> length (merge_log k l es)"
  by (induction k l es rule: merge_log.induct) auto

lemma merge_log_keeps: "i < k \<Longrightarrow> k \<le> length l \<Longrightarrow> i < length (merge_log k l es) \<and> merge_log k l es ! i = l ! i"
  by (induction k l es rule: merge_log.induct) (auto simp: nth_append)

lemma merge_log_terms:
  "k \<le> length l \<Longrightarrow> j < length es \<Longrightarrow> k + j < length (merge_log k l es)
     \<and> e_term (merge_log k l es ! (k + j)) = e_term (es ! j)"
proof (induction k l es arbitrary: j rule: merge_log.induct)
  case (2 k l e es)
  show ?case
  proof (cases "k < length l \<and> e_term (l ! k) = e_term e")
    case True
    then show ?thesis
      using 2 merge_log_keeps [of k "Suc k" l es] by (cases j) auto
  next
    case False
    with 2 show ?thesis by (auto simp: nth_append min_def)
  qed
qed simp

lemma merge_log_no_conflict:
  assumes "k \<le> length l" and "\<And>j. j < length es \<Longrightarrow> k + j < length l \<Longrightarrow> e_term (l ! (k + j)) = e_term (es ! j)"
  shows "take (length l) (merge_log k l es) = l"
  using assms
proof (induction k l es rule: merge_log.induct)
  case (2 k l e es)
  show ?case
  proof (cases "k < length l")
    case True
    with 2(3) [of 0] have "e_term (l ! k) = e_term e" by simp
    moreover have "e_term (l ! (Suc k + j)) = e_term (es ! j)" if "j < length es" "Suc k + j < length l" for j
      using 2(3) [of "Suc j"] that by simp
    ultimately show ?thesis using 2(1) True by simp
  next
    case False
    with 2(2) show ?thesis by simp
  qed
qed simp

section \<open>Appending\<close>

lemma save_state_simps [simp]:
  "log (save_state n) = log n" "commit_index (save_state n) = commit_index n" "current_term (save_state n) = current_term n"
  "voted_for (save_state n) = voted_for n" "role (save_state n) = role n" "node_id (save_state n) = node_id n"
  "peers (save_state n) = peers n" "storage_ok (save_state n) = storage_ok n" "votes_received (save_state n) = votes_received n"
  "storage_ok n \<Longrightarrow> disk_state (save_state n) = (current_term n, voted_for n)"
  by (simp_all add: save_state_def)

lemma save_log_simps [simp]:
  "log (save_log n) = log n" "commit_index (save_log n) = commit_index n" "current_term (save_log n) = current_term n"
  "voted_for (save_log n) = voted_for n" "role (save_log n) = role n" "node_id (save_log n) = node_id n"
  "peers (save_log n) = peers n" "storage_ok (save_log n) = storage_ok n" "disk_state (save_log n) = disk_state n"
  "votes_received (save_log n) = votes_received n"
  by (simp_all add: save_log_def)

lemma become_follower_simps [simp]:
  "log (become_follower n t) = log n" "commit_index (become_follower n t) = commit_index n"
  "current_term (become_follower n t) = t" "voted_for (become_follower n t) = None"
  "node_id (become_follower n t) = node_id n" "peers (become_follower n t) = peers n"
  "storage_ok (become_follower n t) = storage_ok n"
  "storage_ok n \<Longrightarrow> disk_state (become_follower n t) = (t, None)"
  by (simp_all add: become_follower_def)


section \<open>Committing and applying\<close>

definition committable :: "'r RaftNode \<Rightarrow> LogIndex \<Rightarrow> bool" where
  "committable n i \<longleftrightarrow> commit_index n < i \<and> log_term_at n i = current_term n \<and> quorum_size n \<le> acks n i"

lemma advance_loop_spec:
  "advance_loop n k = n\<lparr>commit_index := (if \<exists>i \<le> k. committable n i then Max {i. i \<le> k \<and> committable n i}
     else commit_index n)\<rparr>"
proof (induction k)
  case 0
  have "\<not> committable n 0" by (simp add: committable_def)
  then show ?case by simp
next
  case (Suc k)
  consider "committable n (Suc k)" | "\<not> committable n (Suc k)" "Suc k > commit_index n" | "Suc k \<le> commit_index n"
    by linarith
  then show ?case
  proof cases
    case 1
    then have "Max {i. i \<le> Suc k \<and> committable n i} = Suc k" by (intro Max_eqI) auto
    with 1 show ?thesis by (auto simp: committable_def)
  next
    case 2
    then have "{i. i \<le> Suc k \<and> committable n i} = {i. i \<le> k \<and> committable n i}" by (auto simp: le_Suc_eq)
    with 2 Suc.IH show ?thesis by (auto simp: committable_def le_Suc_eq)
  next
    case 3
    then have "\<not> committable n i" if "i \<le> Suc k" for i using that by (simp add: committable_def)
    with 3 show ?thesis by auto
  qed
qed

text \<open>
  C29. Advancing the commit index is exact: it moves to the greatest index above the old one, up to
  the end of the log, that holds an entry of the current term and is acknowledged by a quorum, and
  stays where it is when there is none. Nothing else of the node changes.
\<close>

theorem try_advance_commit_exact:
  "try_advance_commit n =
     (let S = {i. i \<le> last_log_index n \<and> commit_index n < i \<and> log_term_at n i = current_term n
                  \<and> quorum_size n \<le> acks n i}
      in n\<lparr>commit_index := (if S = {} then commit_index n else Max S)\<rparr>)"
proof -
  let ?S = "{i. i \<le> last_log_index n \<and> committable n i}"
  have "(\<exists>i \<le> last_log_index n. committable n i) \<longleftrightarrow> ?S \<noteq> {}" by blast
  then show ?thesis
    unfolding try_advance_commit_def advance_loop_spec Let_def committable_def by presburger
qed

lemma sm_apply_last [simp]: "last_applied (sm_apply sm e) = e_index e"
  by (simp add: sm_apply_def)

lemma apply_loop_fold:
  assumes "log_ok (log n)" and "last_applied sm \<le> length (log n)"
  shows "apply_loop n sm = foldl sm_apply sm (slice (last_applied sm) (commit_index n) (log n))"
  using assms
proof (induction n sm rule: apply_loop.induct)
  case (1 n sm)
  let ?k = "last_applied sm"
  have find: "find (\<lambda>e. e_index e = ?k + 1) (log n) = (if ?k < length (log n) then Some (log n ! ?k) else None)"
    using log_ok_find [OF "1.prems"(1), of ?k] by simp
  show ?case
  proof (cases "?k < commit_index n \<and> ?k < length (log n)")
    case True
    then have idx: "e_index (log n ! ?k) = Suc ?k" using "1.prems"(1) by (simp add: log_ok_def)
    have "apply_loop n sm = apply_loop n (sm_apply sm (log n ! ?k))"
      using True find by (simp add: apply_loop.simps [of n sm])
    also have "\<dots> = foldl sm_apply (sm_apply sm (log n ! ?k)) (slice (Suc ?k) (commit_index n) (log n))"
      using 1(1) [of "log n ! ?k"] True find "1.prems"(1) idx by simp
    also have "slice ?k (commit_index n) (log n) = log n ! ?k # slice (Suc ?k) (commit_index n) (log n)"
      using True by (simp add: slice_def Cons_nth_drop_Suc [symmetric] take_Cons' Suc_diff_Suc)
    ultimately show ?thesis by simp
  next
    case False
    then have "slice ?k (commit_index n) (log n) = []" by (auto simp: slice_def)
    with False find show ?thesis by (auto simp: apply_loop.simps [of n sm])
  qed
qed


section \<open>A cluster\<close>

text \<open>
  The nodes of a cluster, which of them wait for the replies to their vote requests, the votes
  granted so far (term, voter, candidate) and the elections won so far. A node that waits runs
  nothing else. Requests delivered to a node are arbitrary: late, repeated or made up. A granting
  reply counted by a candidate comes from its peer having granted this request.
\<close>

record 'r cluster =
  nodes :: "NodeId \<Rightarrow> 'r RaftNode \<times> 'r CatalogStateMachine"
  electing :: "NodeId set"
  granted :: "(Term \<times> NodeId \<times> NodeId) set"
  elected :: "(Term \<times> NodeId) set"

definition wins :: "(NodeId \<times> RequestVoteResp option) list \<Rightarrow> 'r RaftNode \<Rightarrow> bool" where
  "wins results n =
     (case foldE (vote_result (current_term n)) n results of
        Inl _ \<Rightarrow> False | Inr n' \<Rightarrow> card (votes_received n') \<ge> quorum_size n)"

inductive cluster_step :: "NodeId list \<Rightarrow> 'r cluster \<Rightarrow> 'r cluster \<Rightarrow> bool" for members where
  Input: "i \<in> set members \<Longrightarrow> i \<notin> electing c
     \<Longrightarrow> input \<in> {AppendEntries req, Propose cmd tx, HeartbeatTick, ApplyCommitted}
     \<Longrightarrow> cluster_step members c
           (c\<lparr>nodes := (nodes c)(i := raft_input vote_rpc append_rpc input (nodes c i))\<rparr>)"
| Vote: "i \<in> set members \<Longrightarrow> i \<notin> electing c \<Longrightarrow> nodes c i = (n, sm)
     \<Longrightarrow> handle_request_vote n req = (n', resp)
     \<Longrightarrow> cluster_step members c
           (c\<lparr>nodes := (nodes c)(i := (n', sm)),
              granted := (if vr_vote_granted resp
                          then insert (vr_term resp, i, rv_candidate_id req) (granted c) else granted c)\<rparr>)"
| Begin_election: "i \<in> set members \<Longrightarrow> i \<notin> electing c \<Longrightarrow> nodes c i = (n, sm) \<Longrightarrow> n' = begin_election n
     \<Longrightarrow> cluster_step members c
           (c\<lparr>nodes := (nodes c)(i := (n', sm)), electing := insert i (electing c),
              granted := insert (current_term n', i, i) (granted c)\<rparr>)"
| Finish_election: "i \<in> electing c \<Longrightarrow> nodes c i = (n, sm) \<Longrightarrow> map fst results = peers n
     \<Longrightarrow> (\<And>p r. (p, Some r) \<in> set results \<Longrightarrow> vr_vote_granted r \<Longrightarrow> (current_term n, p, i) \<in> granted c)
     \<Longrightarrow> cluster_step members c
           (c\<lparr>nodes := (nodes c)(i := finish_election results append_rpc (n, sm)),
              electing := electing c - {i},
              elected := (if wins results n then insert (current_term n, i) (elected c) else elected c)\<rparr>)"
| Restart: "i \<in> set members \<Longrightarrow> nodes c i = (n, sm)
     \<Longrightarrow> cluster_step members c
           (c\<lparr>nodes := (nodes c)(i := (raft_restart n, sm_default)), electing := electing c - {i}\<rparr>)"

text \<open>Every member knows the others, its files hold its term and vote, and its storage works.\<close>

definition member_ok :: "NodeId list \<Rightarrow> NodeId \<Rightarrow> 'r RaftNode \<Rightarrow> bool" where
  "member_ok members i n \<longleftrightarrow> node_id n = i \<and> distinct (i # peers n) \<and> set (i # peers n) = set members
     \<and> storage_ok n \<and> disk_state n = (current_term n, voted_for n)"

definition cluster_start :: "NodeId list \<Rightarrow> 'r cluster \<Rightarrow> bool" where
  "cluster_start members c \<longleftrightarrow> electing c = {} \<and> granted c = {} \<and> elected c = {}
     \<and> (\<forall>i \<in> set members. member_ok members i (fst (nodes c i)))"

section \<open>Terms and votes of one node\<close>

text \<open>What every handler but a vote does to a node's term and vote: keep both, or move to a later term.\<close>

definition keeps_vote :: "'r RaftNode \<Rightarrow> 'r RaftNode \<Rightarrow> bool" where
  "keeps_vote n n' \<longleftrightarrow> node_id n' = node_id n \<and> peers n' = peers n \<and> storage_ok n' = storage_ok n
     \<and> (current_term n' = current_term n \<and> voted_for n' = voted_for n \<and> disk_state n' = disk_state n
        \<or> current_term n < current_term n' \<and> (storage_ok n \<longrightarrow> disk_state n' = (current_term n', voted_for n')))"

lemma keeps_vote_refl [simp]: "keeps_vote n n"
  by (simp add: keeps_vote_def)

lemma keeps_vote_trans [trans]: "keeps_vote a b \<Longrightarrow> keeps_vote b c \<Longrightarrow> keeps_vote a c"
  by (auto simp: keeps_vote_def)

lemma keeps_vote_follower: "current_term n < t \<Longrightarrow> keeps_vote n (become_follower n t)"
  by (simp add: keeps_vote_def)

lemma keeps_vote_save_log [simp]: "keeps_vote n (save_log m) \<longleftrightarrow> keeps_vote n m"
  by (simp add: keeps_vote_def)

lemma keeps_vote_update [simp]:
  "keeps_vote n (m\<lparr>log := l\<rparr>) \<longleftrightarrow> keeps_vote n m" "keeps_vote n (m\<lparr>commit_index := i\<rparr>) \<longleftrightarrow> keeps_vote n m"
  "keeps_vote n (m\<lparr>role := r\<rparr>) \<longleftrightarrow> keeps_vote n m" "keeps_vote n (m\<lparr>pending := p\<rparr>) \<longleftrightarrow> keeps_vote n m"
  "keeps_vote n (m\<lparr>replies := q\<rparr>) \<longleftrightarrow> keeps_vote n m" "keeps_vote n (m\<lparr>next_index := x\<rparr>) \<longleftrightarrow> keeps_vote n m"
  "keeps_vote n (m\<lparr>match_index := x\<rparr>) \<longleftrightarrow> keeps_vote n m" "keeps_vote n (m\<lparr>votes_received := v\<rparr>) \<longleftrightarrow> keeps_vote n m"
  by (simp_all add: keeps_vote_def)

lemma keeps_vote_advance [simp]: "keeps_vote n (try_advance_commit m) \<longleftrightarrow> keeps_vote n m"
  by (simp add: try_advance_commit_def advance_loop_spec)

lemma keeps_vote_notify [simp]: "keeps_vote n (notify_committed_proposals m) \<longleftrightarrow> keeps_vote n m"
  by (simp add: notify_committed_proposals_def Let_def)

lemma keeps_vote_apply [simp]: "keeps_vote n (fst (apply_committed p)) \<longleftrightarrow> keeps_vote n (fst p)"
  by (simp add: apply_committed_def)

lemma keeps_vote_leader [simp]: "keeps_vote n (become_leader m) \<longleftrightarrow> keeps_vote n m"
  by (simp add: become_leader_def Let_def)

lemma keeps_vote_append: "keeps_vote n (fst (handle_append_entries n req))"
  by (auto simp: handle_append_entries_def Let_def keeps_vote_follower)

lemma keeps_vote_propose: "keeps_vote n (handle_propose n cmd tx)"
  by (simp add: handle_propose_def Let_def split: RaftRole.split)

lemma heartbeat_result_keeps:
  "keeps_vote n (case heartbeat_result n pr of Inl m \<Rightarrow> m | Inr m \<Rightarrow> m)"
  by (auto simp: heartbeat_result_def Let_def keeps_vote_follower split: prod.split option.split)

lemma vote_result_keeps:
  "keeps_vote n (case vote_result t n pr of Inl m \<Rightarrow> m | Inr m \<Rightarrow> m)"
  by (auto simp: vote_result_def keeps_vote_follower split: prod.split option.split)

lemma foldE_keeps:
  assumes "\<And>n x. keeps_vote n (case f n x of Inl m \<Rightarrow> m | Inr m \<Rightarrow> m)"
  shows "keeps_vote n (case foldE f n xs of Inl m \<Rightarrow> m | Inr m \<Rightarrow> m)"
proof (induction xs arbitrary: n)
  case (Cons x xs)
  show ?case
    using assms [of n x] keeps_vote_trans [OF _ Cons.IH] by (cases "f n x") simp_all
qed simp

lemma keeps_vote_heartbeats: "keeps_vote n (send_heartbeats_to_peers rpc n)"
  using foldE_keeps [OF heartbeat_result_keeps]
  by (fastforce simp: send_heartbeats_to_peers_def split: sum.splits)

lemma raft_input_keeps:
  assumes "input \<in> {AppendEntries req, Propose cmd tx, HeartbeatTick, ApplyCommitted}"
  shows "keeps_vote (fst p) (fst (raft_input vote_rpc append_rpc input p))"
  using assms keeps_vote_trans [OF keeps_vote_propose keeps_vote_heartbeats]
  by (cases p) (auto simp: raft_input_def Let_def keeps_vote_append keeps_vote_propose keeps_vote_heartbeats)

lemma finish_election_keeps: "keeps_vote (fst p) (fst (finish_election results append_rpc p))"
proof -
  obtain n sm where p: "p = (n, sm)" by force
  have k: "keeps_vote n (case foldE (vote_result (current_term n)) n results of Inl m \<Rightarrow> m | Inr m \<Rightarrow> m)"
    by (rule foldE_keeps [OF vote_result_keeps])
  have "keeps_vote n (send_heartbeats_to_peers append_rpc (become_leader m))" if "keeps_vote n m" for m
    by (rule keeps_vote_trans [OF _ keeps_vote_heartbeats]) (use that in simp)
  with k show ?thesis by (auto simp: p finish_election_def split: sum.split)
qed

lemma request_vote_cases:
  assumes "handle_request_vote n req = (n', resp)"
  shows "keeps_vote n n' \<and> \<not> vr_vote_granted resp
    \<or> vr_vote_granted resp \<and> vr_term resp = current_term n' \<and> voted_for n' = Some (rv_candidate_id req)
      \<and> node_id n' = node_id n \<and> peers n' = peers n \<and> storage_ok n' = storage_ok n
      \<and> (storage_ok n \<longrightarrow> disk_state n' = (current_term n', voted_for n'))
      \<and> (current_term n < current_term n'
         \<or> current_term n' = current_term n \<and> voted_for n \<in> {None, Some (rv_candidate_id req)})"
  using assms
  by (auto simp: handle_request_vote_def Let_def keeps_vote_follower split: if_splits option.splits)

section \<open>One leader per term\<close>

definition votes_ok :: "NodeId \<Rightarrow> 'r RaftNode \<Rightarrow> (Term \<times> NodeId \<times> NodeId) set \<Rightarrow> bool" where
  "votes_ok i n G \<longleftrightarrow>
     (\<forall>t c. (t, i, c) \<in> G \<longrightarrow> t \<le> current_term n \<and> (t = current_term n \<longrightarrow> voted_for n = Some c))"

definition quorum_of :: "NodeId list \<Rightarrow> NodeId set \<Rightarrow> bool" where
  "quorum_of members V \<longleftrightarrow> V \<subseteq> set members \<and> card (set members) < 2 * card V"

definition cluster_inv :: "NodeId list \<Rightarrow> 'r cluster \<Rightarrow> bool" where
  "cluster_inv members c \<longleftrightarrow>
     (\<forall>i \<in> set members. member_ok members i (fst (nodes c i)) \<and> votes_ok i (fst (nodes c i)) (granted c))
     \<and> (\<forall>t i a b. (t, i, a) \<in> granted c \<longrightarrow> (t, i, b) \<in> granted c \<longrightarrow> a = b)
     \<and> (\<forall>i \<in> electing c. i \<in> set members \<and> votes_received (fst (nodes c i)) = {i}
          \<and> (current_term (fst (nodes c i)), i, i) \<in> granted c)
     \<and> (\<forall>(t, l) \<in> elected c. \<exists>V. quorum_of members V \<and> (\<forall>p \<in> V. (t, p, l) \<in> granted c))"

lemma votes_ok_keeps: "keeps_vote n n' \<Longrightarrow> votes_ok i n G \<Longrightarrow> votes_ok i n' G"
  by (fastforce simp: keeps_vote_def votes_ok_def)

lemma member_ok_keeps: "keeps_vote n n' \<Longrightarrow> member_ok members i n \<Longrightarrow> member_ok members i n'"
  by (auto simp: keeps_vote_def member_ok_def)

lemma quorums_meet:
  assumes "quorum_of members V" and "quorum_of members W"
  shows "V \<inter> W \<noteq> {}"
proof
  assume e: "V \<inter> W = {}"
  have "V \<union> W \<subseteq> set members" "finite V" "finite W"
    using assms by (auto simp: quorum_of_def intro: finite_subset)
  then have "card V + card W \<le> card (set members)"
    using card_mono [of "set members" "V \<union> W"] e by (simp add: card_Un_disjoint)
  with assms show False by (simp add: quorum_of_def)
qed

lemma vote_result_received:
  assumes "foldE (vote_result t) n results = Inr n'" and "current_term n = t"
  shows "votes_received n' \<subseteq> votes_received n \<union> {p. \<exists>r. (p, Some r) \<in> set results \<and> vr_vote_granted r}"
proof -
  define W where "W = votes_received n \<union> {p. \<exists>r. (p, Some r) \<in> set results \<and> vr_vote_granted r}"
  have W: "(p, Some r) \<in> set results \<Longrightarrow> vr_vote_granted r \<Longrightarrow> p \<in> W" for p r by (auto simp: W_def)
  have "votes_received n' \<subseteq> W \<and> current_term n' = t"
  proof (rule foldE_invariant [OF assms(1)])
    show "votes_received n \<subseteq> W \<and> current_term n = t" using assms(2) by (simp add: W_def)
  next
    fix s x m
    assume "x \<in> set results" "votes_received s \<subseteq> W \<and> current_term s = t" "vote_result t s x = Inr m"
    then show "votes_received m \<subseteq> W \<and> current_term m = t"
      using W by (auto simp: vote_result_def split: prod.splits option.splits if_splits)
  qed
  then show ?thesis by (simp add: W_def)
qed

lemma wins_quorum:
  assumes "wins results n" and "member_ok members i n" and "votes_received n = {i}"
    and "map fst results = peers n" and "(current_term n, i, i) \<in> G"
    and "\<And>p r. (p, Some r) \<in> set results \<Longrightarrow> vr_vote_granted r \<Longrightarrow> (current_term n, p, i) \<in> G"
  shows "\<exists>V. quorum_of members V \<and> (\<forall>p \<in> V. (current_term n, p, i) \<in> G)"
proof -
  from assms(1) obtain n' where n': "foldE (vote_result (current_term n)) n results = Inr n'"
    and card: "quorum_size n \<le> card (votes_received n')"
    by (auto simp: wins_def split: sum.splits)
  have sub: "votes_received n' \<subseteq> {i} \<union> {p. \<exists>r. (p, Some r) \<in> set results \<and> vr_vote_granted r}"
    using vote_result_received [OF n' refl] assms(3) by simp
  have "card (set members) = length (i # peers n)"
    using assms(2) by (metis distinct_card member_ok_def)
  then have "card (set members) < 2 * card (votes_received n')"
    using card by (simp add: quorum_size_def)
  moreover have "votes_received n' \<subseteq> set members"
  proof -
    have "p \<in> set (peers n)" if "(p, Some r) \<in> set results" for p r
      using that assms(4) by (metis fst_conv image_eqI set_map)
    with sub assms(2) show ?thesis by (auto simp: member_ok_def)
  qed
  ultimately have "quorum_of members (votes_received n')" by (simp add: quorum_of_def)
  moreover have "\<forall>p \<in> votes_received n'. (current_term n, p, i) \<in> G"
    using sub assms(5,6) by blast
  ultimately show ?thesis by blast
qed

text \<open>A step of one node, with the votes it adds for itself.\<close>

lemma cluster_inv_update:
  assumes inv: "cluster_inv members c" and i: "i \<in> set members" and nodes: "nodes c' = (nodes c)(i := (n', sm))"
    and ok: "member_ok members i n'" "votes_ok i n' (granted c')"
    and G: "granted c \<subseteq> granted c'" "\<And>t j x. (t, j, x) \<in> granted c' \<Longrightarrow> (t, j, x) \<in> granted c \<or> j = i"
    and uniq: "\<And>t x y. (t, i, x) \<in> granted c' \<Longrightarrow> (t, i, y) \<in> granted c' \<Longrightarrow> x = y"
    and E: "electing c' \<subseteq> insert i (electing c)"
      "i \<in> electing c' \<Longrightarrow> votes_received n' = {i} \<and> (current_term n', i, i) \<in> granted c'"
    and L: "\<And>t l. (t, l) \<in> elected c' \<Longrightarrow> (t, l) \<in> elected c
      \<or> (\<exists>V. quorum_of members V \<and> (\<forall>p \<in> V. (t, p, l) \<in> granted c'))"
  shows "cluster_inv members c'"
proof -
  have old: "\<And>j. j \<in> set members \<Longrightarrow> member_ok members j (fst (nodes c j)) \<and> votes_ok j (fst (nodes c j)) (granted c)"
    "\<And>t j a b. (t, j, a) \<in> granted c \<Longrightarrow> (t, j, b) \<in> granted c \<Longrightarrow> a = b"
    "\<And>j. j \<in> electing c \<Longrightarrow> j \<in> set members \<and> votes_received (fst (nodes c j)) = {j}
        \<and> (current_term (fst (nodes c j)), j, j) \<in> granted c"
    "\<And>t l. (t, l) \<in> elected c \<Longrightarrow> \<exists>V. quorum_of members V \<and> (\<forall>p \<in> V. (t, p, l) \<in> granted c)"
    using inv by (auto simp: cluster_inv_def)
  have "member_ok members j (fst (nodes c' j)) \<and> votes_ok j (fst (nodes c' j)) (granted c')" if "j \<in> set members" for j
  proof (cases "j = i")
    case True
    then show ?thesis using ok by (simp add: nodes)
  next
    case False
    have "votes_ok j (fst (nodes c j)) (granted c')"
      using old(1) [OF that] G(2) [of _ j] False unfolding votes_ok_def by blast
    then show ?thesis using old(1) [OF that] False by (simp add: nodes)
  qed
  moreover have "x = y" if "(t, j, x) \<in> granted c'" "(t, j, y) \<in> granted c'" for t j x y
    using that G(2) uniq old(2) by (cases "j = i") blast+
  moreover have "j \<in> set members \<and> votes_received (fst (nodes c' j)) = {j}
        \<and> (current_term (fst (nodes c' j)), j, j) \<in> granted c'" if "j \<in> electing c'" for j
    using that i E old(3) [of j] G(1) by (cases "j = i") (auto simp: nodes)
  moreover have "\<exists>V. quorum_of members V \<and> (\<forall>p \<in> V. (t, p, l) \<in> granted c')" if "(t, l) \<in> elected c'" for t l
    using L [OF that] old(4) G(1) by blast
  ultimately show ?thesis unfolding cluster_inv_def by blast
qed

text \<open>The case of a step that adds no vote.\<close>

lemma cluster_inv_keeps:
  assumes inv: "cluster_inv members c" and i: "i \<in> set members" and nodes: "nodes c' = (nodes c)(i := (n', sm))"
    and k: "keeps_vote (fst (nodes c i)) n'" and G: "granted c' = granted c"
    and E: "electing c' \<subseteq> electing c" "i \<notin> electing c'"
    and L: "\<And>t l. (t, l) \<in> elected c' \<Longrightarrow> (t, l) \<in> elected c
      \<or> (\<exists>V. quorum_of members V \<and> (\<forall>p \<in> V. (t, p, l) \<in> granted c))"
  shows "cluster_inv members c'"
proof (rule cluster_inv_update [OF inv i nodes])
  show "member_ok members i n'" "votes_ok i n' (granted c')"
    using member_ok_keeps [OF k] votes_ok_keeps [OF k] inv i by (auto simp: cluster_inv_def G)
qed (use inv E L in \<open>auto simp: cluster_inv_def G\<close>)

lemma cluster_inv_parts:
  assumes "cluster_inv members c" and "i \<in> set members" and "nodes c i = (n, sm)"
  shows "member_ok members i n" and "votes_ok i n (granted c)"
  using assms unfolding cluster_inv_def by (metis fst_conv)+

lemma cluster_inv_vote:
  assumes inv: "cluster_inv members c" and i: "i \<in> set members" "i \<notin> electing c" "nodes c i = (n, sm)"
    and vote: "handle_request_vote n req = (n', resp)" "vr_vote_granted resp"
  shows "cluster_inv members (c\<lparr>nodes := (nodes c)(i := (n', sm)),
     granted := insert (vr_term resp, i, rv_candidate_id req) (granted c)\<rparr>)" (is "cluster_inv members ?c'")
proof -
  note old = cluster_inv_parts [OF inv i(1,3)]
  have v: "vr_term resp = current_term n'" "voted_for n' = Some (rv_candidate_id req)"
    "node_id n' = node_id n" "peers n' = peers n" "storage_ok n' = storage_ok n"
    "storage_ok n \<longrightarrow> disk_state n' = (current_term n', voted_for n')"
    "current_term n < current_term n' \<or> current_term n' = current_term n \<and> voted_for n \<in> {None, Some (rv_candidate_id req)}"
    using request_vote_cases [OF vote(1)] vote(2) by auto
  have eq: "x = rv_candidate_id req" if "(current_term n', i, x) \<in> granted c" for x
    using that old(2) v(7) unfolding votes_ok_def by fastforce
  show ?thesis
  proof (rule cluster_inv_update [OF inv i(1), where n' = n' and sm = sm])
    show "member_ok members i n'" using old(1) v by (simp add: member_ok_def)
    show "votes_ok i n' (granted ?c')"
      unfolding votes_ok_def
    proof (intro allI impI)
      fix t x assume "(t, i, x) \<in> granted ?c'"
      then consider "t = current_term n'" "x = rv_candidate_id req" | "(t, i, x) \<in> granted c" using v(1) by auto
      then show "t \<le> current_term n' \<and> (t = current_term n' \<longrightarrow> voted_for n' = Some x)"
      proof cases
        case 2
        then have "t \<le> current_term n" using old(2) by (simp add: votes_ok_def)
        with 2 eq v(2,7) show ?thesis by auto
      qed (use v(2) in simp)
    qed
    show "x = y" if "(t, i, x) \<in> granted ?c'" "(t, i, y) \<in> granted ?c'" for t x y
      using that v(1) eq inv by (auto simp: cluster_inv_def)
  qed (use i in auto)
qed

lemma cluster_inv_begin:
  assumes inv: "cluster_inv members c" and i: "i \<in> set members" "nodes c i = (n, sm)"
  defines "n' \<equiv> begin_election n"
  shows "cluster_inv members (c\<lparr>nodes := (nodes c)(i := (n', sm)), electing := insert i (electing c),
     granted := insert (current_term n', i, i) (granted c)\<rparr>)" (is "cluster_inv members ?c'")
proof -
  note old = cluster_inv_parts [OF inv i]
  have v: "current_term n' = Suc (current_term n)" "voted_for n' = Some i" "votes_received n' = {i}"
    "node_id n' = node_id n" "peers n' = peers n" "storage_ok n' = storage_ok n"
    "storage_ok n \<longrightarrow> disk_state n' = (current_term n', voted_for n')"
    using old(1) by (auto simp: n'_def begin_election_def member_ok_def)
  have new: "(Suc (current_term n), i, x) \<notin> granted c" for x
    using old(2) unfolding votes_ok_def by (metis Suc_n_not_le_n)
  show ?thesis
  proof (rule cluster_inv_update [OF inv i(1), where n' = n' and sm = sm])
    show "member_ok members i n'" using old(1) v by (simp add: member_ok_def)
    show "votes_ok i n' (granted ?c')"
      using old(2) v(1,2) new by (auto simp: votes_ok_def le_Suc_eq)
    show "x = y" if "(t, i, x) \<in> granted ?c'" "(t, i, y) \<in> granted ?c'" for t x y
      using that v(1) new inv by (auto simp: cluster_inv_def)
  qed (use v in auto)
qed

lemma raft_restart_keeps: "member_ok members i n \<Longrightarrow> keeps_vote n (raft_restart n)"
  by (simp add: keeps_vote_def member_ok_def raft_restart_def)

lemma cluster_step_inv:
  assumes "cluster_inv members c" and "cluster_step members c c'"
  shows "cluster_inv members c'"
  using assms(2)
proof cases
  case (Input i input req cmd tx vote_rpc append_rpc)
  show ?thesis
    by (rule cluster_inv_keeps [OF assms(1) Input(2) _ raft_input_keeps [OF Input(4), of "nodes c i" vote_rpc append_rpc],
          where sm = "snd (raft_input vote_rpc append_rpc input (nodes c i))"])
      (use Input in auto)
next
  case (Vote i n sm req n' resp)
  show ?thesis
  proof (cases "vr_vote_granted resp")
    case True
    with cluster_inv_vote [OF assms(1) Vote(2,3,4,5)] Vote(1) show ?thesis by simp
  next
    case False
    with request_vote_cases [OF Vote(5)] have "keeps_vote n n'" by blast
    with False Vote show ?thesis by (intro cluster_inv_keeps [OF assms(1) Vote(2), of _ n' sm]) auto
  qed
next
  case (Begin_election i n sm n')
  with cluster_inv_begin [OF assms(1)] show ?thesis by simp
next
  case (Finish_election i n sm results append_rpc)
  have e: "i \<in> set members" "votes_received n = {i}" "(current_term n, i, i) \<in> granted c"
    using assms(1) Finish_election(2,3) unfolding cluster_inv_def by (metis fst_conv)+
  have w: "wins results n \<Longrightarrow> \<exists>V. quorum_of members V \<and> (\<forall>p \<in> V. (current_term n, p, i) \<in> granted c)"
    using wins_quorum [OF _ cluster_inv_parts(1) [OF assms(1) e(1) Finish_election(3)] e(2) Finish_election(4) e(3)]
      Finish_election(5) by blast
  show ?thesis
    by (rule cluster_inv_keeps [OF assms(1) e(1) _ finish_election_keeps [of "nodes c i" results append_rpc],
          where sm = "snd (finish_election results append_rpc (n, sm))"])
      (use Finish_election w in \<open>auto split: if_splits\<close>)
next
  case (Restart i n sm)
  have "keeps_vote (fst (nodes c i)) (raft_restart n)"
    using raft_restart_keeps cluster_inv_parts(1) [OF assms(1) Restart(2,3)] Restart(3) by (metis fst_conv)
  with Restart show ?thesis by (intro cluster_inv_keeps [OF assms(1) Restart(2), of _ "raft_restart n" sm_default]) auto
qed

interpretation raft_cluster: invariant_system "cluster_start members" "cluster_step members" "cluster_inv members" for members
proof unfold_locales
  show "cluster_inv members c" if "cluster_start members c" for c
    using that by (auto simp: cluster_start_def cluster_inv_def votes_ok_def)
qed (rule cluster_step_inv)



section \<open>Where the protocol's guarantees end\<close>

definition raft_fresh :: "NodeId \<Rightarrow> NodeId list \<Rightarrow> unit RaftNode" where
  "raft_fresh i ps =
     \<lparr>node_id = i, peers = ps, current_term = 0, voted_for = None, log = [], commit_index = 0,
      role = Follower None, votes_received = {}, next_index = [], match_index = [], pending = [],
      replies = [], disk_state = (0, None), disk_log = [], storage_ok = True\<rparr>"

definition demo_entry :: "nat \<Rightarrow> nat \<Rightarrow> string \<Rightarrow> unit RaftLogEntry" where
  "demo_entry t i name = \<lparr>e_term = t, e_index = i, e_command = DeleteCollection name\<rparr>"

definition demo_append :: "nat \<Rightarrow> nat \<Rightarrow> unit RaftLogEntry list \<Rightarrow> unit AppendEntriesReq" where
  "demo_append t commit es = \<lparr>ae_term = t, ae_leader_id = 2, ae_prev_log_index = 0, ae_prev_log_term = 0,
     ae_entries = es, ae_leader_commit = commit\<rparr>"

text \<open>
  A restart takes the whole persisted log as committed: an entry that its leader has not committed
  (\<open>leader_commit = 0\<close>) is not applied before the restart and is applied after it.
\<close>

lemma restart_commits_uncommitted:
  "\<exists>n resp. handle_append_entries (raft_fresh 1 [2, 3]) (demo_append 1 0 [demo_entry 1 1 ''a'']) = (n, resp)
     \<and> ar_success resp \<and> commit_index n = 0
     \<and> last_applied (snd (apply_committed (n, sm_default))) = 0
     \<and> commit_index (raft_restart n) = 1
     \<and> last_applied (snd (apply_committed (raft_restart n, sm_default))) = 1"
  by (simp add: handle_append_entries_def raft_fresh_def demo_append_def demo_entry_def become_follower_def
      save_state_def save_log_def append_entry_def term_at_def last_index_of_def raft_restart_def apply_committed_def
      apply_loop.simps sm_default_def sm_apply_def Let_def)

text \<open>
  A vote whose save failed is granted all the same, and forgotten by a restart: the node then grants
  the same term to another candidate.
\<close>

definition demo_vote :: "nat \<Rightarrow> RequestVoteReq" where
  "demo_vote c = \<lparr>rv_term = 1, rv_candidate_id = c, rv_last_log_index = 0, rv_last_log_term = 0\<rparr>"

lemma unsaved_vote_granted_twice:
  "let n0 = (raft_fresh 1 [2, 3])\<lparr>storage_ok := False\<rparr>; (n1, r1) = handle_request_vote n0 (demo_vote 2);
       (n2, r2) = handle_request_vote (raft_restart n1) (demo_vote 3)
   in vr_vote_granted r1 \<and> vr_vote_granted r2 \<and> vr_term r1 = 1 \<and> vr_term r2 = 1"
  by (simp add: handle_request_vote_def raft_fresh_def demo_vote_def become_follower_def save_state_def raft_restart_def
      is_candidate_log_ok_def last_log_term_def last_log_index_def last_index_of_def Let_def)

text \<open>
  A proposal of a deposed leader is answered with success when another command is committed at its
  index: the reply on channel 7 is \<open>Ok\<close> although the proposed command is not in the log.
\<close>

lemma overwritten_proposal_acknowledged:
  "\<exists>n resp. handle_append_entries
       (handle_propose ((raft_fresh 1 [2, 3])\<lparr>current_term := 1, role := Leader\<rparr>) (DeleteCollection ''mine'') 7)
       (demo_append 2 1 [demo_entry 2 1 ''other'']) = (n, resp)
     \<and> replies (fst (apply_committed (n, sm_default))) = [(7, Inr ())]
     \<and> log n = [demo_entry 2 1 ''other'']"
  by (simp add: handle_append_entries_def handle_propose_def raft_fresh_def demo_append_def demo_entry_def
      become_follower_def save_state_def save_log_def append_entry_def term_at_def retain_below_def last_index_of_def
      last_log_index_def apply_committed_def notify_committed_proposals_def Let_def)

section \<open>Witnesses\<close>



text \<open>A cluster of three in which node 1 wins term 1 with the vote of node 2; node 3 is unreachable.\<close>

definition demo_cluster :: "unit cluster" where
  "demo_cluster = \<lparr>nodes = (\<lambda>i. (raft_fresh i (filter (\<lambda>j. j \<noteq> i) [1, 2, 3]), sm_default)),
     electing = {}, granted = {}, elected = {}\<rparr>"

lemma demo_cluster_start: "cluster_start [1, 2, 3] demo_cluster"
  by (auto simp: cluster_start_def demo_cluster_def member_ok_def raft_fresh_def)

lemma demo_cluster_run:
  "\<exists>c. (cluster_step [1, 2, 3])\<^sup>*\<^sup>* demo_cluster c \<and> (1, 1) \<in> elected c \<and> (1, 2, 1) \<in> granted c"
proof -
  let ?n1 = "begin_election (raft_fresh 1 [2, 3])"
  let ?c1 = "demo_cluster\<lparr>nodes := (nodes demo_cluster)(1 := (?n1, sm_default)), electing := {1}, granted := {(1, 1, 1)}\<rparr>"
  let ?v = "handle_request_vote (raft_fresh 2 [1, 3]) (vote_request ?n1)"
  let ?c2 = "?c1\<lparr>nodes := (nodes ?c1)(2 := (fst ?v, sm_default)), granted := {(1, 2, 1), (1, 1, 1)}\<rparr>"
  let ?res = "[(2, Some (snd ?v)), (3, None)]"
  let ?c3 = "?c2\<lparr>nodes := (nodes ?c2)(1 := finish_election ?res (\<lambda>_ _. None) (?n1, sm_default)), electing := {},
     elected := {(1, 1)}\<rparr>"
  have t: "current_term ?n1 = 1" "peers ?n1 = [2, 3]"
    by (simp_all add: begin_election_def raft_fresh_def save_state_def)
  have v: "vr_vote_granted (snd ?v)" "vr_term (snd ?v) = 1" "rv_candidate_id (vote_request ?n1) = 1"
    by (simp_all add: handle_request_vote_def vote_request_def begin_election_def raft_fresh_def save_state_def
        become_follower_def is_candidate_log_ok_def last_log_term_def last_log_index_def last_index_of_def Let_def)
  have w: "wins ?res ?n1"
    using v by (simp add: wins_def vote_result_def t quorum_size_def)
      (simp add: begin_election_def raft_fresh_def save_state_def)
  have "cluster_step [1, 2, 3] demo_cluster ?c1"
    using cluster_step.Begin_election [of 1 "[1, 2, 3]" demo_cluster "raft_fresh 1 [2, 3]" sm_default ?n1] t
    by (simp add: demo_cluster_def)
  moreover have "cluster_step [1, 2, 3] ?c1 ?c2"
    using cluster_step.Vote [of 2 "[1, 2, 3]" ?c1 "raft_fresh 2 [1, 3]" sm_default "vote_request ?n1" "fst ?v" "snd ?v"] v
    by (simp add: demo_cluster_def)
  moreover have "cluster_step [1, 2, 3] ?c2 ?c3"
    using cluster_step.Finish_election [of 1 ?c2 ?n1 sm_default ?res "[1, 2, 3]" "\<lambda>_ _. None"] w t
    by (simp add: demo_cluster_def)
  ultimately have "(cluster_step [1, 2, 3])\<^sup>*\<^sup>* demo_cluster ?c3"
    by (meson rtranclp.rtrancl_into_rtrancl rtranclp.rtrancl_refl)
  then show ?thesis by (intro exI [of _ ?c3]) simp
qed



text \<open>
  Candidates block each other: the members can all wait for the votes of the others at once, and
  while they wait none of them serves a request, so no vote is granted before a call fails or a
  member restarts. The calls have no deadline.
\<close>

lemma simultaneous_elections_block:
  "\<exists>c. (cluster_step [1, 2])\<^sup>*\<^sup>* demo_cluster c \<and> electing c = {1, 2}
     \<and> (\<forall>c'. cluster_step [1, 2] c c' \<longrightarrow> granted c' = granted c)"
proof -
  let ?n1 = "begin_election (fst (nodes demo_cluster 1))" and ?n2 = "begin_election (fst (nodes demo_cluster 2))"
  let ?c1 = "demo_cluster\<lparr>nodes := (nodes demo_cluster)(1 := (?n1, sm_default)), electing := insert 1 (electing demo_cluster),
    granted := insert (current_term ?n1, 1, 1) (granted demo_cluster)\<rparr>"
  let ?c2 = "?c1\<lparr>nodes := (nodes ?c1)(2 := (?n2, sm_default)), electing := insert 2 (electing ?c1),
    granted := insert (current_term ?n2, 2, 2) (granted ?c1)\<rparr>"
  have "cluster_step [1, 2] demo_cluster ?c1"
    by (rule cluster_step.Begin_election) (simp_all add: demo_cluster_def)
  moreover have "cluster_step [1, 2] ?c1 ?c2"
    by (rule cluster_step.Begin_election) (simp_all add: demo_cluster_def)
  ultimately have "(cluster_step [1, 2])\<^sup>*\<^sup>* demo_cluster ?c2"
    by (meson rtranclp.rtrancl_into_rtrancl rtranclp.rtrancl_refl)
  moreover have e: "electing ?c2 = {1, 2}" by (auto simp: demo_cluster_def)
  moreover have "granted c' = granted ?c2" if "cluster_step [1, 2] ?c2 c'" for c'
    using that by cases (use e in auto)
  ultimately show ?thesis by blast
qed

end
