(* ===== verification/Key_Encoding.thy ===== *)
theory Key_Encoding
  imports Graph_Types "HOL-Library.Sublist" "HOL-Library.Option_ord" "HOL-Library.Product_Lexorder"
begin

text \<open>
  The relational key encoding of \<open>chirondb-core/src/relational/key_encoding.rs\<close>, over the types and
  values of \<open>chirondb-types/src/relational.rs\<close>: the ordered encoding of a column, row keys, index
  keys and prefixes, and the equality encoding.

  A Rust string is its UTF-8 bytes. A float is its bit pattern; \<open>f64_num\<close> and \<open>f32_num\<close> read the
  number it stands for, in units of the smallest subnormal, with the infinities just above the
  largest finite numbers. An \<open>i64\<close> is a 64-bit word read by \<open>sint\<close>. What the \<open>chrono\<close> and
  \<open>serde_json\<close> crates compute is the parameter record \<open>key_ext\<close>: the day number of a date, the
  seconds and nanoseconds of a timestamp, its canonical text, and the text of a JSON value. Keys
  are written to a \<open>Vec\<close>; the writer that charges a memory budget appends the same bytes or fails.

  Main results: the byte order of keys is the order of what they encode, table or index first, then
  the columns, then the newest commit; and a prefix scan finds exactly the keys of its columns.
\<close>

unbundle bit_operations_syntax

type_synonym rstr = "byte list"

section \<open>Types and values\<close>

datatype RelationalType =
    RT_Boolean | RT_SmallInt | RT_Integer | RT_BigInt | RT_Real | RT_Float
  | RT_Decimal (precision: nat) (scale: nat)
  | RT_Text
  | RT_Varchar nat
  | RT_Bytea | RT_Date | RT_TimestampUtc | RT_Uuid | RT_Jsonb
  | RT_Vector (dimension: nat)
  | RT_RecordRef rstr

record RecordRef =
  rr_namespace :: rstr
  rr_id :: rstr

datatype 'j RelationalValue =
    RV_Null
  | RV_Boolean bool
  | RV_Integer u64
  | RV_Float u64
  | RV_Decimal rstr
  | RV_Text rstr
  | RV_Bytes "byte list"
  | RV_Date rstr
  | RV_TimestampUtc rstr
  | RV_Uuid "128 word"
  | RV_Json 'j
  | RV_Vector "u32 list"
  | RV_RecordRef RecordRef

record 'j key_ext =
  date_days :: "rstr \<Rightarrow> u32 option"
  ts_parts :: "rstr \<Rightarrow> (u64 \<times> u32) option"
  ts_canonical :: "rstr \<Rightarrow> rstr option"
  json_vec :: "'j \<Rightarrow> rstr option"

datatype key_msg =
    Row_key_zero_id | Hidden_row_zero | Index_key_zero_id | Index_prefix_zero_id | Too_many_columns
  | Invalid_date | Invalid_timestamp | Cannot_encode_json | Vector_dimension | Record_ref_namespace
  | Value_type_mismatch | Decimal_scale | Decimal_range

definition KEY_ENCODING_VERSION :: byte where "KEY_ENCODING_VERSION = 1"
definition ROW_MAGIC :: "byte list" where "ROW_MAGIC = [82, 75]"
definition INDEX_MAGIC :: "byte list" where "INDEX_MAGIC = [73, 75]"
definition TAG_NULL :: byte where "TAG_NULL = 0"
definition TAG_BOOL :: byte where "TAG_BOOL = 1"
definition TAG_INTEGER :: byte where "TAG_INTEGER = 2"
definition TAG_FLOAT64 :: byte where "TAG_FLOAT64 = 3"
definition TAG_DECIMAL :: byte where "TAG_DECIMAL = 4"
definition TAG_TEXT :: byte where "TAG_TEXT = 5"
definition TAG_BYTES :: byte where "TAG_BYTES = 6"
definition TAG_DATE :: byte where "TAG_DATE = 7"
definition TAG_TIMESTAMP :: byte where "TAG_TIMESTAMP = 8"
definition TAG_UUID :: byte where "TAG_UUID = 9"
definition TAG_JSONB :: byte where "TAG_JSONB = 10"
definition TAG_VECTOR :: byte where "TAG_VECTOR = 11"
definition TAG_RECORD_REF :: byte where "TAG_RECORD_REF = 12"
definition TAG_FLOAT32 :: byte where "TAG_FLOAT32 = 13"

section \<open>Floats\<close>

text \<open>The magnitude of the low bits of a float with \<open>p\<close> fraction bits, in units of the least subnormal.\<close>

definition mag_units :: "nat \<Rightarrow> nat \<Rightarrow> nat" where
  "mag_units p m = (let e = m div 2 ^ p; f = m mod 2 ^ p in if e = 0 then f else (2 ^ p + f) * 2 ^ (e - 1))"

definition f64_num :: "u64 \<Rightarrow> int" where
  "f64_num w = (let m = int (mag_units 52 (unat w mod 2 ^ 63)) in if unat w < 2 ^ 63 then m else - m)"

definition f32_num :: "u32 \<Rightarrow> int" where
  "f32_num w = (let m = int (mag_units 23 (unat w mod 2 ^ 31)) in if unat w < 2 ^ 31 then m else - m)"

fun bit_length :: "nat \<Rightarrow> nat" where
  "bit_length n = (if n = 0 then 0 else Suc (bit_length (n div 2)))"

declare bit_length.simps [simp del]

text \<open>Division by a power of two, rounded to the nearest, ties to even.\<close>

definition round_shift :: "nat \<Rightarrow> nat \<Rightarrow> nat" where
  "round_shift n s =
     (let q = n div 2 ^ s; r = n mod 2 ^ s in
      if 2 * r > 2 ^ s \<or> (2 * r = 2 ^ s \<and> odd q) then q + 1 else q)"

text \<open>The cast \<open>as f32\<close> of a double.\<close>

definition f64_as_f32 :: "u64 \<Rightarrow> u32" where
  "f64_as_f32 w =
     (let m = unat w mod 2 ^ 63; e = m div 2 ^ 52; f = m mod 2 ^ 52;
          magnitude =
            (if e = 2047 then if f = 0 then 0x7f800000 else 0x7fc00000 + f div 2 ^ 29 mod 2 ^ 22
             else let u = mag_units 52 m; x = bit_length u - 949 in
                  min (x * 2 ^ 23 + round_shift u (925 + x)) 0x7f800000)
      in word_of_nat (magnitude + (if unat w < 2 ^ 63 then 0 else 2 ^ 31)))"

definition ordered_f64 :: "u64 \<Rightarrow> u64" where
  "ordered_f64 v =
     (let bits = (if f64_num v = 0 then 0 else v) in
      if bits AND push_bit 63 1 \<noteq> 0 then NOT bits else bits XOR push_bit 63 1)"

definition ordered_f32 :: "u32 \<Rightarrow> u32" where
  "ordered_f32 v =
     (let bits = (if f32_num v = 0 then 0 else v) in
      if bits AND push_bit 31 1 \<noteq> 0 then NOT bits else bits XOR push_bit 31 1)"

section \<open>Decimals\<close>

abbreviation ch_minus :: byte where "ch_minus \<equiv> 45"
abbreviation ch_plus :: byte where "ch_plus \<equiv> 43"
abbreviation ch_dot :: byte where "ch_dot \<equiv> 46"
abbreviation ch_zero :: byte where "ch_zero \<equiv> 48"

definition is_digit :: "byte \<Rightarrow> bool" where
  "is_digit b \<longleftrightarrow> ch_zero \<le> b \<and> b \<le> 57"

fun split_once :: "byte \<Rightarrow> rstr \<Rightarrow> (rstr \<times> rstr) option" where
  "split_once c [] = None"
| "split_once c (b # bs) =
     (if b = c then Some ([], bs) else map_option (\<lambda>(x, y). (b # x, y)) (split_once c bs))"

definition strip_minus :: "rstr \<Rightarrow> bool \<times> rstr" where
  "strip_minus v = (case v of b # bs \<Rightarrow> if b = ch_minus then (True, bs) else (False, v) | [] \<Rightarrow> (False, v))"

definition split_point :: "rstr \<Rightarrow> rstr \<times> rstr" where
  "split_point v = (case split_once ch_dot v of None \<Rightarrow> (v, []) | Some p \<Rightarrow> p)"

definition trim_start_zeros :: "rstr \<Rightarrow> rstr" where
  "trim_start_zeros v = dropWhile (\<lambda>b. b = ch_zero) v"

definition trim_end_zeros :: "rstr \<Rightarrow> rstr" where
  "trim_end_zeros v = rev (dropWhile (\<lambda>b. b = ch_zero) (rev v))"

definition canonical_decimal :: "rstr \<Rightarrow> rstr" where
  "canonical_decimal value =
     (case strip_minus value of (negative, rest) \<Rightarrow>
       (case split_point rest of (whole, fraction) \<Rightarrow>
         let whole = trim_start_zeros whole;
             whole = (if whole = [] then [ch_zero] else whole);
             fraction = trim_end_zeros fraction;
             zero = (whole = [ch_zero] \<and> fraction = [])
         in (if negative \<and> \<not> zero then [ch_minus] else []) @ whole
            @ (if fraction = [] then [] else ch_dot # fraction)))"

text \<open>\<open>str::parse::<i128>\<close>: an optional sign, then at least one decimal digit, in range.\<close>

definition digits_value :: "rstr \<Rightarrow> int" where
  "digits_value ds = foldl (\<lambda>n d. 10 * n + (int (unat d) - 48)) 0 ds"

definition parse_i128 :: "rstr \<Rightarrow> int option" where
  "parse_i128 v =
     (let (neg, ds) = (case v of
            b # bs \<Rightarrow> if b = ch_minus \<and> bs \<noteq> [] then (True, bs)
                      else if b = ch_plus \<and> bs \<noteq> [] then (False, bs) else (False, v)
          | [] \<Rightarrow> (False, v)) in
      if ds = [] \<or> \<not> list_all is_digit ds then None
      else let n = (if neg then - digits_value ds else digits_value ds) in
           if - (2 ^ 127) \<le> n \<and> n < 2 ^ 127 then Some n else None)"

text \<open>Negation at 128 bits, where the least value is its own negation.\<close>

definition neg_i128 :: "int \<Rightarrow> int" where
  "neg_i128 n = (if n = - (2 ^ 127) then n else - n)"

definition scaled_decimal :: "rstr \<Rightarrow> nat \<Rightarrow> (key_msg, int) result" where
  "scaled_decimal value sc =
     (case strip_minus (canonical_decimal value) of (negative, rest) \<Rightarrow>
       (case split_point rest of (whole, fraction) \<Rightarrow>
         if length fraction > sc then Inl (InvalidRequest Decimal_scale)
         else let digits = (if whole = [] then [ch_zero] else whole) @ fraction
                           @ replicate (sc - length fraction) ch_zero in
         bindE (ok_or (InvalidRequest Decimal_range) (parse_i128 digits)) (\<lambda>magnitude.
         Inr (if negative then neg_i128 magnitude else magnitude))))"

section \<open>Encoding\<close>

fun append_escaped :: "byte list \<Rightarrow> byte list" where
  "append_escaped [] = [0, 0]"
| "append_escaped (b # bs) = (if b = 0 then 0 # 0xff # append_escaped bs else b # append_escaped bs)"

definition append_framed :: "byte list \<Rightarrow> byte list" where
  "append_framed v = to_be 8 (length v) @ v"

text \<open>\<open>i128::to_be_bytes\<close> with the sign bit flipped.\<close>

definition i128_be :: "int \<Rightarrow> byte list" where
  "i128_be n = to_be 16 (nat (n mod 2 ^ 128))"

definition flip_sign :: "byte list \<Rightarrow> byte list" where
  "flip_sign bs = bs[0 := bs ! 0 XOR 0x80]"

definition encode_ordered_value ::
  "'j key_ext \<Rightarrow> RelationalType \<Rightarrow> 'j RelationalValue \<Rightarrow> (key_msg, byte list) result" where
  "encode_ordered_value ext t v =
     (if v = RV_Null then Inr [TAG_NULL]
      else case (t, v) of
        (RT_Boolean, RV_Boolean b) \<Rightarrow> Inr [TAG_BOOL, of_bool b]
      | (RT_SmallInt, RV_Integer i) \<Rightarrow> Inr (TAG_INTEGER # to_be 8 (unat (i XOR push_bit 63 1)))
      | (RT_Integer, RV_Integer i) \<Rightarrow> Inr (TAG_INTEGER # to_be 8 (unat (i XOR push_bit 63 1)))
      | (RT_BigInt, RV_Integer i) \<Rightarrow> Inr (TAG_INTEGER # to_be 8 (unat (i XOR push_bit 63 1)))
      | (RT_Real, RV_Float f) \<Rightarrow> Inr (TAG_FLOAT32 # to_be 4 (unat (ordered_f32 (f64_as_f32 f))))
      | (RT_Float, RV_Float f) \<Rightarrow> Inr (TAG_FLOAT64 # to_be 8 (unat (ordered_f64 f)))
      | (RT_Decimal p sc, RV_Decimal d) \<Rightarrow>
          bindE (scaled_decimal d sc) (\<lambda>n. Inr (TAG_DECIMAL # flip_sign (i128_be n)))
      | (RT_Text, RV_Text s) \<Rightarrow> Inr (TAG_TEXT # append_escaped s)
      | (RT_Varchar n, RV_Text s) \<Rightarrow> Inr (TAG_TEXT # append_escaped s)
      | (RT_Bytea, RV_Bytes s) \<Rightarrow> Inr (TAG_BYTES # append_escaped s)
      | (RT_Date, RV_Date d) \<Rightarrow>
          bindE (ok_or (InvalidRequest Invalid_date) (date_days ext d)) (\<lambda>days.
          Inr (TAG_DATE # to_be 4 (unat (days XOR push_bit 31 1))))
      | (RT_TimestampUtc, RV_TimestampUtc d) \<Rightarrow>
          bindE (ok_or (InvalidRequest Invalid_timestamp) (ts_parts ext d)) (\<lambda>(secs, nanos).
          Inr (TAG_TIMESTAMP # flip_sign (i128_be (sint secs * 1000000000 + int (unat nanos)))))
      | (RT_Uuid, RV_Uuid u) \<Rightarrow> Inr (TAG_UUID # to_be 16 (unat u))
      | (RT_Jsonb, RV_Json j) \<Rightarrow>
          bindE (ok_or (InvalidRequest Cannot_encode_json) (json_vec ext j)) (\<lambda>s.
          Inr (TAG_JSONB # append_escaped s))
      | (RT_Vector dim, RV_Vector cs) \<Rightarrow>
          if length cs \<noteq> dim then Inl (InvalidRequest Vector_dimension)
          else Inr (TAG_VECTOR # to_be 4 dim @ concat (map (\<lambda>c. to_be 4 (unat (ordered_f32 c))) cs))
      | (RT_RecordRef ns, RV_RecordRef r) \<Rightarrow>
          if rr_namespace r \<noteq> ns then Inl (InvalidRequest Record_ref_namespace)
          else Inr (TAG_RECORD_REF # append_escaped (rr_namespace r) @ append_escaped (rr_id r))
      | _ \<Rightarrow> Inl (InvalidRequest Value_type_mismatch))"

type_synonym 'j columns = "(RelationalType \<times> 'j RelationalValue) list"

definition encode_column_tuple :: "'j key_ext \<Rightarrow> 'j columns \<Rightarrow> (key_msg, byte list) result" where
  "encode_column_tuple ext cols =
     (if length cols \<ge> 2 ^ 16 then Inl (InvalidRequest Too_many_columns)
      else bindE (mapE (\<lambda>(t, v). encode_ordered_value ext t v) cols) (\<lambda>parts.
      Inr (to_be 2 (length cols) @ concat parts)))"

datatype 'j RowIdentityKey = Primary "'j columns" | Hidden u64

definition encode_identity :: "'j key_ext \<Rightarrow> 'j RowIdentityKey \<Rightarrow> (key_msg, byte list) result" where
  "encode_identity ext ident =
     (case ident of
        Hidden row \<Rightarrow>
          if row = 0 then Inl (InvalidRequest Hidden_row_zero) else Inr (0 # to_be 8 (unat row))
      | Primary cols \<Rightarrow> bindE (encode_column_tuple ext cols) (\<lambda>bs. Inr (1 # bs)))"

definition encode_row_key_v1 ::
  "'j key_ext \<Rightarrow> u64 \<Rightarrow> 'j RowIdentityKey \<Rightarrow> u64 \<Rightarrow> (key_msg, byte list) result" where
  "encode_row_key_v1 ext table_id ident commit =
     (if table_id = 0 \<or> commit = 0 then Inl (InvalidRequest Row_key_zero_id)
      else bindE (encode_identity ext ident) (\<lambda>bs.
      Inr (ROW_MAGIC @ [KEY_ENCODING_VERSION] @ to_be 8 (unat table_id) @ bs @ to_be 8 (unat (NOT commit)))))"

definition encode_index_prefix_v1 ::
  "'j key_ext \<Rightarrow> u64 \<Rightarrow> 'j columns \<Rightarrow> (key_msg, byte list) result" where
  "encode_index_prefix_v1 ext index_id cols =
     (if index_id = 0 then Inl (InvalidRequest Index_prefix_zero_id)
      else bindE (encode_column_tuple ext cols) (\<lambda>bs.
      Inr (INDEX_MAGIC @ [KEY_ENCODING_VERSION] @ to_be 8 (unat index_id) @ bs)))"

definition encode_index_key_v1 ::
  "'j key_ext \<Rightarrow> u64 \<Rightarrow> 'j columns \<Rightarrow> u64 \<Rightarrow> u64 \<Rightarrow> (key_msg, byte list) result" where
  "encode_index_key_v1 ext index_id cols row_id commit =
     (if index_id = 0 \<or> row_id = 0 \<or> commit = 0 then Inl (InvalidRequest Index_key_zero_id)
      else bindE (encode_index_prefix_v1 ext index_id cols) (\<lambda>bs.
      Inr (bs @ to_be 8 (unat row_id) @ to_be 8 (unat (NOT commit)))))"

definition encode_equality_value :: "'j key_ext \<Rightarrow> 'j RelationalValue \<Rightarrow> byte list" where
  "encode_equality_value ext v =
     (case v of
        RV_Null \<Rightarrow> [TAG_NULL]
      | RV_Boolean b \<Rightarrow> [TAG_BOOL, of_bool b]
      | RV_Integer i \<Rightarrow> TAG_INTEGER # to_be 8 (unat i)
      | RV_Float f \<Rightarrow> TAG_FLOAT64 # to_be 8 (unat (if f64_num f = 0 then 0 else f))
      | RV_Decimal d \<Rightarrow> TAG_DECIMAL # append_framed (canonical_decimal d)
      | RV_Text s \<Rightarrow> TAG_TEXT # append_framed s
      | RV_Bytes s \<Rightarrow> TAG_BYTES # append_framed s
      | RV_Date s \<Rightarrow> TAG_DATE # append_framed s
      | RV_TimestampUtc s \<Rightarrow>
          TAG_TIMESTAMP # append_framed (case ts_canonical ext s of None \<Rightarrow> s | Some c \<Rightarrow> c)
      | RV_Uuid u \<Rightarrow> TAG_UUID # to_be 16 (unat u)
      | RV_Json j \<Rightarrow>
          TAG_JSONB # append_framed (case json_vec ext j of None \<Rightarrow> [110, 117, 108, 108] | Some s \<Rightarrow> s)
      | RV_Vector cs \<Rightarrow>
          TAG_VECTOR # to_be 8 (length cs)
          @ concat (map (\<lambda>c. to_be 4 (unat (if f32_num c = 0 then 0 else c))) cs)
      | RV_RecordRef r \<Rightarrow> TAG_RECORD_REF # append_framed (rr_namespace r) @ append_framed (rr_id r))"

section \<open>Order embeddings of byte strings\<close>

text \<open>
  Two encodings are placed: whatever follows them, their order is decided by \<open>L\<close> (the first sorts
  before the second) or, where they are alike (\<open>E\<close>), by what follows. This is an order-preserving
  encoding without ambiguous component boundaries.
\<close>

definition placed :: "byte list \<Rightarrow> byte list \<Rightarrow> bool \<Rightarrow> bool \<Rightarrow> bool" where
  "placed a b L E \<longleftrightarrow> (\<forall>x y. a @ x < b @ y \<longleftrightarrow> L \<or> E \<and> x < y)"

lemma placed_same_length: "length a = length b \<Longrightarrow> placed a b (a < b) (a = b)"
  by (simp add: placed_def less_append_same_length)

lemma placed_append: "placed a b L E \<Longrightarrow> placed a' b' L' E' \<Longrightarrow> placed (a @ a') (b @ b') (L \<or> E \<and> L') (E \<and> E')"
  by (auto simp: placed_def)

lemma placed_cong: "placed a b L E \<Longrightarrow> (L \<longleftrightarrow> L') \<Longrightarrow> (E \<longleftrightarrow> E') \<Longrightarrow> placed a b L' E'"
  by simp

lemma placed_same: "placed a a False True"
  by (simp add: placed_def less_append_same_length)

lemma placed_Cons: "placed a b L E \<Longrightarrow> placed (c # a) (c # b) L E"
  by (simp add: placed_def)

lemma placed_heads: "c \<noteq> d \<Longrightarrow> placed (c # a) (d # b) (c < d) False"
  by (auto simp: placed_def)

lemma placed_to_be:
  assumes "m < 256 ^ w" and "n < 256 ^ w"
  shows "placed (to_be w m) (to_be w n) (m < n) (m = n)"
  using placed_same_length [of "to_be w m" "to_be w n"] to_be_less [OF assms] to_be_inject [OF assms]
  by simp

lemma placed_escaped: "placed (append_escaped s) (append_escaped t) (s < t) (s = t)"
proof (induction s arbitrary: t)
  case Nil
  show ?case
  proof (cases t)
    case (Cons b bs)
    have "placed [0, 0] (append_escaped (b # bs)) True False"
      by (cases "b = 0") (auto simp: placed_def word_gt_0 order_le_less)
    with Cons show ?thesis by simp
  qed (simp add: placed_same)
next
  case (Cons a s)
  show ?case
  proof (cases t)
    case Nil
    have "placed (append_escaped (a # s)) [0, 0] False False"
      by (cases "a = 0") (auto simp: placed_def word_gt_0)
    with Nil show ?thesis by simp
  next
    case t: (Cons b bs)
    show ?thesis
    proof (cases "a = b")
      case True
      with Cons.IH [of bs] t show ?thesis by (auto intro: placed_Cons)
    next
      case False
      have "placed (append_escaped (a # s)) (append_escaped (b # bs)) (a < b) False"
        using False by (cases "a = 0"; cases "b = 0") (auto simp: placed_def word_gt_0)
      with False t show ?thesis by simp
    qed
  qed
qed

text \<open>A prefix can only be found where the two are alike.\<close>

lemma placed_prefix:
  assumes "placed a b L E" and "placed b a L' E" and "\<not> E \<Longrightarrow> L \<or> L'" and "E \<Longrightarrow> a = b"
  shows "prefix a (b @ z) \<longleftrightarrow> E"
proof
  assume "prefix a (b @ z)"
  then obtain r where r: "b @ z = a @ r" by (auto simp: prefix_def)
  then have "\<not> a @ r < b @ z" "\<not> b @ z < a @ r" by simp_all
  with assms(1,2) show E using assms(3) unfolding placed_def by blast
qed (use assms(4) in auto)

section \<open>Numbers\<close>

lemma mag_units_mono_step: "mag_units p m < mag_units p (Suc m)"
proof -
  let ?e = "m div 2 ^ p" and ?f = "m mod 2 ^ p"
  have f: "?f < 2 ^ p" by simp
  show ?thesis
  proof (cases "Suc ?f < 2 ^ p")
    case True
    then have "Suc m div 2 ^ p = ?e" "Suc m mod 2 ^ p = Suc ?f"
      by (simp_all add: div_Suc mod_Suc)
    then show ?thesis by (simp add: mag_units_def Let_def)
  next
    case False
    with f have eq: "Suc ?f = 2 ^ p" by linarith
    then have d: "Suc m div 2 ^ p = Suc ?e" "Suc m mod 2 ^ p = 0"
      by (simp_all add: div_Suc mod_Suc)
    show ?thesis
    proof (cases ?e)
      case 0
      then show ?thesis using f by (simp add: mag_units_def d)
    next
      case (Suc k)
      have "(2 ^ p + ?f) * 2 ^ k < (2 ^ p + 2 ^ p) * 2 ^ k" using f by simp
      then show ?thesis by (simp add: mag_units_def d Suc)
    qed
  qed
qed

lemma mag_units_less: "mag_units p m < mag_units p n \<longleftrightarrow> m < n"
  using strict_mono_less [of "mag_units p"] mag_units_mono_step by (simp add: strict_mono_Suc_iff)

lemma mag_units_eq: "mag_units p m = mag_units p n \<longleftrightarrow> m = n"
  by (metis mag_units_less nat_neq_iff)

lemma mag_units_0 [simp]: "mag_units p 0 = 0"
  by (simp add: mag_units_def)

lemma mag_units_eq_0: "mag_units p m = 0 \<longleftrightarrow> m = 0"
  using mag_units_eq [of p m 0] by simp

lemma odd_div_iff: "n < 2 * m \<Longrightarrow> odd (n div m) \<longleftrightarrow> m \<le> (n :: nat)"
proof (cases "m \<le> n")
  case True
  moreover assume "n < 2 * m"
  ultimately have "n div m = 1" by (intro div_nat_eqI) auto
  with True show ?thesis by simp
qed simp

lemma bit_top: "bit (w :: u64) 63 \<longleftrightarrow> 2 ^ 63 \<le> unat w" "bit (v :: u32) 31 \<longleftrightarrow> 2 ^ 31 \<le> unat v"
    "bit (b :: byte) 7 \<longleftrightarrow> 2 ^ 7 \<le> unat b"
proof -
  have "unat w < 2 ^ LENGTH(64)" "unat v < 2 ^ LENGTH(32)" "unat b < 2 ^ LENGTH(8)" by (rule unsigned_less)+
  moreover have "bit w 63 \<longleftrightarrow> bit (unat w) 63" "bit v 31 \<longleftrightarrow> bit (unat v) 31" "bit b 7 \<longleftrightarrow> bit (unat b) 7"
    by (simp_all add: bit_unsigned_iff)
  ultimately show "bit w 63 \<longleftrightarrow> 2 ^ 63 \<le> unat w" "bit v 31 \<longleftrightarrow> 2 ^ 31 \<le> unat v" "bit b 7 \<longleftrightarrow> 2 ^ 7 \<le> unat b"
    using odd_div_iff [of "unat w" "2 ^ 63"] odd_div_iff [of "unat v" "2 ^ 31"] odd_div_iff [of "unat b" "2 ^ 7"]
    by (simp_all add: bit_iff_odd)
qed

text \<open>Flipping the top bit adds or removes its weight.\<close>

lemma xor_bit_clear:
  fixes w :: "'a::len word"
  assumes "\<not> bit w k"
  shows "w XOR push_bit k 1 = w + push_bit k 1"
proof -
  have "w AND push_bit k 1 = 0"
    by (rule bit_word_eqI) (use assms in \<open>auto simp: bit_simps\<close>)
  then show ?thesis by (simp add: disjunctive_add_eq_xor)
qed

lemma flip_top64: "unat (w XOR push_bit 63 1 :: u64) = (if unat w < 2 ^ 63 then unat w + 2 ^ 63 else unat w - 2 ^ 63)"
proof -
  have small: "unat (v XOR push_bit 63 1) = unat v + 2 ^ 63" if "unat v < 2 ^ 63" for v :: u64
    using that xor_bit_clear [of v 63] by (simp add: bit_top unat_word_ariths)
  show ?thesis
  proof (cases "unat w < 2 ^ 63")
    case False
    let ?v = "w XOR push_bit 63 1"
    have "bit w 63" using False by (simp add: bit_top)
    then have "\<not> bit ?v 63" by (simp add: bit_simps)
    then have "unat ?v < 2 ^ 63" by (simp add: bit_top)
    from small [OF this] have "unat w = unat ?v + 2 ^ 63" by (simp add: xor.assoc)
    with False show ?thesis by simp
  qed (use small in simp)
qed

lemma flip_top32: "unat (w XOR push_bit 31 1 :: u32) = (if unat w < 2 ^ 31 then unat w + 2 ^ 31 else unat w - 2 ^ 31)"
proof -
  have small: "unat (v XOR push_bit 31 1) = unat v + 2 ^ 31" if "unat v < 2 ^ 31" for v :: u32
    using that xor_bit_clear [of v 31] by (simp add: bit_top unat_word_ariths)
  show ?thesis
  proof (cases "unat w < 2 ^ 31")
    case False
    let ?v = "w XOR push_bit 31 1"
    have "bit w 31" using False by (simp add: bit_top)
    then have "\<not> bit ?v 31" by (simp add: bit_simps)
    then have "unat ?v < 2 ^ 31" by (simp add: bit_top)
    from small [OF this] have "unat w = unat ?v + 2 ^ 31" by (simp add: xor.assoc)
    with False show ?thesis by simp
  qed (use small in simp)
qed

lemma flip_top8: "unat (w XOR 0x80 :: byte) = (if unat w < 128 then unat w + 128 else unat w - 128)"
proof -
  have p: "(0x80 :: byte) = push_bit 7 1" by simp
  have small: "unat (v XOR push_bit 7 1) = unat v + 128" if "unat v < 128" for v :: byte
    using that xor_bit_clear [of v 7] by (simp add: bit_top unat_word_ariths)
  show ?thesis
    unfolding p
  proof (cases "unat w < 128")
    case False
    let ?v = "w XOR push_bit 7 1"
    have "bit w 7" using False by (simp add: bit_top)
    then have "\<not> bit ?v 7" by (simp add: bit_simps)
    then have "unat ?v < 128" by (simp add: bit_top)
    from small [OF this] have "unat w = unat ?v + 128" by (simp add: xor.assoc)
    with False show "unat ?v = (if unat w < 128 then unat w + 128 else unat w - 128)" by simp
  qed (use small in simp)
qed

lemma sint_of_unat:
  "sint (w :: u64) = (if unat w < 2 ^ 63 then int (unat w) else int (unat w) - 2 ^ 64)"
  "sint (v :: u32) = (if unat v < 2 ^ 31 then int (unat v) else int (unat v) - 2 ^ 32)"
proof -
  have "uint w < 2 ^ LENGTH(64)" "uint v < 2 ^ LENGTH(32)" by (rule unsigned_less)+
  moreover have "bit (uint w) 63 \<longleftrightarrow> 2 ^ 63 \<le> unat w" "bit (uint v) 31 \<longleftrightarrow> 2 ^ 31 \<le> unat v"
    using bit_top(1) [of w] bit_top(2) [of v] by (simp_all add: bit_uint_iff)
  ultimately show
    "sint w = (if unat w < 2 ^ 63 then int (unat w) else int (unat w) - 2 ^ 64)"
    "sint v = (if unat v < 2 ^ 31 then int (unat v) else int (unat v) - 2 ^ 32)"
    by (simp_all add: sint_uint signed_take_bit_eq_take_bit_minus take_bit_eq_mod)
qed

lemma order_i64: "unat (a XOR push_bit 63 1 :: u64) < unat (b XOR push_bit 63 1 :: u64) \<longleftrightarrow> sint a < sint b"
  and order_i64_eq: "unat (a XOR push_bit 63 1 :: u64) = unat (b XOR push_bit 63 1 :: u64) \<longleftrightarrow> sint a = sint b"
proof -
  have "unat a < 2 ^ LENGTH(64)" "unat b < 2 ^ LENGTH(64)" by (rule unsigned_less)+
  then have "int (unat (a XOR push_bit 63 1)) = sint a + 2 ^ 63" "int (unat (b XOR push_bit 63 1)) = sint b + 2 ^ 63"
    unfolding flip_top64 sint_of_unat(1) by auto
  then show "unat (a XOR push_bit 63 1) < unat (b XOR push_bit 63 1) \<longleftrightarrow> sint a < sint b"
    "unat (a XOR push_bit 63 1) = unat (b XOR push_bit 63 1) \<longleftrightarrow> sint a = sint b" by linarith+
qed

lemma order_i32: "unat (a XOR push_bit 31 1 :: u32) < unat (b XOR push_bit 31 1 :: u32) \<longleftrightarrow> sint a < sint b"
  and order_i32_eq: "unat (a XOR push_bit 31 1 :: u32) = unat (b XOR push_bit 31 1 :: u32) \<longleftrightarrow> sint a = sint b"
proof -
  have "unat a < 2 ^ LENGTH(32)" "unat b < 2 ^ LENGTH(32)" by (rule unsigned_less)+
  then have "int (unat (a XOR push_bit 31 1)) = sint a + 2 ^ 31" "int (unat (b XOR push_bit 31 1)) = sint b + 2 ^ 31"
    unfolding flip_top32 sint_of_unat(2) by auto
  then show "unat (a XOR push_bit 31 1) < unat (b XOR push_bit 31 1) \<longleftrightarrow> sint a < sint b"
    "unat (a XOR push_bit 31 1) = unat (b XOR push_bit 31 1) \<longleftrightarrow> sint a = sint b" by linarith+
qed

lemma unat_not: "unat (NOT w :: u64) = 2 ^ 64 - 1 - unat w" "unat (NOT v :: u32) = 2 ^ 32 - 1 - unat v"
proof -
  have "unat (- 1 - w) = unat (- 1 :: u64) - unat w" "unat (- 1 - v) = unat (- 1 :: u32) - unat v"
    by (intro unat_sub word_n1_ge)+
  moreover have "NOT w = - 1 - w" "NOT v = - 1 - v" by (simp_all add: not_eq_complement)
  moreover have "unat (- 1 :: u64) = 2 ^ 64 - 1" "unat (- 1 :: u32) = 2 ^ 32 - 1"
    by (simp_all add: unsigned_minus_1_eq_mask mask_eq_exp_minus_1)
  ultimately show "unat (NOT w) = 2 ^ 64 - 1 - unat w" "unat (NOT v) = 2 ^ 32 - 1 - unat v" by simp_all
qed

text \<open>The ordered image of a float is its signed magnitude shifted to the naturals.\<close>

definition signed_mag :: "nat \<Rightarrow> nat \<Rightarrow> int" where
  "signed_mag k n = (if n < 2 ^ k then int n else - int (n mod 2 ^ k))"

definition signed_units :: "nat \<Rightarrow> int \<Rightarrow> int" where
  "signed_units p i = (if 0 \<le> i then int (mag_units p (nat i)) else - int (mag_units p (nat (- i))))"

lemma signed_units_less: "signed_units p i < signed_units p j \<longleftrightarrow> i < j"
proof -
  have pos: "0 < mag_units p (nat (- k))" if "k < 0" for k
    using that mag_units_eq_0 [of p "nat (- k)"] by simp
  consider "0 \<le> i" "0 \<le> j" | "0 \<le> i" "j < 0" | "i < 0" "0 \<le> j" | "i < 0" "j < 0" by linarith
  then show ?thesis
  proof cases
    case 1
    then show ?thesis by (auto simp: signed_units_def mag_units_less)
  next
    case 2
    then show ?thesis using pos [of j] by (simp add: signed_units_def)
  next
    case 3
    then show ?thesis using pos [of i] by (simp add: signed_units_def)
  next
    case 4
    then show ?thesis by (simp add: signed_units_def mag_units_less)
  qed
qed

lemma signed_units_eq: "signed_units p i = signed_units p j \<longleftrightarrow> i = j"
  by (metis linorder_neq_iff signed_units_less)

lemma signed_units_mag:
  "(if n < 2 ^ k then int (mag_units p (n mod 2 ^ k)) else - int (mag_units p (n mod 2 ^ k))) = signed_units p (signed_mag k n)"
proof (cases "n < 2 ^ k")
  case False
  then show ?thesis
    by (cases "n mod 2 ^ k = 0") (simp_all add: signed_units_def signed_mag_def)
qed (simp add: signed_units_def signed_mag_def)

lemma f64_num_signed: "f64_num w = signed_units 52 (signed_mag 63 (unat w))"
  unfolding f64_num_def Let_def by (rule signed_units_mag)

lemma f32_num_signed: "f32_num w = signed_units 23 (signed_mag 31 (unat w))"
  unfolding f32_num_def Let_def by (rule signed_units_mag)

lemma signed_units_0: "signed_units p i = 0 \<longleftrightarrow> i = 0"
  using signed_units_eq [of p i 0] by (simp add: signed_units_def)

lemma ordered_f64_unat:
  "int (unat (ordered_f64 w)) = (let s = signed_mag 63 (unat w) in if 0 \<le> s then 2 ^ 63 + s else 2 ^ 63 - 1 + s)"
proof -
  have lt: "unat w < 2 ^ LENGTH(64)" by (rule unsigned_less)
  have test: "v AND push_bit 63 1 \<noteq> 0 \<longleftrightarrow> 2 ^ 63 \<le> unat v" for v :: u64
    using bit_top(1) [of v] by (simp add: bit_iff_and_push_bit_not_eq_0)
  have z: "f64_num w = 0 \<longleftrightarrow> signed_mag 63 (unat w) = 0" by (simp add: f64_num_signed signed_units_0)
  consider "signed_mag 63 (unat w) = 0" | "unat w < 2 ^ 63" "signed_mag 63 (unat w) \<noteq> 0"
    | "2 ^ 63 \<le> unat w" "signed_mag 63 (unat w) \<noteq> 0" by linarith
  then show ?thesis
  proof cases
    case 1
    then show ?thesis using z test [of 0] flip_top64 [of 0] by (simp add: ordered_f64_def)
  next
    case 2
    then have "ordered_f64 w = w XOR push_bit 63 1" using z test [of w] by (simp add: ordered_f64_def)
    then show ?thesis using 2 flip_top64 [of w] by (simp add: signed_mag_def)
  next
    case 3
    then have "ordered_f64 w = NOT w" using z test [of w] by (simp add: ordered_f64_def)
    define n where "n = unat w"
    then have n: "2 ^ 63 \<le> n" "n < 2 ^ 64" "signed_mag 63 n \<noteq> 0" using 3 lt by auto
    have m: "n mod 2 ^ 63 = n - 2 ^ 63" using n by (simp add: mod_if)
    have u: "unat (ordered_f64 w) = 2 ^ 64 - 1 - n"
      unfolding n_def by (simp only: \<open>ordered_f64 w = NOT w\<close> unat_not(1))
    show ?thesis
      unfolding u n_def [symmetric] using n m by (simp add: signed_mag_def Let_def)
  qed
qed

lemma ordered_f32_unat:
  "int (unat (ordered_f32 w)) = (let s = signed_mag 31 (unat w) in if 0 \<le> s then 2 ^ 31 + s else 2 ^ 31 - 1 + s)"
proof -
  have lt: "unat w < 2 ^ LENGTH(32)" by (rule unsigned_less)
  have test: "v AND push_bit 31 1 \<noteq> 0 \<longleftrightarrow> 2 ^ 31 \<le> unat v" for v :: u32
    using bit_top(2) [of v] by (simp add: bit_iff_and_push_bit_not_eq_0)
  have z: "f32_num w = 0 \<longleftrightarrow> signed_mag 31 (unat w) = 0" by (simp add: f32_num_signed signed_units_0)
  consider "signed_mag 31 (unat w) = 0" | "unat w < 2 ^ 31" "signed_mag 31 (unat w) \<noteq> 0"
    | "2 ^ 31 \<le> unat w" "signed_mag 31 (unat w) \<noteq> 0" by linarith
  then show ?thesis
  proof cases
    case 1
    then show ?thesis using z test [of 0] flip_top32 [of 0] by (simp add: ordered_f32_def)
  next
    case 2
    then have "ordered_f32 w = w XOR push_bit 31 1" using z test [of w] by (simp add: ordered_f32_def)
    then show ?thesis using 2 flip_top32 [of w] by (simp add: signed_mag_def)
  next
    case 3
    then have "ordered_f32 w = NOT w" using z test [of w] by (simp add: ordered_f32_def)
    define n where "n = unat w"
    then have n: "2 ^ 31 \<le> n" "n < 2 ^ 32" "signed_mag 31 n \<noteq> 0" using 3 lt by auto
    have m: "n mod 2 ^ 31 = n - 2 ^ 31" using n by (simp add: mod_if)
    have u: "unat (ordered_f32 w) = 2 ^ 32 - 1 - n"
      unfolding n_def by (simp only: \<open>ordered_f32 w = NOT w\<close> unat_not(2))
    show ?thesis
      unfolding u n_def [symmetric] using n m by (simp add: signed_mag_def Let_def)
  qed
qed

lemma shifted_order:
  fixes x y :: nat
  assumes "int x = (let s = s in if 0 \<le> s then c + s else c - 1 + s)"
    and "int y = (let s = t in if 0 \<le> s then c + s else c - 1 + s)"
  shows "x < y \<longleftrightarrow> s < t" and "x = y \<longleftrightarrow> s = t"
  using assms by (auto simp: Let_def split: if_splits)

lemma order_f64: "unat (ordered_f64 a) < unat (ordered_f64 b) \<longleftrightarrow> f64_num a < f64_num b"
  and order_f64_eq: "unat (ordered_f64 a) = unat (ordered_f64 b) \<longleftrightarrow> f64_num a = f64_num b"
  unfolding f64_num_signed signed_units_less signed_units_eq
  by (rule shifted_order [OF ordered_f64_unat ordered_f64_unat])+

lemma order_f32: "unat (ordered_f32 a) < unat (ordered_f32 b) \<longleftrightarrow> f32_num a < f32_num b"
  and order_f32_eq: "unat (ordered_f32 a) = unat (ordered_f32 b) \<longleftrightarrow> f32_num a = f32_num b"
  unfolding f32_num_signed signed_units_less signed_units_eq
  by (rule shifted_order [OF ordered_f32_unat ordered_f32_unat])+

lemma to_be_add: "to_be w (n + k * 256 ^ w) = to_be w n"
proof -
  have "to_le w (n + k * 256 ^ w) = to_le w n"
  proof (induction w arbitrary: n)
    case (Suc w)
    have "n + k * 256 ^ Suc w = n + 256 * (k * 256 ^ w)" by simp
    then have "(n + k * 256 ^ Suc w) mod 256 = n mod 256" "(n + k * 256 ^ Suc w) div 256 = n div 256 + k * 256 ^ w"
      by (simp_all only: mod_mult_self2 div_mult_self2)
    then show ?case by (simp only: to_le.simps Suc.IH)
  qed simp
  then show ?thesis by (simp add: to_be_def)
qed

lemma to_be_hd: "to_be (Suc w) n = word_of_nat (n div 256 ^ w mod 256) # to_be w n"
proof (induction w arbitrary: n)
  case 0
  show ?case by (simp add: to_be_def)
next
  case (Suc w)
  have "to_be (Suc (Suc w)) n = to_be (Suc w) (n div 256) @ [word_of_nat (n mod 256)]" by (rule to_be_Suc)
  also have "\<dots> = word_of_nat (n div 256 div 256 ^ w mod 256) # to_be w (n div 256) @ [word_of_nat (n mod 256)]"
    by (simp add: Suc.IH)
  also have "to_be w (n div 256) @ [word_of_nat (n mod 256)] = to_be (Suc w) n" by (rule to_be_Suc [symmetric])
  finally show ?case by (simp add: div_mult2_eq)
qed

lemma flip_byte:
  assumes "t < 128"
  shows "(word_of_nat t XOR 0x80 :: byte) = word_of_nat (t + 128)" "(word_of_nat (t + 128) XOR 0x80 :: byte) = word_of_nat t"
proof -
  have u: "unat (word_of_nat t :: byte) = t" "unat (word_of_nat (t + 128) :: byte) = t + 128"
    using assms by (simp_all only: unat_of_nat) simp_all
  show "(word_of_nat t XOR 0x80 :: byte) = word_of_nat (t + 128)"
    by (simp only: word_unat_eq_iff flip_top8 u) (use assms in simp)
  show "(word_of_nat (t + 128) XOR 0x80 :: byte) = word_of_nat t"
    by (simp only: word_unat_eq_iff flip_top8 u) (use assms in simp)
qed

lemma flip_sign_to_be:
  assumes "m < 2 ^ 127"
  shows "flip_sign (to_be 16 m) = to_be 16 (m + 2 ^ 127)" and "flip_sign (to_be 16 (m + 2 ^ 127)) = to_be 16 m"
proof -
  let ?t = "m div 256 ^ 15"
  have t: "?t < 128" using assms by (simp add: less_mult_imp_div_less)
  have p: "m + 2 ^ 127 = m + 128 * 256 ^ 15" by simp
  have tp: "(m + 128 * 256 ^ 15) div 256 ^ 15 = ?t + 128" by (subst div_mult_self1) simp_all
  have lo: "to_be 16 m = word_of_nat ?t # to_be 15 m"
    using to_be_hd [of 15 m] t by (simp del: power_numeral)
  have hi: "to_be 16 (m + 2 ^ 127) = word_of_nat (?t + 128) # to_be 15 m"
    unfolding p using to_be_hd [of 15 "m + 128 * 256 ^ 15"] to_be_add [of 15 m 128] t tp by (simp del: power_numeral)
  show "flip_sign (to_be 16 m) = to_be 16 (m + 2 ^ 127)" "flip_sign (to_be 16 (m + 2 ^ 127)) = to_be 16 m"
    unfolding lo hi flip_sign_def using flip_byte [OF t] by simp_all
qed

lemma flip_sign_i128:
  assumes "- (2 ^ 127) \<le> n" and "n < 2 ^ 127"
  shows "flip_sign (i128_be n) = to_be 16 (nat (n + 2 ^ 127))"
proof (cases "0 \<le> n")
  case True
  then have "n mod 2 ^ 128 = n" "nat (n + 2 ^ 127) = nat n + 2 ^ 127" "nat n < 2 ^ 127" using assms by auto
  then show ?thesis using flip_sign_to_be(1) [of "nat n"] by (simp add: i128_be_def)
next
  case False
  let ?m = "nat (n + 2 ^ 127)"
  have "n mod 2 ^ 128 = n + 2 ^ 128"
    using False assms by (intro int_mod_pos_eq [of _ _ "- 1"]) auto
  then have "nat (n mod 2 ^ 128) = ?m + 2 ^ 127" "?m < 2 ^ 127" using False assms by auto
  then show ?thesis using flip_sign_to_be(2) [of ?m] by (simp add: i128_be_def)
qed

section \<open>What a column stands for\<close>

text \<open>
  The rank of a column value within its type: nothing for null, which sorts first, and otherwise a
  list of integers compared lexicographically (one number, the bytes of a string, or the components
  of a vector). It names what the key encoding must preserve without mentioning any encoding.
\<close>

type_synonym rank = "int list option"

definition byte_rank :: "byte list \<Rightarrow> rank" where
  "byte_rank s = Some (map uint s)"

definition col_rank :: "'j key_ext \<Rightarrow> RelationalType \<times> 'j RelationalValue \<Rightarrow> rank" where
  "col_rank ext c =
     (case snd c of
        RV_Null \<Rightarrow> None
      | RV_Boolean b \<Rightarrow> Some [of_bool b]
      | RV_Integer i \<Rightarrow> Some [sint i]
      | RV_Float f \<Rightarrow> Some [if fst c = RT_Real then f32_num (f64_as_f32 f) else f64_num f]
      | RV_Decimal d \<Rightarrow> Some (case scaled_decimal d (scale (fst c)) of Inr n \<Rightarrow> [n] | _ \<Rightarrow> [])
      | RV_Text s \<Rightarrow> byte_rank s
      | RV_Bytes s \<Rightarrow> byte_rank s
      | RV_Date d \<Rightarrow> Some (case date_days ext d of Some n \<Rightarrow> [sint n] | None \<Rightarrow> [])
      | RV_TimestampUtc d \<Rightarrow>
          Some (case ts_parts ext d of Some (s, n) \<Rightarrow> [sint s * 1000000000 + int (unat n)] | None \<Rightarrow> [])
      | RV_Uuid u \<Rightarrow> Some [uint u]
      | RV_Json j \<Rightarrow> (case json_vec ext j of Some s \<Rightarrow> byte_rank s | None \<Rightarrow> None)
      | RV_Vector cs \<Rightarrow> Some (map f32_num cs)
      | RV_RecordRef r \<Rightarrow> byte_rank (rr_id r))"

definition encode_column :: "'j key_ext \<Rightarrow> RelationalType \<times> 'j RelationalValue \<Rightarrow> (key_msg, byte list) result" where
  "encode_column ext c = encode_ordered_value ext (fst c) (snd c)"

lemma encode_column_tuple_eq:
  "encode_column_tuple ext cols =
     (if length cols \<ge> 2 ^ 16 then Inl (InvalidRequest Too_many_columns)
      else bindE (mapE (encode_column ext) cols) (\<lambda>parts. Inr (to_be 2 (length cols) @ concat parts)))"
proof -
  have "(\<lambda>(t, v). encode_ordered_value ext t v) = encode_column ext"
    by (simp add: fun_eq_iff encode_column_def)
  then show ?thesis by (simp add: encode_column_tuple_def)
qed

section \<open>Order-preserving encodings\<close>

text \<open>
  An order codec turns values into bytes such that, between compatible values (those of one column,
  one table or one index), the bytes sort as the keys do, whatever is appended to them.
\<close>

locale order_codec =
  fixes enc :: "'a \<Rightarrow> (key_msg, byte list) result"
    and key :: "'a \<Rightarrow> 'k::linorder"
    and compat :: "'a \<Rightarrow> 'a \<Rightarrow> bool"
  assumes enc_placed: "enc a = Inr x \<Longrightarrow> enc b = Inr y \<Longrightarrow> compat a b \<Longrightarrow> placed x y (key a < key b) (key a = key b)"
begin

lemma enc_less: "enc a = Inr x \<Longrightarrow> enc b = Inr y \<Longrightarrow> compat a b \<Longrightarrow> x < y \<longleftrightarrow> key a < key b"
  using enc_placed [of a x b y] unfolding placed_def by (metis append_Nil2 less_irrefl)

lemma enc_same:
  assumes "enc a = Inr x" "enc b = Inr y" "compat a b" "compat b a"
  shows "x = y \<longleftrightarrow> key a = key b"
  using enc_less [OF assms(1-3)] enc_less [OF assms(2,1,4)] by (metis less_linear less_irrefl)

lemma enc_prefix:
  assumes "enc a = Inr x" "enc b = Inr y" "compat a b" "compat b a"
  shows "prefix x (y @ z) \<longleftrightarrow> key a = key b"
proof (rule placed_prefix [OF enc_placed [OF assms(1-3)]])
  show "placed y x (key b < key a) (key a = key b)"
    using enc_placed [OF assms(2,1,4)] by (simp add: eq_commute [of "key a"])
qed (use enc_same [OF assms] in auto)

lemma list_placed:
  assumes "mapE enc as = Inr xs" "mapE enc bs = Inr ys" "list_all2 compat as bs"
  shows "placed (concat xs) (concat ys) (map key as < map key bs) (map key as = map key bs)"
  using assms(3,1,2)
proof (induction arbitrary: xs ys rule: list_all2_induct)
  case Nil
  then show ?case by (simp add: placed_def)
next
  case (Cons a as b bs)
  then obtain x xs' y ys' where e: "enc a = Inr x" "mapE enc as = Inr xs'" "xs = x # xs'"
      "enc b = Inr y" "mapE enc bs = Inr ys'" "ys = y # ys'"
    by (auto simp: bindE_eq_Inr)
  have "placed (x @ concat xs') (y @ concat ys')
     (key a < key b \<or> key a = key b \<and> map key as < map key bs) (key a = key b \<and> map key as = map key bs)"
    by (rule placed_append [OF enc_placed [OF e(1,4) Cons.hyps(1)] Cons.IH [OF e(2,5)]])
  then show ?case by (simp add: e)
qed

end

lemma mono_rank_bytes: "map uint s < map uint t \<longleftrightarrow> s < (t :: byte list)"
proof (induction s arbitrary: t)
  case Nil
  show ?case by (cases t) simp_all
next
  case (Cons a s)
  then show ?case by (cases t) (simp_all add: word_less_def word_uint_eq_iff)
qed

lemma rank_bytes_eq: "map uint s = map uint t \<longleftrightarrow> s = (t :: byte list)"
  by (rule inj_map_eq_map) (rule injI, simp only: word_uint_eq_iff)

lemma placed_byte_rank:
  "placed (append_escaped s) (append_escaped t) (byte_rank s < byte_rank t) (byte_rank s = byte_rank t)"
  using placed_escaped [of s t] by (simp add: byte_rank_def mono_rank_bytes rank_bytes_eq)

lemma placed_int_rank:
  assumes "placed a b (m < n) (m = n)"
  shows "placed a b (Some [m :: int] < Some [n]) (Some [m] = Some [n])"
  using assms by simp

lemma unat_bounds: "unat (x :: u64) < 256 ^ 8" "unat (y :: u32) < 256 ^ 4" "unat (z :: 128 word) < 256 ^ 16"
  using unsigned_less [of x] unsigned_less [of y] unsigned_less [of z] by simp_all

lemma placed_i64: "placed (to_be 8 (unat (i XOR push_bit 63 1 :: u64))) (to_be 8 (unat (j XOR push_bit 63 1 :: u64)))
    (sint i < sint j) (sint i = sint j)"
  by (rule placed_cong [OF placed_to_be [OF unat_bounds(1) unat_bounds(1)] order_i64 order_i64_eq])

lemma placed_i32: "placed (to_be 4 (unat (i XOR push_bit 31 1 :: u32))) (to_be 4 (unat (j XOR push_bit 31 1 :: u32)))
    (sint i < sint j) (sint i = sint j)"
  by (rule placed_cong [OF placed_to_be [OF unat_bounds(2) unat_bounds(2)] order_i32 order_i32_eq])

lemma placed_f64: "placed (to_be 8 (unat (ordered_f64 a))) (to_be 8 (unat (ordered_f64 b)))
    (f64_num a < f64_num b) (f64_num a = f64_num b)"
  by (rule placed_cong [OF placed_to_be [OF unat_bounds(1) unat_bounds(1)] order_f64 order_f64_eq])

lemma placed_f32: "placed (to_be 4 (unat (ordered_f32 a))) (to_be 4 (unat (ordered_f32 b)))
    (f32_num a < f32_num b) (f32_num a = f32_num b)"
  by (rule placed_cong [OF placed_to_be [OF unat_bounds(2) unat_bounds(2)] order_f32 order_f32_eq])

lemma placed_i128:
  assumes "- (2 ^ 127) \<le> m" "m < 2 ^ 127" "- (2 ^ 127) \<le> n" "n < 2 ^ 127"
  shows "placed (flip_sign (i128_be m)) (flip_sign (i128_be n)) (m < n) (m = n)"
proof -
  have "nat (m + 2 ^ 127) < 256 ^ 16" "nat (n + 2 ^ 127) < 256 ^ 16" using assms by simp_all
  from placed_to_be [OF this] show ?thesis
    unfolding flip_sign_i128 [OF assms(1,2)] flip_sign_i128 [OF assms(3,4)]
    by (rule placed_cong) (use assms in auto)
qed

lemma placed_uuid: "placed (to_be 16 (unat (u :: 128 word))) (to_be 16 (unat (v :: 128 word))) (uint u < uint v) (uint u = uint v)"
proof (rule placed_cong [OF placed_to_be [OF unat_bounds(3) unat_bounds(3)]])
  show "unat u < unat v \<longleftrightarrow> uint u < uint v" by (simp only: word_less_nat_alt [symmetric] word_less_def)
  show "unat u = unat v \<longleftrightarrow> uint u = uint v" by (simp only: word_unat_eq_iff [symmetric] word_uint_eq_iff)
qed

lemma placed_vector:
  assumes "length cs = length ds"
  shows "placed (concat (map (\<lambda>c. to_be 4 (unat (ordered_f32 c))) cs)) (concat (map (\<lambda>c. to_be 4 (unat (ordered_f32 c))) ds))
     (map f32_num cs < map f32_num ds) (map f32_num cs = map f32_num ds)"
  using assms
proof (induction rule: list_induct2)
  case Nil
  show ?case by (simp add: placed_def)
next
  case (Cons c cs d ds)
  from placed_append [OF placed_f32 [of c d] Cons.IH] show ?case by simp
qed

lemma scaled_decimal_range:
  assumes "scaled_decimal d sc = Inr n"
  shows "- (2 ^ 127) \<le> n" "n < 2 ^ 127"
  using assms
  by (auto simp: scaled_decimal_def parse_i128_def neg_i128_def bindE_eq_Inr ok_or_def Let_def
      split: prod.splits if_splits option.splits)

lemma timestamp_range:
  fixes s :: u64 and n :: u32
  shows "- (2 ^ 127) \<le> sint s * 1000000000 + int (unat n)" "sint s * 1000000000 + int (unat n) < 2 ^ 127"
proof -
  have *: "- (2 ^ 127) \<le> a * 1000000000 + b \<and> a * 1000000000 + b < 2 ^ 127"
    if "- (2 ^ 63) \<le> a" "a < 2 ^ 63" "0 \<le> b" "b < 2 ^ 32" for a b :: int
    using that by simp
  have "- (2 ^ 63) \<le> sint s" "sint s < 2 ^ 63"
    using sint_ge [of s] sint_lt [of s] by simp_all
  moreover have "int (unat n) < 2 ^ 32" using unsigned_less [of n] by simp
  ultimately have "- (2 ^ 127) \<le> sint s * 1000000000 + int (unat n) \<and> sint s * 1000000000 + int (unat n) < 2 ^ 127"
    by (intro * of_nat_0_le_iff)
  then show "- (2 ^ 127) \<le> sint s * 1000000000 + int (unat n)" "sint s * 1000000000 + int (unat n) < 2 ^ 127"
    by (rule conjunct1, rule conjunct2)
qed

lemmas column_simps = encode_ordered_value_def col_rank_def bindE_eq_Inr ok_or_def

lemma column_fits:
  assumes "encode_ordered_value ext t v = Inr x" "v \<noteq> RV_Null"
  obtains b where "t = RT_Boolean" "v = RV_Boolean b"
  | i where "t \<in> {RT_SmallInt, RT_Integer, RT_BigInt}" "v = RV_Integer i"
  | f where "t = RT_Real" "v = RV_Float f"
  | f where "t = RT_Float" "v = RV_Float f"
  | p sc d where "t = RT_Decimal p sc" "v = RV_Decimal d"
  | s where "t = RT_Text" "v = RV_Text s"
  | n s where "t = RT_Varchar n" "v = RV_Text s"
  | s where "t = RT_Bytea" "v = RV_Bytes s"
  | d where "t = RT_Date" "v = RV_Date d"
  | d where "t = RT_TimestampUtc" "v = RV_TimestampUtc d"
  | u where "t = RT_Uuid" "v = RV_Uuid u"
  | j where "t = RT_Jsonb" "v = RV_Json j"
  | dim cs where "t = RT_Vector dim" "v = RV_Vector cs"
  | ns r where "t = RT_RecordRef ns" "v = RV_RecordRef r"
proof (cases t)
qed (use assms that in \<open>cases v; simp add: encode_ordered_value_def; fail\<close>)+

lemma encode_column_head:
  assumes "encode_ordered_value ext t v = Inr x" "v \<noteq> RV_Null"
  shows "\<exists>c r. x = c # r \<and> c \<noteq> TAG_NULL" and "\<exists>n. col_rank ext (t, v) = Some n"
  by (rule column_fits [OF assms];
      use assms in \<open>auto simp: column_simps byte_rank_def TAG_NULL_def TAG_BOOL_def TAG_INTEGER_def TAG_FLOAT64_def
        TAG_DECIMAL_def TAG_TEXT_def TAG_BYTES_def TAG_DATE_def TAG_TIMESTAMP_def TAG_UUID_def TAG_JSONB_def TAG_VECTOR_def
        TAG_RECORD_REF_def TAG_FLOAT32_def split: option.splits if_splits prod.splits\<close>)+

lemma column_placed_null:
  assumes "encode_ordered_value ext t v = Inr x" "encode_ordered_value ext t w = Inr y" "v = RV_Null \<or> w = RV_Null"
  shows "placed x y (col_rank ext (t, v) < col_rank ext (t, w)) (col_rank ext (t, v) = col_rank ext (t, w))"
proof -
  have null: "encode_ordered_value ext t RV_Null = Inr [TAG_NULL]" "col_rank ext (t, RV_Null) = None"
    by (simp_all add: encode_ordered_value_def col_rank_def)
  have heads: "placed [TAG_NULL] (c # r) True False" "placed (c # r) [TAG_NULL] False False" if "c \<noteq> TAG_NULL" for c r
    using that by (auto simp: placed_def TAG_NULL_def word_gt_0)
  show ?thesis
  proof (cases "v = RV_Null"; cases "w = RV_Null")
    assume "v = RV_Null" "w = RV_Null"
    then show ?thesis using assms null placed_same by simp
  next
    assume vw: "v = RV_Null" "w \<noteq> RV_Null"
    show ?thesis using encode_column_head [OF assms(2) vw(2)] heads(1) assms(1) null vw(1) by auto
  next
    assume vw: "v \<noteq> RV_Null" "w = RV_Null"
    show ?thesis using encode_column_head [OF assms(1) vw(1)] heads(2) assms(2) null vw(2) by auto
  qed (use assms(3) in simp)
qed

lemma placed_int_column:
  "placed a b (m < n) (m = n) \<Longrightarrow> placed (c # a) (c # b) (Some [m :: int] < Some [n]) (Some [m] = Some [n])"
  by (simp add: placed_Cons)

definition listed :: "RelationalType \<Rightarrow> bool" where
  "listed t \<longleftrightarrow> (case t of RT_Text \<Rightarrow> True | RT_Varchar _ \<Rightarrow> True | RT_Bytea \<Rightarrow> True | RT_Jsonb \<Rightarrow> True
     | RT_Vector _ \<Rightarrow> True | RT_RecordRef _ \<Rightarrow> True | _ \<Rightarrow> False)"

lemma column_placed_list:
  assumes e: "encode_ordered_value ext t v = Inr x" "encode_ordered_value ext t w = Inr y"
    and nn: "v \<noteq> RV_Null" "w \<noteq> RV_Null" and listed: "listed t"
  shows "placed x y (col_rank ext (t, v) < col_rank ext (t, w)) (col_rank ext (t, v) = col_rank ext (t, w))"
proof -
  note [simp] = column_simps and [intro] = placed_int_column placed_Cons
  from e(1) nn(1) show ?thesis
  proof (cases rule: column_fits)
    case (6 s)
    from e(2) nn(2) 6(1) obtain s' where "w = RV_Text s'" by (cases rule: column_fits) auto
    with 6 e placed_byte_rank [of s s'] show ?thesis by auto
  next
    case (7 n s)
    from e(2) nn(2) 7(1) obtain s' where "w = RV_Text s'" by (cases rule: column_fits) auto
    with 7 e placed_byte_rank [of s s'] show ?thesis by auto
  next
    case (8 s)
    from e(2) nn(2) 8(1) obtain s' where "w = RV_Bytes s'" by (cases rule: column_fits) auto
    with 8 e placed_byte_rank [of s s'] show ?thesis by auto
  next
    case (12 j)
    from e(2) nn(2) 12(1) obtain j' where "w = RV_Json j'" by (cases rule: column_fits) auto
    with 12 e placed_byte_rank show ?thesis by (auto split: option.splits)
  next
    case (13 dim cs)
    from e(2) nn(2) 13(1) obtain ds where "w = RV_Vector ds" by (cases rule: column_fits) auto
    with 13 e placed_append [OF placed_same placed_vector [of cs ds]] show ?thesis by (auto split: if_splits)
  next
    case (14 ns r)
    from e(2) nn(2) 14(1) obtain r' where "w = RV_RecordRef r'" by (cases rule: column_fits) auto
    with 14 e placed_append [OF placed_same placed_byte_rank [of "rr_id r" "rr_id r'"]] show ?thesis by (auto split: if_splits)
  qed (use listed in \<open>auto simp: listed_def\<close>)
qed

lemma column_placed_number:
  assumes e: "encode_ordered_value ext t v = Inr x" "encode_ordered_value ext t w = Inr y"
    and nn: "v \<noteq> RV_Null" "w \<noteq> RV_Null" and listed: "\<not> listed t"
  shows "placed x y (col_rank ext (t, v) < col_rank ext (t, w)) (col_rank ext (t, v) = col_rank ext (t, w))"
proof -
  note [simp] = column_simps and [intro] = placed_int_column placed_Cons
  from e(1) nn(1) show ?thesis
  proof (cases rule: column_fits)
    case (1 b)
    from e(2) nn(2) 1(1) obtain b' where "w = RV_Boolean b'" by (cases rule: column_fits) auto
    with 1 e show ?thesis by (cases b; cases b') (auto simp: placed_def)
  next
    case (2 i)
    from e(2) nn(2) 2(1) obtain j where "w = RV_Integer j" by (cases rule: column_fits) auto
    with 2 e placed_i64 [of i j] show ?thesis by auto
  next
    case (3 f)
    from e(2) nn(2) 3(1) obtain g where "w = RV_Float g" by (cases rule: column_fits) auto
    with 3 e placed_f32 [of "f64_as_f32 f" "f64_as_f32 g"] show ?thesis by auto
  next
    case (4 f)
    from e(2) nn(2) 4(1) obtain g where "w = RV_Float g" by (cases rule: column_fits) auto
    with 4 e placed_f64 [of f g] show ?thesis by auto
  next
    case (5 p sc d)
    from e(2) nn(2) 5(1) obtain d' where w: "w = RV_Decimal d'" by (cases rule: column_fits) auto
    from e 5 w obtain m n where "scaled_decimal d sc = Inr m" "scaled_decimal d' sc = Inr n" by auto
    with 5 w e placed_i128 [OF scaled_decimal_range [of d sc m] scaled_decimal_range [of d' sc n]] show ?thesis by auto
  next
    case (9 d)
    from e(2) nn(2) 9(1) obtain d' where "w = RV_Date d'" by (cases rule: column_fits) auto
    with 9 e placed_i32 show ?thesis by (auto split: option.splits)
  next
    case (10 d)
    from e(2) nn(2) 10(1) obtain d' where "w = RV_TimestampUtc d'" by (cases rule: column_fits) auto
    with 10 e placed_i128 [OF timestamp_range timestamp_range] show ?thesis by (auto split: option.splits)
  next
    case (11 u)
    from e(2) nn(2) 11(1) obtain u' where "w = RV_Uuid u'" by (cases rule: column_fits) auto
    with 11 e placed_uuid [of u u'] show ?thesis by auto
  qed (use listed in \<open>auto simp: listed_def\<close>)
qed

lemma column_placed:
  assumes "encode_column ext a = Inr x" "encode_column ext b = Inr y" "fst a = fst b"
  shows "placed x y (col_rank ext a < col_rank ext b) (col_rank ext a = col_rank ext b)"
proof -
  obtain t v w where ab: "a = (t, v)" "b = (t, w)" using assms(3) by (cases a; cases b) simp
  have e: "encode_ordered_value ext t v = Inr x" "encode_ordered_value ext t w = Inr y"
    using assms(1,2) by (simp_all add: ab encode_column_def)
  then show ?thesis unfolding ab
    using column_placed_null column_placed_list column_placed_number by blast
qed

interpretation column: order_codec "encode_column ext" "col_rank ext" "\<lambda>a b. fst a = fst b" for ext
  by unfold_locales (rule column_placed)

section \<open>Column tuples, row keys, index keys\<close>

definition tuple_rank :: "'j key_ext \<Rightarrow> 'j columns \<Rightarrow> rank list" where
  "tuple_rank ext cols = map (col_rank ext) cols"

lemma tuple_placed:
  assumes "encode_column_tuple ext c = Inr x" "encode_column_tuple ext d = Inr y" "map fst c = map fst d"
  shows "placed x y (tuple_rank ext c < tuple_rank ext d) (tuple_rank ext c = tuple_rank ext d)"
proof -
  from assms(1,2) obtain ps qs where
    p: "mapE (encode_column ext) c = Inr ps" "x = to_be 2 (length c) @ concat ps"
      "mapE (encode_column ext) d = Inr qs" "y = to_be 2 (length d) @ concat qs"
    unfolding encode_column_tuple_eq by (auto simp: bindE_eq_Inr split: if_splits)
  from assms(3) have len: "length c = length d" by (metis length_map)
  have "list_all2 (\<lambda>a b. fst a = fst b) c d"
    using assms(3) len by (simp add: list_all2_conv_all_nth) (metis nth_map)
  from placed_append [OF placed_same column.list_placed [OF p(1,3) this]] show ?thesis
    by (simp add: p(2,4) len tuple_rank_def)
qed

interpretation tuple: order_codec "encode_column_tuple ext" "tuple_rank ext" "\<lambda>c d. map fst c = map fst d" for ext
  by unfold_locales (rule tuple_placed)

text \<open>Hidden row identities sort before primary keys, each by its own order.\<close>

definition ident_rank :: "'j key_ext \<Rightarrow> 'j RowIdentityKey \<Rightarrow> int \<times> rank list" where
  "ident_rank ext i = (case i of Hidden row \<Rightarrow> (0, [Some [uint row]]) | Primary cols \<Rightarrow> (1, tuple_rank ext cols))"

definition same_shape :: "'j RowIdentityKey \<Rightarrow> 'j RowIdentityKey \<Rightarrow> bool" where
  "same_shape i j = (case (i, j) of (Primary c, Primary d) \<Rightarrow> map fst c = map fst d | _ \<Rightarrow> True)"

lemma placed_u64: "placed (to_be 8 (unat (a :: u64))) (to_be 8 (unat (b :: u64))) (uint a < uint b) (uint a = uint b)"
proof (rule placed_cong [OF placed_to_be [OF unat_bounds(1) unat_bounds(1)]])
  show "unat a < unat b \<longleftrightarrow> uint a < uint b" by (simp only: word_less_nat_alt [symmetric] word_less_def)
  show "unat a = unat b \<longleftrightarrow> uint a = uint b" by (simp only: word_unat_eq_iff [symmetric] word_uint_eq_iff)
qed

lemma ident_placed:
  assumes "encode_identity ext i = Inr x" "encode_identity ext j = Inr y" "same_shape i j"
  shows "placed x y (ident_rank ext i < ident_rank ext j) (ident_rank ext i = ident_rank ext j)"
proof (cases i; cases j)
  fix c d assume ij: "i = Primary c" "j = Primary d"
  with assms obtain p q where "encode_column_tuple ext c = Inr p" "x = 1 # p" "encode_column_tuple ext d = Inr q" "y = 1 # q"
    by (auto simp: encode_identity_def bindE_eq_Inr)
  with ij assms(3) tuple_placed [of ext c p d q] show ?thesis
    by (auto simp: ident_rank_def same_shape_def intro: placed_Cons)
next
  fix r s assume ij: "i = Hidden r" "j = Hidden s"
  with assms placed_Cons [OF placed_u64 [of r s], of 0] show ?thesis
    by (auto simp: encode_identity_def ident_rank_def split: if_splits)
qed (use assms in \<open>auto simp: encode_identity_def ident_rank_def bindE_eq_Inr placed_def split: if_splits\<close>)

interpretation identity: order_codec "encode_identity ext" "ident_rank ext" same_shape for ext
  by unfold_locales (rule ident_placed)

lemma placed_commit:
  "placed (to_be 8 (unat (NOT a :: u64))) (to_be 8 (unat (NOT b :: u64))) (- uint a < - uint b) (- uint a = - uint b)"
proof (rule placed_cong [OF placed_to_be [OF unat_bounds(1) unat_bounds(1)]])
  have "unat a < 2 ^ 64" "unat b < 2 ^ 64" using unat_bounds(1) [of a] unat_bounds(1) [of b] by simp_all
  then have "unat (NOT a) < unat (NOT b) \<longleftrightarrow> unat b < unat a" "unat (NOT a) = unat (NOT b) \<longleftrightarrow> unat a = unat b"
    unfolding unat_not by linarith+
  then show "unat (NOT a) < unat (NOT b) \<longleftrightarrow> - uint a < - uint b" "unat (NOT a) = unat (NOT b) \<longleftrightarrow> - uint a = - uint b"
    by (simp_all only: neg_less_iff_less neg_equal_iff_equal word_less_nat_alt [symmetric] word_less_def
        word_unat_eq_iff [symmetric] word_uint_eq_iff)
qed

lemma pair_less: "(a, b) < (c, d) \<longleftrightarrow> a < c \<or> a = c \<and> b < d" for a c :: "'a :: linorder" and b d :: "'b :: linorder"
  by auto

lemma placed_head_decides:
  "placed a b L E \<Longrightarrow> \<not> E \<Longrightarrow> placed (a @ x) (b @ y) L False"
  by (simp add: placed_def)

definition row_rank :: "'j key_ext \<Rightarrow> u64 \<Rightarrow> 'j RowIdentityKey \<Rightarrow> u64 \<Rightarrow> int \<times> (int \<times> rank list) \<times> int" where
  "row_rank ext t i c = (uint t, ident_rank ext i, - uint c)"

definition index_rank :: "'j key_ext \<Rightarrow> u64 \<Rightarrow> 'j columns \<Rightarrow> u64 \<Rightarrow> u64 \<Rightarrow> int \<times> rank list \<times> int \<times> int" where
  "index_rank ext t cols r c = (uint t, tuple_rank ext cols, uint r, - uint c)"

lemma row_key_placed:
  assumes "encode_row_key_v1 ext t i c = Inr x" "encode_row_key_v1 ext t' i' c' = Inr y" "t = t' \<longrightarrow> same_shape i i'"
  shows "placed x y (row_rank ext t i c < row_rank ext t' i' c') (row_rank ext t i c = row_rank ext t' i' c')"
proof -
  let ?h = "ROW_MAGIC @ [KEY_ENCODING_VERSION]"
  from assms(1,2) obtain p q where
    p: "encode_identity ext i = Inr p" "x = (?h @ to_be 8 (unat t)) @ p @ to_be 8 (unat (NOT c))" and
    q: "encode_identity ext i' = Inr q" "y = (?h @ to_be 8 (unat t')) @ q @ to_be 8 (unat (NOT c'))"
    by (auto simp: encode_row_key_v1_def bindE_eq_Inr split: if_splits)
  have h: "placed (?h @ to_be 8 (unat t)) (?h @ to_be 8 (unat t')) (uint t < uint t') (uint t = uint t')"
    using placed_append [OF placed_same [of ?h] placed_u64 [of t t']] by simp
  show ?thesis
  proof (cases "t = t'")
    case True
    with assms(3) have "same_shape i i'" by simp
    from placed_append [OF h placed_append [OF ident_placed [OF p(1) q(1) this] placed_commit [of c c']]] True
    show ?thesis unfolding p(2) q(2) by (rule_tac placed_cong) (simp_all add: row_rank_def pair_less del: less_prod_simp)
  next
    case False
    then have "uint t \<noteq> uint t'" by (simp add: word_uint_eq_iff)
    from placed_head_decides [OF h this] this show ?thesis unfolding p(2) q(2) by (simp add: row_rank_def pair_less del: less_prod_simp)
  qed
qed

lemma index_prefix_placed:
  assumes "encode_index_prefix_v1 ext t c = Inr x" "encode_index_prefix_v1 ext t' c' = Inr y" "t = t' \<longrightarrow> map fst c = map fst c'"
  shows "placed x y ((uint t, tuple_rank ext c) < (uint t', tuple_rank ext c')) ((uint t, tuple_rank ext c) = (uint t', tuple_rank ext c'))"
proof -
  let ?h = "INDEX_MAGIC @ [KEY_ENCODING_VERSION]"
  from assms(1,2) obtain p q where
    p: "encode_column_tuple ext c = Inr p" "x = (?h @ to_be 8 (unat t)) @ p" and
    q: "encode_column_tuple ext c' = Inr q" "y = (?h @ to_be 8 (unat t')) @ q"
    by (auto simp: encode_index_prefix_v1_def bindE_eq_Inr split: if_splits)
  have h: "placed (?h @ to_be 8 (unat t)) (?h @ to_be 8 (unat t')) (uint t < uint t') (uint t = uint t')"
    using placed_append [OF placed_same [of ?h] placed_u64 [of t t']] by simp
  show ?thesis
  proof (cases "t = t'")
    case True
    with assms(3) have "map fst c = map fst c'" by simp
    from placed_append [OF h tuple_placed [OF p(1) q(1) this]] True
    show ?thesis unfolding p(2) q(2) by (rule_tac placed_cong) (simp_all add: pair_less del: less_prod_simp)
  next
    case False
    then have "uint t \<noteq> uint t'" by (simp add: word_uint_eq_iff)
    from placed_head_decides [OF h this] this show ?thesis unfolding p(2) q(2) by (simp add: pair_less del: less_prod_simp)
  qed
qed

interpretation index_prefix: order_codec "\<lambda>(t, c). encode_index_prefix_v1 ext t c" "\<lambda>(t, c). (uint t, tuple_rank ext c)"
    "\<lambda>(t, c) (t', c'). t = t' \<longrightarrow> map fst c = map fst c'" for ext
  by unfold_locales (auto intro: index_prefix_placed)

interpretation row_key: order_codec "\<lambda>(t, i, c). encode_row_key_v1 ext t i c" "\<lambda>(t, i, c). row_rank ext t i c"
    "\<lambda>(t, i, c) (t', i', c'). t = t' \<longrightarrow> same_shape i i'" for ext
  by unfold_locales (auto intro: row_key_placed)

lemma same_shape_sym: "same_shape i j \<Longrightarrow> same_shape j i"
  by (auto simp: same_shape_def split: RowIdentityKey.splits)

text \<open>
  C7. Row keys sort by what they encode: the byte order of two encoded row keys is the order of their
  tables, then of their row identities (hidden rows before primary keys, primary keys column by
  column with nulls first and every column type in its value order), then of their commits, newest
  first; and two row keys are the same bytes exactly when they agree on all of these.
\<close>

theorem row_key_order:
  assumes "encode_row_key_v1 ext t i c = Inr x" and "encode_row_key_v1 ext t' i' c' = Inr y"
    and "t = t' \<longrightarrow> same_shape i i'"
  shows "(x < y \<longleftrightarrow> row_rank ext t i c < row_rank ext t' i' c') \<and> (x = y \<longleftrightarrow> row_rank ext t i c = row_rank ext t' i' c')"
  using row_key.enc_less [of ext "(t, i, c)" x "(t', i', c')" y] row_key.enc_same [of ext "(t, i, c)" x "(t', i', c')" y]
    assms same_shape_sym by auto

lemma index_key_placed:
  assumes "encode_index_key_v1 ext t c r k = Inr x" "encode_index_key_v1 ext t' c' r' k' = Inr y" "t = t' \<longrightarrow> map fst c = map fst c'"
  shows "placed x y (index_rank ext t c r k < index_rank ext t' c' r' k') (index_rank ext t c r k = index_rank ext t' c' r' k')"
proof -
  from assms(1,2) obtain p q where
    p: "encode_index_prefix_v1 ext t c = Inr p" "x = p @ to_be 8 (unat r) @ to_be 8 (unat (NOT k))" and
    q: "encode_index_prefix_v1 ext t' c' = Inr q" "y = q @ to_be 8 (unat r') @ to_be 8 (unat (NOT k'))"
    by (auto simp: encode_index_key_v1_def bindE_eq_Inr split: if_splits)
  from placed_append [OF index_prefix_placed [OF p(1) q(1) assms(3)] placed_append [OF placed_u64 [of r r'] placed_commit [of k k']]]
  show ?thesis unfolding p(2) q(2) by (rule placed_cong) (auto simp: index_rank_def pair_less simp del: less_prod_simp)
qed

interpretation index_key: order_codec "\<lambda>(t, c, r, k). encode_index_key_v1 ext t c r k" "\<lambda>(t, c, r, k). index_rank ext t c r k"
    "\<lambda>(t, c, r, k) (t', c', r', k'). t = t' \<longrightarrow> map fst c = map fst c'" for ext
  by unfold_locales (auto intro: index_key_placed)

text \<open>
  C18. Index keys sort by index, then column values, then row, then commit, newest first, and are the
  same bytes exactly when they agree on all of these.
\<close>

theorem index_key_order:
  assumes "encode_index_key_v1 ext t c r k = Inr x" and "encode_index_key_v1 ext t' c' r' k' = Inr y"
    and "t = t' \<longrightarrow> map fst c = map fst c'"
  shows "(x < y \<longleftrightarrow> index_rank ext t c r k < index_rank ext t' c' r' k') \<and>
    (x = y \<longleftrightarrow> index_rank ext t c r k = index_rank ext t' c' r' k')"
  using index_key.enc_less [of ext "(t, c, r, k)" x "(t', c', r', k')" y]
    index_key.enc_same [of ext "(t, c, r, k)" x "(t', c', r', k')" y] assms by auto

text \<open>
  C19. A prefix scan is exact: the prefix built from an index and column values is a prefix of exactly
  the index keys of that index whose columns hold equal values, whatever their rows and commits.
\<close>

theorem index_prefix_scan:
  assumes "encode_index_prefix_v1 ext t c = Inr p" and "encode_index_key_v1 ext t' c' r k = Inr y"
    and "t = t' \<longrightarrow> map fst c = map fst c'"
  shows "prefix p y \<longleftrightarrow> t = t' \<and> tuple_rank ext c = tuple_rank ext c'"
proof -
  from assms(2) obtain q where q: "encode_index_prefix_v1 ext t' c' = Inr q" "y = q @ to_be 8 (unat r) @ to_be 8 (unat (NOT k))"
    by (auto simp: encode_index_key_v1_def bindE_eq_Inr split: if_splits)
  have "prefix p y \<longleftrightarrow> (uint t, tuple_rank ext c) = (uint t', tuple_rank ext c')"
    unfolding q(2) using index_prefix.enc_prefix [of ext "(t, c)" p "(t', c')" q] assms q(1) by auto
  then show ?thesis by (simp add: word_uint_eq_iff)
qed

text \<open>A parameter record for examples that use no date, timestamp or JSON column.\<close>

definition plain_ext :: "unit key_ext" where
  "plain_ext = \<lparr>date_days = (\<lambda>_. None), ts_parts = (\<lambda>_. None), ts_canonical = (\<lambda>_. None), json_vec = (\<lambda>_. None)\<rparr>"

lemmas key_eval = encode_row_key_v1_def encode_identity_def encode_column_tuple_def encode_ordered_value_def
  encode_index_key_v1_def encode_index_prefix_v1_def

lemmas rank_eval = row_rank_def index_rank_def ident_rank_def tuple_rank_def col_rank_def byte_rank_def same_shape_def
  f64_num_def mag_units_def Let_def

text \<open>The newer of two versions of a row comes first.\<close>

theorem row_key_order_witness:
  "\<exists>x y. encode_row_key_v1 plain_ext 7 (Primary [(RT_Integer, RV_Integer (- 1)), (RT_Text, RV_Text [97])]) 3 = Inr x \<and>
     encode_row_key_v1 plain_ext 7 (Primary [(RT_Integer, RV_Integer (- 1)), (RT_Text, RV_Text [97])]) 2 = Inr y \<and> x < y"
proof -
  let ?i = "Primary [(RT_Integer, RV_Integer (- 1)), (RT_Text, RV_Text [97])]"
  have "\<exists>x. encode_row_key_v1 plain_ext 7 ?i 3 = Inr x" "\<exists>y. encode_row_key_v1 plain_ext 7 ?i 2 = Inr y"
    by (simp_all add: key_eval)
  then obtain x y where xy: "encode_row_key_v1 plain_ext 7 ?i 3 = Inr x" "encode_row_key_v1 plain_ext 7 ?i 2 = Inr y" by blast
  have "row_rank plain_ext 7 ?i 3 < row_rank plain_ext 7 ?i 2" by (simp add: row_rank_def)
  with row_key_order [OF xy] xy show ?thesis by (simp add: same_shape_def)
qed

theorem index_key_order_witness:
  "\<exists>x y. encode_index_key_v1 plain_ext 9 [(RT_Integer, RV_Integer (- 5)), (RT_Bytea, RV_Bytes [0])] 4 2 = Inr x \<and>
     encode_index_key_v1 plain_ext 9 [(RT_Integer, RV_Integer 3), (RT_Bytea, RV_Null)] 4 2 = Inr y \<and> x < y"
proof -
  let ?c = "[(RT_Integer, RV_Integer (- 5)), (RT_Bytea, RV_Bytes [0])]"
  let ?d = "[(RT_Integer, RV_Integer 3), (RT_Bytea, RV_Null)]"
  have "\<exists>x. encode_index_key_v1 plain_ext 9 ?c 4 2 = Inr x" "\<exists>y. encode_index_key_v1 plain_ext 9 ?d 4 2 = Inr y"
    by (simp_all add: key_eval)
  then obtain x y where xy: "encode_index_key_v1 plain_ext 9 ?c 4 2 = Inr x" "encode_index_key_v1 plain_ext 9 ?d 4 2 = Inr y" by blast
  have "index_rank plain_ext 9 ?c 4 2 < index_rank plain_ext 9 ?d 4 2" by (simp add: rank_eval)
  with index_key_order [OF xy] xy show ?thesis by simp
qed

text \<open>The prefix of the float zero finds a key written for the negative zero.\<close>

theorem index_prefix_scan_witness:
  "\<exists>p y. encode_index_prefix_v1 plain_ext 9 [(RT_Float, RV_Float 0)] = Inr p \<and>
     encode_index_key_v1 plain_ext 9 [(RT_Float, RV_Float 0x8000000000000000)] 4 2 = Inr y \<and> prefix p y"
proof -
  let ?c = "[(RT_Float, RV_Float 0)]" and ?d = "[(RT_Float, RV_Float 0x8000000000000000)]"
  have "\<exists>x. encode_index_prefix_v1 plain_ext 9 ?c = Inr x" "\<exists>y. encode_index_key_v1 plain_ext 9 ?d 4 2 = Inr y"
    by (simp_all add: key_eval)
  then obtain p y where xy: "encode_index_prefix_v1 plain_ext 9 ?c = Inr p" "encode_index_key_v1 plain_ext 9 ?d 4 2 = Inr y" by blast
  have "tuple_rank plain_ext ?c = tuple_rank plain_ext ?d" by (simp add: rank_eval)
  with index_prefix_scan [OF xy] xy show ?thesis by simp
qed

end
