(* ===== verification/Json_Filter.thy ===== *)
theory Json_Filter
  imports Key_Encoding
begin

text \<open>
  JSON payloads and the filters over them, after \<open>chirondb-types/src/filter.rs\<close>.

  A Rust string is a list of Unicode scalar values; \<open>str\<close> writes an ASCII literal and \<open>utf8_len\<close>
  is the length in bytes. A \<open>serde_json\<close> object is the list of its entries in key order. Numbers
  of \<open>serde_json\<close> are a type variable; what the crate and the Unicode tables compute is the
  parameter record \<open>json_ext\<close>: equality of numbers, their value as a double, their text, and the
  alphanumeric characters.

  Main results: the complexity check accepts exactly the filters within its four limits, and the
  predicates extracted for the index never exclude a payload that the filter matches.
\<close>

unbundle bit_operations_syntax

datatype 'n Value =
    JNull
  | JBool bool
  | JNumber 'n
  | JString ustr
  | JArray "'n Value list"
  | JObject "(ustr \<times> 'n Value) list"

record 'n json_ext =
  num_eq :: "'n \<Rightarrow> 'n \<Rightarrow> bool"
  num_f64 :: "'n \<Rightarrow> u64 option"
  num_text :: "'n \<Rightarrow> ustr"
  alphanumeric :: "uchar \<Rightarrow> bool"

fun nodes :: "'n Value \<Rightarrow> nat" where
  "nodes (JArray vs) = 1 + sum_list (map nodes vs)"
| "nodes (JObject kvs) = 1 + sum_list (map (\<lambda>kv. nodes (snd kv)) kvs)"
| "nodes _ = 1"

lemma nodes_pos [simp]: "0 < nodes v"
  by (cases v) auto

lemma nodes_array [termination_simp]: "v \<in> set vs \<Longrightarrow> nodes v < nodes (JArray vs)"
  using member_le_sum_list [of "nodes v" "map nodes vs"] by simp

lemma nodes_object [termination_simp]: "(k, v) \<in> set kvs \<Longrightarrow> nodes v < nodes (JObject kvs)"
  using member_le_sum_list [of "nodes v" "map (\<lambda>kv. nodes (snd kv)) kvs"] by force

lemma nodes_get [termination_simp]: "map_of kvs k = Some v \<Longrightarrow> nodes v < nodes (JObject kvs)"
  using nodes_object map_of_SomeD by metis

section \<open>Doubles\<close>

definition f64_finite :: "u64 \<Rightarrow> bool" where
  "f64_finite w \<longleftrightarrow> unat w mod 2 ^ 63 < 0x7ff0000000000000"

definition f64_nan :: "u64 \<Rightarrow> bool" where
  "f64_nan w \<longleftrightarrow> unat w mod 2 ^ 63 > 0x7ff0000000000000"

definition f64_lt :: "u64 \<Rightarrow> u64 \<Rightarrow> bool" where
  "f64_lt a b \<longleftrightarrow> \<not> f64_nan a \<and> \<not> f64_nan b \<and> f64_num a < f64_num b"

definition f64_le :: "u64 \<Rightarrow> u64 \<Rightarrow> bool" where
  "f64_le a b \<longleftrightarrow> \<not> f64_nan a \<and> \<not> f64_nan b \<and> f64_num a \<le> f64_num b"

section \<open>Values\<close>

function (sequential) value_eq :: "'n json_ext \<Rightarrow> 'n Value \<Rightarrow> 'n Value \<Rightarrow> bool" where
  "value_eq ext (JNumber m) (JNumber n) = num_eq ext m n"
| "value_eq ext (JArray vs) (JArray ws) =
     (length vs = length ws \<and> list_all (\<lambda>(v, w). value_eq ext v w) (zip vs ws))"
| "value_eq ext (JObject vs) (JObject ws) =
     (map fst vs = map fst ws \<and> list_all (\<lambda>(v, w). value_eq ext v w) (zip (map snd vs) (map snd ws)))"
| "value_eq ext v w = (v = w)"
  by pat_completeness auto

lemma nodes_object_value: "v \<in> set (map snd kvs) \<Longrightarrow> nodes v < nodes (JObject kvs)"
  by (auto intro: nodes_object simp del: nodes.simps)

termination value_eq
  by (relation "measure (\<lambda>(_, v, _). nodes v)")
    (auto dest!: set_zip_leftD dest: nodes_array nodes_object_value simp del: nodes.simps set_map)

definition get :: "'n Value \<Rightarrow> ustr \<Rightarrow> 'n Value option" where
  "get v k = (case v of JObject kvs \<Rightarrow> map_of kvs k | _ \<Rightarrow> None)"

definition as_f64 :: "'n json_ext \<Rightarrow> 'n Value \<Rightarrow> u64 option" where
  "as_f64 ext v = (case v of JNumber n \<Rightarrow> num_f64 ext n | _ \<Rightarrow> None)"

definition as_str :: "'n Value \<Rightarrow> ustr option" where
  "as_str v = (case v of JString s \<Rightarrow> Some s | _ \<Rightarrow> None)"

definition as_array :: "'n Value \<Rightarrow> 'n Value list option" where
  "as_array v = (case v of JArray vs \<Rightarrow> Some vs | _ \<Rightarrow> None)"

definition is_object :: "'n Value \<Rightarrow> bool" where
  "is_object v = (case v of JObject _ \<Rightarrow> True | _ \<Rightarrow> False)"

section \<open>Strings\<close>

fun split_by :: "(uchar \<Rightarrow> bool) \<Rightarrow> ustr \<Rightarrow> ustr list" where
  "split_by P [] = [[]]"
| "split_by P (c # cs) =
     (if P c then [] # split_by P cs
      else case split_by P cs of w # ws \<Rightarrow> (c # w) # ws | [] \<Rightarrow> [[c]])"

definition split_dot :: "ustr \<Rightarrow> ustr list" where
  "split_dot s = split_by (\<lambda>c. c = 46) s"

fun join_dot :: "ustr list \<Rightarrow> ustr" where
  "join_dot [] = []"
| "join_dot [w] = w"
| "join_dot (w # ws) = w @ 46 # join_dot ws"

definition to_ascii_lowercase :: "ustr \<Rightarrow> ustr" where
  "to_ascii_lowercase s = map (\<lambda>c. if 65 \<le> c \<and> c \<le> 90 then c + 32 else c) s"

definition tokenize :: "'n json_ext \<Rightarrow> ustr \<Rightarrow> ustr list" where
  "tokenize ext value =
     map to_ascii_lowercase (filter (\<lambda>t. t \<noteq> []) (split_by (\<lambda>c. \<not> alphanumeric ext c) value))"

definition normalize_path_component :: "ustr \<Rightarrow> ustr" where
  "normalize_path_component c =
     (if 2 \<le> length c \<and> drop (length c - 2) c = [91, 93] then take (length c - 2) c else c)"

section \<open>Complexity of a filter\<close>

datatype filter_msg =
  Node_count_overflow | Too_many_nodes | Nested_too_deep | Object_too_wide | Field_too_long | Array_too_wide

definition MAX_DEPTH :: nat where "MAX_DEPTH = 16"
definition MAX_NODES :: nat where "MAX_NODES = 1024"
definition MAX_CONTAINER_ITEMS :: nat where "MAX_CONTAINER_ITEMS = 256"
definition MAX_FIELD_BYTES :: nat where "MAX_FIELD_BYTES = 256"

function complexity_loop :: "('n Value \<times> nat) list \<Rightarrow> nat \<Rightarrow> filter_msg + unit" where
  "complexity_loop [] n = Inr ()"
| "complexity_loop ((value, depth) # stack) n =
     bindE (ok_or Node_count_overflow (checked_add n 1)) (\<lambda>n.
     if n > MAX_NODES then Inl Too_many_nodes
     else if depth > MAX_DEPTH then Inl Nested_too_deep
     else case value of
       JObject kvs \<Rightarrow>
         if length kvs > MAX_CONTAINER_ITEMS then Inl Object_too_wide
         else if list_ex (\<lambda>kv. utf8_len (fst kv) > MAX_FIELD_BYTES) kvs then Inl Field_too_long
         else complexity_loop (rev (map (\<lambda>kv. (snd kv, depth + 1)) kvs) @ stack) n
     | JArray vs \<Rightarrow>
         if length vs > MAX_CONTAINER_ITEMS then Inl Array_too_wide
         else complexity_loop (rev (map (\<lambda>v. (v, depth + 1)) vs) @ stack) n
     | _ \<Rightarrow> complexity_loop stack n)"
  by pat_completeness auto

termination complexity_loop
  by (relation "measure (\<lambda>(stack, _). sum_list (map (\<lambda>vd. nodes (fst vd)) stack))")
    (auto simp: o_def rev_map [symmetric] sum_list_rev split_def)

declare complexity_loop.simps(2) [simp del]

definition validate_complexity :: "'n Value \<Rightarrow> filter_msg + unit" where
  "validate_complexity f = complexity_loop [(f, 0)] 0"

section \<open>Matching\<close>

fun collect_terminal_values :: "'n Value \<Rightarrow> 'n Value list" where
  "collect_terminal_values (JArray vs) = concat (map collect_terminal_values vs)"
| "collect_terminal_values v = [v]"

function collect_path_values :: "'n Value \<Rightarrow> ustr list \<Rightarrow> 'n Value list" where
  "collect_path_values value [] = collect_terminal_values value"
| "collect_path_values value (c # cs) =
     (case value of
        JObject kvs \<Rightarrow>
          (case map_of kvs (normalize_path_component c) of
             None \<Rightarrow> [] | Some child \<Rightarrow> collect_path_values child cs)
      | JArray vs \<Rightarrow> concat (map (\<lambda>v. collect_path_values v (c # cs)) vs)
      | _ \<Rightarrow> [])"
  by pat_completeness auto

termination collect_path_values
  by (relation "measure (\<lambda>(v, _). nodes v)") (auto dest: nodes_get nodes_array)

lemma collect_path_array [simp]:
  "collect_path_values (JArray vs) (c # cs) = concat (map (\<lambda>v. collect_path_values v (c # cs)) vs)"
  by simp

lemma collect_path_object [simp]:
  "collect_path_values (JObject kvs) (c # cs) =
     (case map_of kvs (normalize_path_component c) of None \<Rightarrow> [] | Some child \<Rightarrow> collect_path_values child cs)"
  by simp

lemma collect_path_scalar [simp]:
  "is_object v = False \<Longrightarrow> as_array v = None \<Longrightarrow> collect_path_values v (c # cs) = []"
  by (cases v) (simp_all add: is_object_def as_array_def)

declare collect_path_values.simps(2) [simp del]

definition payload_field_values :: "'n Value \<Rightarrow> ustr \<Rightarrow> 'n Value list" where
  "payload_field_values payload field =
     (case get payload field of
        Some value \<Rightarrow> collect_terminal_values value
      | None \<Rightarrow> collect_path_values payload (split_dot field))"

definition compare_numbers :: "'n json_ext \<Rightarrow> 'n Value \<Rightarrow> 'n Value \<Rightarrow> (u64 \<Rightarrow> u64 \<Rightarrow> bool) \<Rightarrow> bool" where
  "compare_numbers ext actual bound predicate =
     (case (as_f64 ext actual, as_f64 ext bound) of
        (Some l, Some r) \<Rightarrow> predicate l r | _ \<Rightarrow> False)"

definition contains_all_terms :: "'n json_ext \<Rightarrow> ustr \<Rightarrow> ustr \<Rightarrow> bool" where
  "contains_all_terms ext actual query =
     (let terms = tokenize ext query in
      if terms = [] then False
      else let haystack = tokenize ext actual in list_all (\<lambda>t. list_ex (\<lambda>c. c = t) haystack) terms)"

definition matches_text :: "'n json_ext \<Rightarrow> 'n Value \<Rightarrow> 'n Value \<Rightarrow> bool" where
  "matches_text ext actual expected =
     (case as_str actual of None \<Rightarrow> False
      | Some a \<Rightarrow> (case as_str expected of None \<Rightarrow> False | Some q \<Rightarrow> contains_all_terms ext a q))"

definition nested_filter :: "'n Value \<Rightarrow> 'n Value" where
  "nested_filter expected = (case get expected (str ''filter'') of Some f \<Rightarrow> f | None \<Rightarrow> expected)"

lemma nodes_nested_filter: "nodes (nested_filter e) \<le> nodes e"
  by (cases e) (auto simp: nested_filter_def get_def dest: nodes_get split: option.split)

function filter_matches :: "'n json_ext \<Rightarrow> 'n Value \<Rightarrow> 'n Value \<Rightarrow> bool"
  and matches_condition :: "'n json_ext \<Rightarrow> 'n Value \<Rightarrow> 'n Value \<Rightarrow> bool"
  and matches_nested_filter :: "'n json_ext \<Rightarrow> 'n Value \<Rightarrow> 'n Value \<Rightarrow> bool" where
  "filter_matches ext f payload =
     (case f of
        JObject conditions \<Rightarrow>
          (\<forall>(field, expected) \<in> set conditions.
             (let actual_values = payload_field_values payload field in
              actual_values \<noteq> [] \<and> (\<exists>actual \<in> set actual_values. matches_condition ext actual expected)))
      | _ \<Rightarrow> True)"
| "matches_condition ext actual expected =
     (case expected of
        JObject condition \<Rightarrow>
          (\<forall>(op, bound) \<in> set condition.
             if op = str ''eq'' then value_eq ext actual bound
             else if op = str ''ne'' then \<not> value_eq ext actual bound
             else if op = str ''gt'' then compare_numbers ext actual bound (\<lambda>l r. f64_lt r l)
             else if op = str ''gte'' then compare_numbers ext actual bound (\<lambda>l r. f64_le r l)
             else if op = str ''lt'' then compare_numbers ext actual bound f64_lt
             else if op = str ''lte'' then compare_numbers ext actual bound f64_le
             else if op = str ''nested'' then matches_nested_filter ext actual bound
             else if op = str ''text'' then matches_text ext actual bound
             else if op = str ''in'' then
               (case as_array bound of None \<Rightarrow> False | Some vs \<Rightarrow> \<exists>v \<in> set vs. value_eq ext v actual)
             else False)
      | _ \<Rightarrow> value_eq ext actual expected)"
| "matches_nested_filter ext actual expected =
     (let f = nested_filter expected in is_object f \<and> filter_matches ext f actual)"
  by pat_completeness auto

termination filter_matches
proof (relation "measure (\<lambda>x. case x of Inl (ext, f, _) \<Rightarrow> 2 * nodes f
      | Inr (Inl (ext, _, e)) \<Rightarrow> 2 * nodes e | Inr (Inr (ext, _, e)) \<Rightarrow> 2 * nodes e + 1)", goal_cases)
qed (use nodes_nested_filter in \<open>auto dest: nodes_object simp: less_Suc_eq_le\<close>)

declare filter_matches.simps [simp del] matches_condition.simps [simp del] matches_nested_filter.simps [simp del]

section \<open>Predicates for the index\<close>

record 'n IndexedFilterTerm =
  term_field :: ustr
  term_values :: "'n Value list"

record IndexedTextTerm =
  text_field :: ustr
  required_terms :: "ustr list"

record IndexedNumericRangeTerm =
  range_field :: ustr
  range_gt :: "u64 option"
  range_gte :: "u64 option"
  range_lt :: "u64 option"
  range_lte :: "u64 option"

datatype 'n IndexedFilterPredicate =
    Equality "'n IndexedFilterTerm"
  | NumericRange IndexedNumericRangeTerm
  | Text IndexedTextTerm

definition none_or :: "('a \<Rightarrow> bool) \<Rightarrow> 'a option \<Rightarrow> bool" where
  "none_or P x = (case x of None \<Rightarrow> True | Some v \<Rightarrow> P v)"

definition range_matches :: "IndexedNumericRangeTerm \<Rightarrow> u64 \<Rightarrow> bool" where
  "range_matches r v \<longleftrightarrow>
     none_or (\<lambda>b. f64_lt b v) (range_gt r) \<and> none_or (\<lambda>b. f64_le b v) (range_gte r)
     \<and> none_or (\<lambda>b. f64_lt v b) (range_lt r) \<and> none_or (\<lambda>b. f64_le v b) (range_lte r)"

definition is_indexable_value :: "'n Value \<Rightarrow> bool" where
  "is_indexable_value v = (case v of JArray _ \<Rightarrow> False | JObject _ \<Rightarrow> False | _ \<Rightarrow> True)"

definition normalize_index_field :: "ustr \<Rightarrow> ustr" where
  "normalize_index_field field = join_dot (map normalize_path_component (split_dot field))"

definition join_index_fields :: "ustr \<Rightarrow> ustr \<Rightarrow> ustr" where
  "join_index_fields pre field =
     (if pre = [] then field else if field = [] then pre else pre @ 46 # field)"

definition prefix_indexed_predicate_field ::
  "ustr \<Rightarrow> 'n IndexedFilterPredicate \<Rightarrow> 'n IndexedFilterPredicate" where
  "prefix_indexed_predicate_field pre p =
     (case p of
        Equality t \<Rightarrow> Equality (t\<lparr>term_field := join_index_fields pre (term_field t)\<rparr>)
      | NumericRange t \<Rightarrow> NumericRange (t\<lparr>range_field := join_index_fields pre (range_field t)\<rparr>)
      | Text t \<Rightarrow> Text (t\<lparr>text_field := join_index_fields pre (text_field t)\<rparr>))"

definition equality_term :: "ustr \<Rightarrow> 'n Value list \<Rightarrow> 'n IndexedFilterPredicate list option" where
  "equality_term field vs = Some [Equality \<lparr>term_field = field, term_values = vs\<rparr>]"

fun range_loop ::
  "'n json_ext \<Rightarrow> (ustr \<times> 'n Value) list \<Rightarrow> IndexedNumericRangeTerm \<Rightarrow> IndexedNumericRangeTerm option" where
  "range_loop ext [] r = Some r"
| "range_loop ext ((op, bound) # rest) r =
     (case as_f64 ext bound of None \<Rightarrow> None
      | Some b \<Rightarrow>
          if op = str ''gt'' then range_loop ext rest (r\<lparr>range_gt := Some b\<rparr>)
          else if op = str ''gte'' then range_loop ext rest (r\<lparr>range_gte := Some b\<rparr>)
          else if op = str ''lt'' then range_loop ext rest (r\<lparr>range_lt := Some b\<rparr>)
          else if op = str ''lte'' then range_loop ext rest (r\<lparr>range_lte := Some b\<rparr>)
          else None)"

definition range_condition ::
  "'n json_ext \<Rightarrow> ustr \<Rightarrow> (ustr \<times> 'n Value) list \<Rightarrow> 'n IndexedFilterPredicate list option" where
  "range_condition ext field condition =
     map_option (\<lambda>r. [NumericRange r])
       (range_loop ext condition
          \<lparr>range_field = field, range_gt = None, range_gte = None, range_lt = None, range_lte = None\<rparr>)"

function indexed_condition :: "'n json_ext \<Rightarrow> ustr \<Rightarrow> 'n Value \<Rightarrow> 'n IndexedFilterPredicate list option"
  and indexed_nested_conditions ::
    "'n json_ext \<Rightarrow> ustr \<Rightarrow> 'n Value \<Rightarrow> 'n IndexedFilterPredicate list option" where
  "indexed_condition ext field expected =
     (let field = normalize_index_field field in
      case expected of
        JObject condition \<Rightarrow>
          (case condition of
             [(op, bound)] \<Rightarrow>
               if op = str ''eq'' \<and> is_indexable_value bound then equality_term field [bound]
               else if op = str ''in'' then
                 (case as_array bound of None \<Rightarrow> None
                  | Some vs \<Rightarrow> if list_all is_indexable_value vs then equality_term field vs else None)
               else if op = str ''nested'' then indexed_nested_conditions ext field bound
               else if op = str ''text'' then
                 (let terms = (case as_str bound of None \<Rightarrow> [] | Some s \<Rightarrow> tokenize ext s) in
                  if terms = [] then None
                  else Some [Text \<lparr>text_field = field, required_terms = terms\<rparr>])
               else range_condition ext field condition
           | _ \<Rightarrow> range_condition ext field condition)
      | _ \<Rightarrow> if is_indexable_value expected then equality_term field [expected] else None)"
| "indexed_nested_conditions ext field expected =
     (case nested_filter expected of
        JObject conditions \<Rightarrow>
          Some (concat (map (\<lambda>(nested_field, nested_expected).
            (case indexed_condition ext nested_field nested_expected of
               None \<Rightarrow> []
             | Some ps \<Rightarrow> map (prefix_indexed_predicate_field field) ps)) conditions))
      | _ \<Rightarrow> None)"
  by pat_completeness auto

termination indexed_condition
proof (relation "measure (\<lambda>x. case x of Inl (_, _, e) \<Rightarrow> nodes e | Inr (_, _, e) \<Rightarrow> nodes e)", goal_cases)
  case (3 ext field expected conditions x nested_field nested_expected)
  then have "(nested_field, nested_expected) \<in> set conditions" by simp
  then have "nodes nested_expected < nodes (nested_filter expected)" using 3(1) by (simp add: nodes_object del: nodes.simps)
  also have "\<dots> \<le> nodes expected" by (rule nodes_nested_filter)
  finally show ?case by simp
qed auto

declare indexed_condition.simps [simp del] indexed_nested_conditions.simps [simp del]

fun indexed_loop :: "'n json_ext \<Rightarrow> (ustr \<times> 'n Value) list \<Rightarrow> 'n IndexedFilterPredicate list option" where
  "indexed_loop ext [] = Some []"
| "indexed_loop ext ((field, expected) # rest) =
     (case indexed_condition ext field expected of None \<Rightarrow> None
      | Some ps \<Rightarrow> map_option (\<lambda>qs. ps @ qs) (indexed_loop ext rest))"

definition indexed_predicates :: "'n json_ext \<Rightarrow> 'n Value \<Rightarrow> 'n IndexedFilterPredicate list option" where
  "indexed_predicates ext f = (case f of JObject conditions \<Rightarrow> indexed_loop ext conditions | _ \<Rightarrow> None)"

definition indexed_terms :: "'n json_ext \<Rightarrow> 'n Value \<Rightarrow> 'n IndexedFilterTerm list option" where
  "indexed_terms ext f =
     (case indexed_predicates ext f of None \<Rightarrow> None
      | Some ps \<Rightarrow>
          let terms = List.map_filter (\<lambda>p. case p of Equality t \<Rightarrow> Some t | _ \<Rightarrow> None) ps in
          if terms = [] then None else Some terms)"

section \<open>The complexity check is exact\<close>

text \<open>The four limits, over every value of the tree with its depth.\<close>

fun within_limits :: "nat \<Rightarrow> 'n Value \<Rightarrow> bool" where
  "within_limits d (JArray vs) \<longleftrightarrow>
     d \<le> MAX_DEPTH \<and> length vs \<le> MAX_CONTAINER_ITEMS \<and> list_all (within_limits (d + 1)) vs"
| "within_limits d (JObject kvs) \<longleftrightarrow>
     d \<le> MAX_DEPTH \<and> length kvs \<le> MAX_CONTAINER_ITEMS \<and> list_all (\<lambda>kv. utf8_len (fst kv) \<le> MAX_FIELD_BYTES) kvs
     \<and> list_all (\<lambda>kv. within_limits (d + 1) (snd kv)) kvs"
| "within_limits d v \<longleftrightarrow> d \<le> MAX_DEPTH"

lemma list_ex_above: "list_ex (\<lambda>x. m < f x) xs \<longleftrightarrow> \<not> list_all (\<lambda>x. f x \<le> (m :: nat)) xs"
  by (induction xs) auto

lemma list_all_pair_map: "list_all (\<lambda>(v, d). P d v) (rev (map (\<lambda>x. (g x, d')) xs) @ ys) \<longleftrightarrow>
    list_all (\<lambda>x. P d' (g x)) xs \<and> list_all (\<lambda>(v, d). P d v) ys"
  by (auto simp: list_all_iff)

lemma complexity_loop_exact:
  assumes "n \<le> MAX_NODES"
  shows "complexity_loop stack n = Inr () \<longleftrightarrow>
    n + sum_list (map (\<lambda>vd. nodes (fst vd)) stack) \<le> MAX_NODES \<and> list_all (\<lambda>(v, d). within_limits d v) stack"
  using assms
proof (induction stack n rule: complexity_loop.induct)
  case (2 v d stack n)
  have lim: "MAX_NODES < u64_limit" by (simp add: MAX_NODES_def)
  show ?case
  proof (cases "n + 1 \<le> MAX_NODES")
    case True
    then have c: "checked_add n 1 = Some (n + 1)" using lim by (simp add: checked_add_def)
    show ?thesis
    proof (cases v)
      case (JArray vs)
      with 2(5) [of "n + 1" vs] True c show ?thesis
        by (simp add: complexity_loop.simps(2) ok_or_def o_def rev_map [symmetric] sum_list_rev list_all_pair_map
            not_less list.pred_map add_ac)
    next
      case (JObject kvs)
      with 2(6) [of "n + 1" kvs] True c show ?thesis
        by (simp add: complexity_loop.simps(2) ok_or_def o_def rev_map [symmetric] sum_list_rev list_all_pair_map
            not_less list_ex_above list.pred_map add_ac)
    qed (use True c 2 in \<open>auto simp: complexity_loop.simps(2) ok_or_def\<close>)
  next
    case False
    then show ?thesis using lim nodes_pos [of v]
      by (auto simp: complexity_loop.simps(2) ok_or_def checked_add_def simp del: nodes_pos)
  qed
qed simp

text \<open>
  C36. The complexity check of a filter accepts exactly the filters with at most 1024 values, nested at
  most 16 deep, with at most 256 entries in every array and object and field names of at most 256
  bytes; its explicit stack visits the whole tree and stops.
\<close>

theorem validate_complexity_exact:
  "validate_complexity f = Inr () \<longleftrightarrow> nodes f \<le> MAX_NODES \<and> within_limits 0 f"
  by (simp add: validate_complexity_def complexity_loop_exact)

section \<open>Predicates cover the filter\<close>

text \<open>The scalar entries of a payload, with the dotted paths the index files them under.\<close>

fun flat :: "ustr \<Rightarrow> 'n Value \<Rightarrow> (ustr \<times> 'n Value) list" where
  "flat field (JArray vs) = concat (map (flat field) vs)"
| "flat field (JObject kvs) = concat (map (\<lambda>kv. flat (field @ 46 # fst kv) (snd kv)) kvs)"
| "flat field v = [(field, v)]"

definition entries :: "'n Value \<Rightarrow> (ustr \<times> 'n Value) list" where
  "entries payload = (case payload of JObject kvs \<Rightarrow> concat (map (\<lambda>kv. flat (fst kv) (snd kv)) kvs) | _ \<Rightarrow> [])"

definition predicate_holds :: "'n json_ext \<Rightarrow> (ustr \<times> 'n Value) set \<Rightarrow> 'n IndexedFilterPredicate \<Rightarrow> bool" where
  "predicate_holds ext es p =
     (case p of
        Equality t \<Rightarrow> \<exists>v. (term_field t, v) \<in> es \<and> (\<exists>w \<in> set (term_values t). value_eq ext v w \<or> value_eq ext w v)
      | NumericRange r \<Rightarrow> \<exists>v x. (range_field r, v) \<in> es \<and> as_f64 ext v = Some x \<and> range_matches r x
      | Text t \<Rightarrow> \<exists>s. (text_field t, JString s) \<in> es \<and> set (required_terms t) \<subseteq> set (tokenize ext s))"

text \<open>
  Keys the index can file: not empty, and without the array marker at the end of a dotted component.
  A filter without empty objects asks for something at every field.
\<close>

definition clean_key :: "ustr \<Rightarrow> bool" where
  "clean_key k \<longleftrightarrow> k \<noteq> [] \<and> normalize_index_field k = k"

fun clean_keys :: "'n Value \<Rightarrow> bool" where
  "clean_keys (JArray vs) = list_all clean_keys vs"
| "clean_keys (JObject kvs) = (list_all (\<lambda>kv. clean_key (fst kv)) kvs \<and> list_all (\<lambda>kv. clean_keys (snd kv)) kvs)"
| "clean_keys _ = True"

fun no_empty_object :: "'n Value \<Rightarrow> bool" where
  "no_empty_object (JArray vs) = list_all no_empty_object vs"
| "no_empty_object (JObject kvs) = (kvs \<noteq> [] \<and> list_all (\<lambda>kv. no_empty_object (snd kv)) kvs)"
| "no_empty_object _ = True"

definition is_array :: "'n Value \<Rightarrow> bool" where
  "is_array v = (case v of JArray _ \<Rightarrow> True | _ \<Rightarrow> False)"

lemma collect_terminal_flat:
  "v \<in> set (collect_terminal_values value) \<Longrightarrow> set (flat F v) \<subseteq> set (flat F value)"
  by (induction "value" rule: collect_terminal_values.induct) auto

lemma collect_terminal_not_array: "v \<in> set (collect_terminal_values value) \<Longrightarrow> \<not> is_array v"
  by (induction "value" rule: collect_terminal_values.induct) (auto simp: is_array_def)

lemma collect_terminal_clean:
  "v \<in> set (collect_terminal_values value) \<Longrightarrow> clean_keys value \<Longrightarrow> clean_keys v"
  by (induction "value" rule: collect_terminal_values.induct) (auto simp: list_all_iff)

definition dotted :: "ustr list \<Rightarrow> ustr" where
  "dotted cs = concat (map (\<lambda>c. 46 # normalize_path_component c) cs)"

lemma collect_path_flat:
  "v \<in> set (collect_path_values value cs) \<Longrightarrow> set (flat (F @ dotted cs) v) \<subseteq> set (flat F value)"
proof (induction "value" cs arbitrary: F rule: collect_path_values.induct)
  case (1 "value")
  then show ?case by (simp add: dotted_def collect_terminal_flat)
next
  case (2 "value" c cs)
  show ?case
  proof (cases "value")
    case (JArray vs)
    with 2(1) [OF JArray] 2(3) show ?thesis by fastforce
  next
    case (JObject kvs)
    with 2(3) obtain child where child: "map_of kvs (normalize_path_component c) = Some child"
      "v \<in> set (collect_path_values child cs)" by (cases "map_of kvs (normalize_path_component c)") auto
    from 2(2) [OF JObject child, of "F @ 46 # normalize_path_component c"]
    have "set (flat (F @ dotted (c # cs)) v) \<subseteq> set (flat (F @ 46 # normalize_path_component c) child)"
      by (simp add: dotted_def)
    also have "\<dots> \<subseteq> set (flat F value)" using JObject map_of_SomeD [OF child(1)] by force
    finally show ?thesis .
  qed (use 2(3) in \<open>simp_all add: is_object_def as_array_def\<close>)
qed

lemma collect_path_clean:
  "v \<in> set (collect_path_values value cs) \<Longrightarrow> clean_keys value \<Longrightarrow> clean_keys v \<and> \<not> is_array v"
proof (induction "value" cs rule: collect_path_values.induct)
  case (2 "value" c cs)
  show ?case
  proof (cases "value")
    case (JArray vs)
    with 2(3) obtain w where "w \<in> set vs" "v \<in> set (collect_path_values w (c # cs))" by auto
    with 2(1) [OF JArray] 2(4) JArray show ?thesis by (simp add: list_all_iff)
  next
    case (JObject kvs)
    with 2(3) obtain child where child: "map_of kvs (normalize_path_component c) = Some child"
      "v \<in> set (collect_path_values child cs)" by (cases "map_of kvs (normalize_path_component c)") auto
    with 2(2) [OF JObject child] 2(4) JObject map_of_SomeD [OF child(1)] show ?thesis by (auto simp: list_all_iff)
  qed (use 2(3) in \<open>simp_all add: is_object_def as_array_def\<close>)
qed (auto dest: collect_terminal_not_array collect_terminal_clean)

lemma split_by_nonempty: "split_by P s \<noteq> []"
  by (induction s) (auto split: list.split)

lemma join_dotted: "join_dot (map normalize_path_component (c # cs)) = normalize_path_component c @ dotted cs"
  by (induction cs arbitrary: c) (simp_all add: dotted_def)

lemma clean_get:
  assumes "clean_keys (JObject kvs)" "map_of kvs k = Some v"
  shows "clean_key k" "clean_keys v" "(k, v) \<in> set kvs"
  using assms map_of_SomeD [OF assms(2)] by (auto simp: list_all_iff)

lemma field_values:
  assumes "v \<in> set (payload_field_values (JObject kvs) field)" "clean_keys (JObject kvs)"
  obtains k child where "(k, child) \<in> set kvs" "set (flat (G @ normalize_index_field field) v) \<subseteq> set (flat (G @ k) child)"
    "normalize_index_field field \<noteq> []" "clean_keys v" "\<not> is_array v"
proof (cases "map_of kvs field")
  case (Some w)
  with assms(1) have v: "v \<in> set (collect_terminal_values w)" by (simp add: payload_field_values_def get_def)
  from clean_get [OF assms(2) Some] have "clean_key field" "clean_keys w" "(field, w) \<in> set kvs" .
  with v that [of field w] collect_terminal_flat [OF v, of "G @ field"] collect_terminal_not_array [OF v]
    collect_terminal_clean [OF v] show thesis by (simp add: clean_key_def)
next
  case None
  obtain c cs where split: "split_dot field = c # cs"
    using split_by_nonempty by (metis split_dot_def neq_Nil_conv)
  with None assms(1) have v: "v \<in> set (collect_path_values (JObject kvs) (c # cs))"
    by (simp add: payload_field_values_def get_def)
  then obtain child where child: "map_of kvs (normalize_path_component c) = Some child" "v \<in> set (collect_path_values child cs)"
    by (cases "map_of kvs (normalize_path_component c)") auto
  from clean_get [OF assms(2) child(1)]
  have c: "clean_key (normalize_path_component c)" "clean_keys child" "(normalize_path_component c, child) \<in> set kvs" .
  have norm: "normalize_index_field field = normalize_path_component c @ dotted cs"
    by (simp add: normalize_index_field_def split join_dotted del: list.map)
  from that [OF c(3), of ] collect_path_flat [OF child(2), of "G @ normalize_path_component c"]
    collect_path_clean [OF child(2) c(2)] c(1) show thesis by (simp add: norm clean_key_def)
qed

lemma predicate_holds_mono: "predicate_holds ext es p \<Longrightarrow> es \<subseteq> es' \<Longrightarrow> predicate_holds ext es' p"
  by (cases p) (fastforce simp: predicate_holds_def)+

definition pfield :: "'n IndexedFilterPredicate \<Rightarrow> ustr" where
  "pfield p = (case p of Equality t \<Rightarrow> term_field t | NumericRange r \<Rightarrow> range_field r | Text t \<Rightarrow> text_field t)"

lemma flat_prefix: "flat (G @ F) v = map (\<lambda>(f, x). (G @ f, x)) (flat F v)"
proof (induction F v rule: flat.induct)
  case (1 F vs)
  then show ?case by (simp add: map_concat o_def cong: map_cong)
next
  case (2 F kvs)
  then show ?case by (simp add: map_concat o_def cong: map_cong)
qed simp_all

lemma flat_field: "(f, x) \<in> set (flat F v) \<Longrightarrow> \<exists>g. f = F @ g"
  using flat_prefix [of F "[]" v] by auto

lemma str_eq [simp]: "str s = str t \<longleftrightarrow> s = t"
  unfolding str_def by (rule inj_map_eq_map) (rule injI, simp)

lemma value_eq_scalar:
  "value_eq ext v w \<or> value_eq ext w v \<Longrightarrow> is_indexable_value w \<Longrightarrow> is_indexable_value v"
  by (cases v; cases w) (auto simp: is_indexable_value_def)

lemma flat_scalar: "is_indexable_value v \<Longrightarrow> flat F v = [(F, v)]"
  by (cases v) (auto simp: is_indexable_value_def)

lemma as_f64_scalar: "as_f64 ext v = Some x \<Longrightarrow> is_indexable_value v"
  by (cases v) (auto simp: is_indexable_value_def as_f64_def)

text \<open>What a numeric range collects from the operators of a condition.\<close>

definition range_op :: "'n json_ext \<Rightarrow> 'n Value \<Rightarrow> ustr \<times> 'n Value \<Rightarrow> bool" where
  "range_op ext v ob \<longleftrightarrow>
     (fst ob = str ''gt'' \<longrightarrow> compare_numbers ext v (snd ob) (\<lambda>l r. f64_lt r l))
     \<and> (fst ob = str ''gte'' \<longrightarrow> compare_numbers ext v (snd ob) (\<lambda>l r. f64_le r l))
     \<and> (fst ob = str ''lt'' \<longrightarrow> compare_numbers ext v (snd ob) f64_lt)
     \<and> (fst ob = str ''lte'' \<longrightarrow> compare_numbers ext v (snd ob) f64_le)"

lemma range_loop_matches:
  assumes "range_loop ext condition r = Some r'" "\<forall>ob \<in> set condition. range_op ext v ob"
    and "as_f64 ext v = Some x" "range_matches r x"
  shows "range_matches r' x \<and> range_field r' = range_field r"
  using assms
proof (induction ext condition r rule: range_loop.induct)
  case (2 ext op bound rest r)
  from 2(5) obtain b where b: "as_f64 ext bound = Some b" by (auto split: option.splits)
  have op: "range_op ext v (op, bound)" and rest: "\<forall>ob \<in> set rest. range_op ext v ob" using 2(6) by simp_all
  consider "op = str ''gt''" | "op = str ''gte''" | "op = str ''lt''" | "op = str ''lte''"
    using 2(5) b by (auto split: if_splits)
  then show ?case
    by cases (use 2(5,7,8) op rest b 2(1-4) in \<open>simp_all add: range_op_def range_matches_def compare_numbers_def none_or_def\<close>)
qed simp

lemma range_loop_number:
  assumes "range_loop ext condition r = Some r'" "\<forall>ob \<in> set condition. range_op ext v ob" "condition \<noteq> []"
  shows "\<exists>x. as_f64 ext v = Some x"
  using assms by (cases condition) (auto simp: range_op_def compare_numbers_def split: option.splits if_splits)

lemma matches_condition_range:
  assumes "matches_condition ext v (JObject condition)"
  shows "\<forall>ob \<in> set condition. range_op ext v ob"
  using assms by (auto simp: matches_condition.simps range_op_def)

lemma range_condition_holds:
  assumes "range_condition ext F condition = Some ps" "matches_condition ext v (JObject condition)" "condition \<noteq> []"
    and "set (flat F v) \<subseteq> es" "p \<in> set ps"
  shows "predicate_holds ext es p"
proof -
  from assms(1,5) obtain r where r: "p = NumericRange r" "range_loop ext condition
      \<lparr>range_field = F, range_gt = None, range_gte = None, range_lt = None, range_lte = None\<rparr> = Some r"
    by (auto simp: range_condition_def)
  note ops = matches_condition_range [OF assms(2)]
  from range_loop_number [OF r(2) ops assms(3)] obtain x where x: "as_f64 ext v = Some x" by blast
  from range_loop_matches [OF r(2) ops x] have "range_matches r x \<and> range_field r = F"
    by (simp add: range_matches_def none_or_def)
  with x assms(4) flat_scalar [OF as_f64_scalar [OF x], of F] show ?thesis by (auto simp: r(1) predicate_holds_def)
qed

lemma prefix_predicate_holds:
  assumes "predicate_holds ext es p" "\<forall>(f, x) \<in> es. f \<noteq> []" "F \<noteq> []" "(\<lambda>(f, x). (F @ 46 # f, x)) ` es \<subseteq> es'"
  shows "predicate_holds ext es' (prefix_indexed_predicate_field F p)"
proof -
  have *: "(F @ 46 # f, x) \<in> es'" "join_index_fields F f = F @ 46 # f" if "(f, x) \<in> es" for f x
    using assms(2-4) that by (auto simp: join_index_fields_def)
  show ?thesis
  proof (cases p)
    case (Equality t)
    then obtain v w where "(term_field t, v) \<in> es" "w \<in> set (term_values t)" "value_eq ext v w \<or> value_eq ext w v"
      using assms(1) by (auto simp: predicate_holds_def)
    with * [of "term_field t" v] show ?thesis
      by (auto simp: Equality predicate_holds_def prefix_indexed_predicate_field_def)
  next
    case (NumericRange r)
    then obtain v x where "(range_field r, v) \<in> es" "as_f64 ext v = Some x" "range_matches r x"
      using assms(1) by (auto simp: predicate_holds_def)
    with * [of "range_field r" v] show ?thesis
      by (auto simp: NumericRange predicate_holds_def prefix_indexed_predicate_field_def range_matches_def)
  next
    case (Text t)
    then obtain s where "(text_field t, JString s) \<in> es" "set (required_terms t) \<subseteq> set (tokenize ext s)"
      using assms(1) by (auto simp: predicate_holds_def)
    with * [of "text_field t" "JString s"] show ?thesis
      by (auto simp: Text predicate_holds_def prefix_indexed_predicate_field_def)
  qed
qed

lemma no_empty_nested: "no_empty_object e \<Longrightarrow> no_empty_object (nested_filter e)"
  by (cases e) (auto simp: nested_filter_def get_def list_all_iff dest!: map_of_SomeD split: option.split)

lemma field_values_object:
  assumes "v \<in> set (payload_field_values a field)" "\<not> is_array a"
  shows "is_object a"
proof -
  obtain c cs where "split_dot field = c # cs" using split_by_nonempty by (metis split_dot_def neq_Nil_conv)
  with assms show ?thesis
    by (cases a) (auto simp: payload_field_values_def get_def is_object_def is_array_def as_array_def)
qed

lemma nested_conditions_hold:
  assumes IH: "\<And>nf ne es qs u q. (nf, ne) \<in> set conditions \<Longrightarrow> indexed_condition ext nf ne = Some qs \<Longrightarrow>
      matches_condition ext u ne \<Longrightarrow> clean_keys u \<Longrightarrow> \<not> is_array u \<Longrightarrow>
      set (flat (normalize_index_field nf) u) \<subseteq> es \<Longrightarrow> normalize_index_field nf \<noteq> [] \<Longrightarrow> q \<in> set qs \<Longrightarrow> predicate_holds ext es q"
    and v: "filter_matches ext (JObject conditions) v" "clean_keys v" "\<not> is_array v" "set (flat F v) \<subseteq> es" "F \<noteq> []"
    and c: "(nf, ne) \<in> set conditions" "indexed_condition ext nf ne = Some qs" "q \<in> set qs"
  shows "predicate_holds ext es (prefix_indexed_predicate_field F q)"
proof -
  from v(1) c(1) obtain u where u: "u \<in> set (payload_field_values v nf)" "matches_condition ext u ne"
    by (fastforce simp: filter_matches.simps Let_def)
  from field_values_object [OF u(1) v(3)] obtain kvs where kvs: "v = JObject kvs"
    by (cases v) (auto simp: is_object_def)
  from field_values [OF u(1) [unfolded kvs] v(2) [unfolded kvs], of "F @ [46]"]
  obtain k child where k: "(k, child) \<in> set kvs"
      "set (flat ((F @ [46]) @ normalize_index_field nf) u) \<subseteq> set (flat ((F @ [46]) @ k) child)"
      "normalize_index_field nf \<noteq> []" "clean_keys u" "\<not> is_array u" by metis
  let ?es = "set (flat (normalize_index_field nf) u)"
  have "predicate_holds ext ?es q" by (rule IH [OF c(1,2) u(2) k(4,5) subset_refl k(3) c(3)])
  moreover have "\<forall>(f, x) \<in> ?es. f \<noteq> []" using k(3) flat_field by fastforce
  moreover have "(\<lambda>(f, x). (F @ 46 # f, x)) ` ?es \<subseteq> es"
  proof -
    have "(\<lambda>(f, x). (F @ 46 # f, x)) ` ?es = set (flat ((F @ [46]) @ normalize_index_field nf) u)"
      unfolding flat_prefix [of "F @ [46]"] by simp
    also have "\<dots> \<subseteq> set (flat F v)" using k(1,2) by (force simp: kvs)
    finally show ?thesis using v(4) by blast
  qed
  ultimately show ?thesis using v(5) by (intro prefix_predicate_holds)
qed

lemma equality_term_holds:
  assumes "equality_term F ws = Some ps" "p \<in> set ps" "w \<in> set ws" "value_eq ext v w \<or> value_eq ext w v"
    and "is_indexable_value w" "set (flat F v) \<subseteq> es"
  shows "predicate_holds ext es p"
  using assms value_eq_scalar [OF assms(4,5)] flat_scalar [of v F]
  by (auto simp: equality_term_def predicate_holds_def) blast+

lemma text_term_holds:
  assumes "matches_text ext v bound" "set (flat F v) \<subseteq> es" "as_str bound = Some s"
  shows "predicate_holds ext es (Text \<lparr>text_field = F, required_terms = tokenize ext s\<rparr>)"
proof -
  from assms(1) obtain a where "v = JString a"
    by (cases v) (auto simp: matches_text_def as_str_def)
  with assms show ?thesis
    by (auto simp: matches_text_def as_str_def contains_all_terms_def predicate_holds_def Let_def list_all_iff list_ex_iff
        split: if_splits)
qed

lemma indexed_condition_holds:
  "indexed_condition ext field expected = Some ps \<Longrightarrow> matches_condition ext v expected \<Longrightarrow> no_empty_object expected \<Longrightarrow>
     clean_keys v \<Longrightarrow> \<not> is_array v \<Longrightarrow> set (flat (normalize_index_field field) v) \<subseteq> es \<Longrightarrow> normalize_index_field field \<noteq> [] \<Longrightarrow>
     p \<in> set ps \<Longrightarrow> predicate_holds ext es p"
  and indexed_nested_holds:
  "indexed_nested_conditions ext field expected = Some ps \<Longrightarrow> matches_nested_filter ext v expected \<Longrightarrow> no_empty_object expected \<Longrightarrow>
     clean_keys v \<Longrightarrow> \<not> is_array v \<Longrightarrow> set (flat field v) \<subseteq> es \<Longrightarrow> field \<noteq> [] \<Longrightarrow>
     p \<in> set ps \<Longrightarrow> predicate_holds ext es p"
proof (induction ext field expected and ext field expected arbitrary: ps v es p and ps v es p
    rule: indexed_condition_indexed_nested_conditions.induct)
  case (1 ext field expected)
  let ?F = "normalize_index_field field"
  show ?case
  proof (cases expected)
    case (JObject condition)
    note range = range_condition_holds [OF _ 1(3) [unfolded JObject] _ 1(7) 1(9)]
    have ne: "condition \<noteq> []" using 1(4) JObject by simp
    show ?thesis
    proof (cases "\<exists>op bound. condition = [(op, bound)]")
      case False
      then have "range_condition ext ?F condition = Some ps"
        using 1(2) by (auto simp: indexed_condition.simps Let_def JObject split: list.splits prod.splits)
      then show ?thesis using ne by (rule range)
    next
      case True
      then obtain op bound where ob: "condition = [(op, bound)]" by blast
      note i = 1(2) [unfolded indexed_condition.simps JObject ob Let_def, simplified]
      note m = 1(3) [unfolded matches_condition.simps JObject ob, simplified]
      consider "op = str ''eq''" "is_indexable_value bound" | "op = str ''in''" | "op = str ''nested''" | "op = str ''text''"
        | "range_condition ext ?F condition = Some ps"
        using i ob by (auto split: if_splits)
      then show ?thesis
      proof cases
        case 1
        with i m show ?thesis by (auto intro: equality_term_holds [OF _ \<open>p \<in> set ps\<close> _ _ _ \<open>set (flat ?F v) \<subseteq> es\<close>])
      next
        case 2
        with i m obtain vs w where "as_array bound = Some vs" "list_all is_indexable_value vs" "equality_term ?F vs = Some ps"
          "w \<in> set vs" "value_eq ext w v" by (auto split: option.splits if_splits)
        then show ?thesis
          by (intro equality_term_holds [OF _ \<open>p \<in> set ps\<close> _ _ _ \<open>set (flat ?F v) \<subseteq> es\<close>]) (auto simp: list_all_iff)
      next
        case 3
        with i m 1(1) [OF refl JObject ob refl] 1(4-9) JObject ob show ?thesis by (simp add: list_all_iff)
      next
        case 4
        with i m \<open>p \<in> set ps\<close> text_term_holds [OF _ \<open>set (flat ?F v) \<subseteq> es\<close>] show ?thesis
          by (auto simp: Let_def split: option.splits if_splits)
      next
        case 5
        then show ?thesis using ne by (rule range)
      qed
    qed
  qed (use 1(2-9) in \<open>auto simp: indexed_condition.simps matches_condition.simps Let_def is_indexable_value_def
      intro: equality_term_holds split: if_splits\<close>)
next
  case (2 ext field expected)
  from 2(3) obtain conditions where c: "nested_filter expected = JObject conditions" "filter_matches ext (JObject conditions) v"
    by (cases "nested_filter expected") (auto simp: matches_nested_filter.simps is_object_def Let_def)
  have ne: "no_empty_object ne" if "(nf, ne) \<in> set conditions" for nf ne
    using no_empty_nested [OF 2(4)] that by (auto simp: c(1) list_all_iff)
  from 2(2,9) c(1) obtain nf ne qs q where q: "(nf, ne) \<in> set conditions" "indexed_condition ext nf ne = Some qs" "q \<in> set qs"
      "p = prefix_indexed_predicate_field field q"
    by (auto simp: indexed_nested_conditions.simps split: option.splits) metis
  show ?case unfolding q(4)
    by (rule nested_conditions_hold [OF _ c(2) 2(5-8) q(1-3)]) (use 2(1) [OF c(1) _ refl] ne in blast)
qed

lemma indexed_loop_member:
  "indexed_loop ext conditions = Some ps \<Longrightarrow> p \<in> set ps \<Longrightarrow>
     \<exists>field expected qs. (field, expected) \<in> set conditions \<and> indexed_condition ext field expected = Some qs \<and> p \<in> set qs"
  by (induction ext conditions arbitrary: ps rule: indexed_loop.induct) (fastforce split: option.splits)+

lemma predicates_cover:
  assumes "indexed_predicates ext f = Some ps" and "filter_matches ext f payload"
    and "no_empty_object f" and "clean_keys payload" and "\<not> is_array payload" and p: "p \<in> set ps"
  shows "predicate_holds ext (set (entries payload)) p"
proof -
  from assms(1) obtain conditions where f: "f = JObject conditions" "indexed_loop ext conditions = Some ps"
    by (auto simp: indexed_predicates_def split: Value.splits)
  from indexed_loop_member [OF f(2) p] obtain field expected qs where
    q: "(field, expected) \<in> set conditions" "indexed_condition ext field expected = Some qs" "p \<in> set qs" by blast
  from assms(2) q(1) obtain u where u: "u \<in> set (payload_field_values payload field)" "matches_condition ext u expected"
    by (fastforce simp: f(1) filter_matches.simps Let_def)
  from field_values_object [OF u(1) assms(5)] obtain kvs where kvs: "payload = JObject kvs"
    by (cases payload) (auto simp: is_object_def)
  from field_values [OF u(1) [unfolded kvs] assms(4) [unfolded kvs], of "[]"]
  obtain k child where k: "(k, child) \<in> set kvs" "set (flat (normalize_index_field field) u) \<subseteq> set (flat k child)"
      "normalize_index_field field \<noteq> []" "clean_keys u" "\<not> is_array u" by (metis append_Nil)
  have "no_empty_object expected" using assms(3) q(1) by (auto simp: f(1) list_all_iff)
  moreover have "set (flat (normalize_index_field field) u) \<subseteq> set (entries payload)"
    using k(1,2) by (force simp: entries_def kvs)
  ultimately show ?thesis
    by (intro indexed_condition_holds [OF q(2) u(2) _ k(4,5) _ k(3) q(3)])
qed


text \<open>Numbers for examples: integers that are their own text and have no double value.\<close>

definition nat_ext :: "nat json_ext" where
  "nat_ext = \<lparr>num_eq = (=), num_f64 = (\<lambda>_. None), num_text = (\<lambda>n. replicate n 49),
     alphanumeric = (\<lambda>c. 48 \<le> c \<and> c \<le> 57 \<or> 65 \<le> c \<and> c \<le> 90 \<or> 97 \<le> c \<and> c \<le> 122)\<rparr>"

lemmas filter_eval = filter_matches.simps matches_condition.simps matches_nested_filter.simps payload_field_values_def
  get_def split_dot_def str_def collect_path_values.simps normalize_path_component_def indexed_predicates_def indexed_condition.simps
  indexed_nested_conditions.simps nested_filter_def equality_term_def is_indexable_value_def normalize_index_field_def is_object_def Let_def


end
