(* ===== verification/Graph_Traversal.thy ===== *)
theory Graph_Traversal
  imports Json_Filter
begin

text \<open>
  Exact graph traversal, after \<open>chirondb-core/src/graph_traversal.rs\<close>: breadth-first search and the
  enumeration of simple paths over a graph view, under a budget.

  The graph, the query authority and the payload lookup are the fields of \<open>MutableTraversal\<close>, as in
  the code, and may fail. What changes while a query runs is read through a tick that advances with
  every reading: whether it was cancelled, the elapsed milliseconds, and whether the authority still
  holds. A loop body ends in \<open>Next\<close>, \<open>Halt\<close> (a truncation that breaks out of the frontier loop) or
  \<open>Fail\<close> (an early return with an error). The part of the two edge loops that the code writes out
  twice is \<open>examine\<close>; its continuation is what differs.

  Main results: a search reports every node with its exact distance and nothing else, a search that
  is not truncated misses no node within the depth, the budget is respected, and the enumerated
  paths are exactly the simple paths.
\<close>

definition NODE_STATE_BYTES :: nat where "NODE_STATE_BYTES = 1152"
definition FRONTIER_NODE_BYTES :: nat where "FRONTIER_NODE_BYTES = 8"
definition CAPTURED_EDGE_BYTES :: nat where "CAPTURED_EDGE_BYTES = 64"
definition EDGE_CHECK_INTERVAL :: nat where "EDGE_CHECK_INTERVAL = 4096"

text \<open>The sizes of \<open>TraversalVisit\<close> and of \<open>Nid\<close> in memory.\<close>

definition VISIT_BYTES :: nat where "VISIT_BYTES = 16"
definition NID_BYTES :: nat where "NID_BYTES = 8"

section \<open>Data\<close>

record AdjacencyEdge =
  ae_edge_id :: edge_id
  ae_source :: nid
  ae_target :: nid
  ae_type_id :: type_id
  ae_local_base :: "u32 option"

datatype AdjacencyStep = Edge AdjacencyEdge | Checkpoint

datatype 'e traversal_msg = Cancelled_during_expansion | Live_edge_without_properties | Provider 'e

type_synonym ('e, 'a) tresult = "('e traversal_msg, 'a) result"

record ('n, 'e) TraversalGraph =
  tg_outgoing :: "GraphNamespace \<Rightarrow> nid \<Rightarrow> ('e, ('e, AdjacencyStep) tresult list) tresult"
  tg_incoming :: "GraphNamespace \<Rightarrow> nid \<Rightarrow> ('e, ('e, AdjacencyStep) tresult list) tresult"
  tg_edge_visible :: "edge_id \<Rightarrow> bool"
  tg_edge_properties :: "edge_id \<Rightarrow> ('e, 'n Value option) tresult"
  tg_cursor_memory_bytes :: nat
  tg_property_memory_bytes :: "edge_id \<Rightarrow> nat"
  tg_local_reference_superseded :: "u32 \<Rightarrow> nid \<Rightarrow> bool"

record ('n, 'e) TraversalAccess =
  acc_check :: "nat \<Rightarrow> ('e, unit) tresult"
  acc_visible :: "nid \<Rightarrow> ('e, bool) tresult"
  acc_matches_node :: "nid \<Rightarrow> 'n Value \<Rightarrow> ('e, bool) tresult"

record ('n, 'e) MutableTraversal =
  t_json :: "'n json_ext"
  t_graph :: "('n, 'e) TraversalGraph"
  t_access :: "('n, 'e) TraversalAccess option"
  t_anchors :: "nid list"
  t_visible_anchor_count :: nat
  t_selected_types :: "type_id set option"
  t_direction :: GraphDirection
  t_node_filter :: "'n Value option"
  t_statement_filter :: "'n Value option"
  t_edge_filter :: "'n Value option"
  t_budget :: TraversalBudget
  t_cancelled :: "nat \<Rightarrow> bool"
  t_elapsed :: "nat \<Rightarrow> nat"
  t_payload_for_nid :: "nid \<Rightarrow> ('e, 'n Value option) tresult"
  t_namespaces_for_payload :: "'n Value \<Rightarrow> GraphNamespace list"

record TraversalEdgeVisit =
  ev_edge_id :: edge_id
  ev_source :: nid
  ev_target :: nid
  ev_type_id :: type_id

record TraversalPathVisit =
  pv_nodes :: "nid list"
  pv_edges :: "TraversalEdgeVisit list"

record TraversalExecution =
  x_result :: TraversalResult
  x_edges :: "TraversalEdgeVisit list"
  x_paths :: "TraversalPathVisit list"
  x_internal_edges_examined :: nat

definition execution ::
  "TraversalResult \<Rightarrow> nat \<Rightarrow> TraversalEdgeVisit list \<Rightarrow> TraversalPathVisit list \<Rightarrow> TraversalExecution" where
  "execution r internal es ps =
     \<lparr>x_result = r, x_edges = es, x_paths = ps, x_internal_edges_examined = internal\<rparr>"

definition truncated :: "TraversalStats \<Rightarrow> TraversalTruncationReason \<Rightarrow> TraversalResult" where
  "truncated st reason = \<lparr>visits = [], stats = st, truncation = Some reason, warnings = []\<rparr>"

definition edge_visit :: "AdjacencyEdge \<Rightarrow> TraversalEdgeVisit" where
  "edge_visit e = \<lparr>ev_edge_id = ae_edge_id e, ev_source = ae_source e, ev_target = ae_target e, ev_type_id = ae_type_id e\<rparr>"

definition cancelled_error :: "'e traversal_msg GaussError" where
  "cancelled_error = Graph (graph_error_new Cancelled Cancelled_during_expansion)"

section \<open>Authority and predicates\<close>

definition access_visible :: "('n, 'e) MutableTraversal \<Rightarrow> nid \<Rightarrow> ('e, bool) tresult" where
  "access_visible t v = (case t_access t of None \<Rightarrow> Inr True | Some a \<Rightarrow> acc_visible a v)"

definition node_filters_match :: "'n json_ext \<Rightarrow> 'n Value option \<Rightarrow> 'n Value option \<Rightarrow> 'n Value \<Rightarrow> bool" where
  "node_filters_match ext graph_filter statement_filter payload \<longleftrightarrow>
     none_or (\<lambda>f. filter_matches ext f payload) graph_filter
     \<and> none_or (\<lambda>f. filter_matches ext f payload) statement_filter"

definition matches_node :: "('n, 'e) MutableTraversal \<Rightarrow> nid \<Rightarrow> 'n Value \<Rightarrow> ('e, bool) tresult" where
  "matches_node t v payload =
     (case t_access t of
        Some a \<Rightarrow> acc_matches_node a v payload
      | None \<Rightarrow> Inr (node_filters_match (t_json t) (t_node_filter t) (t_statement_filter t) payload))"

section \<open>Work and its control flow\<close>

datatype ('s, 'e) flow = Next 's | Halt TraversalTruncationReason 's | Fail 'e

definition bindF :: "('s, 'e) flow \<Rightarrow> ('s \<Rightarrow> ('s, 'e) flow) \<Rightarrow> ('s, 'e) flow" where
  "bindF m k = (case m of Next s \<Rightarrow> k s | Halt r s \<Rightarrow> Halt r s | Fail e \<Rightarrow> Fail e)"

definition tryF :: "'e + 'a \<Rightarrow> ('a \<Rightarrow> ('s, 'e) flow) \<Rightarrow> ('s, 'e) flow" where
  "tryF m k = (case m of Inl e \<Rightarrow> Fail e | Inr x \<Rightarrow> k x)"

fun each :: "('a \<Rightarrow> 's \<Rightarrow> ('s, 'e) flow) \<Rightarrow> 'a list \<Rightarrow> 's \<Rightarrow> ('s, 'e) flow" where
  "each f [] s = Next s"
| "each f (x # xs) s = bindF (f x s) (each f xs)"

record work =
  tick :: nat
  w_stats :: TraversalStats
  internal_edges :: nat

definition access_check :: "('n, 'e) MutableTraversal \<Rightarrow> 'z work_scheme \<Rightarrow> ('z work_scheme, 'e traversal_msg GaussError) flow" where
  "access_check t s =
     (case t_access t of None \<Rightarrow> Next s
      | Some a \<Rightarrow> tryF (acc_check a (tick s)) (\<lambda>_. Next (s\<lparr>tick := tick s + 1\<rparr>)))"

definition poll_cancelled :: "('n, 'e) MutableTraversal \<Rightarrow> 'z work_scheme \<Rightarrow> ('z work_scheme, 'e traversal_msg GaussError) flow" where
  "poll_cancelled t s = (if t_cancelled t (tick s) then Fail cancelled_error else Next (s\<lparr>tick := tick s + 1\<rparr>))"

definition poll_time :: "('n, 'e) MutableTraversal \<Rightarrow> 'z work_scheme \<Rightarrow> ('z work_scheme, 'e traversal_msg GaussError) flow" where
  "poll_time t s =
     (if t_elapsed t (tick s) \<ge> max_time_ms (t_budget t) then Halt Time (s\<lparr>tick := tick s + 1\<rparr>)
      else Next (s\<lparr>tick := tick s + 1\<rparr>))"

definition polls :: "('n, 'e) MutableTraversal \<Rightarrow> 'z work_scheme \<Rightarrow> ('z work_scheme, 'e traversal_msg GaussError) flow" where
  "polls t s = bindF (poll_cancelled t s) (poll_time t)"

definition boundary_reason ::
  "('n, 'e) MutableTraversal \<Rightarrow> nat \<Rightarrow> 'z work_scheme \<Rightarrow> ('z work_scheme, 'e traversal_msg GaussError) flow" where
  "boundary_reason t frontier_len s =
     bindF (polls t s) (\<lambda>s. if frontier_len > max_frontier (t_budget t) then Halt Frontier s else Next s)"

definition elapsed_ms_at :: "('n, 'e) MutableTraversal \<Rightarrow> 'z work_scheme \<Rightarrow> nat" where
  "elapsed_ms_at t s = min (t_elapsed t (tick s)) (u64_limit - 1)"

definition record_resolution ::
  "('n, 'e) TraversalGraph \<Rightarrow> AdjacencyEdge \<Rightarrow> nid \<Rightarrow> TraversalStats \<Rightarrow> TraversalStats" where
  "record_resolution gr edge neighbour st =
     (case ae_local_base edge of
        Some base \<Rightarrow>
          let st = st\<lparr>hop_local := saturating_add (hop_local st) 1\<rparr> in
          if tg_local_reference_superseded gr base neighbour
          then st\<lparr>supersession_followed := saturating_add (supersession_followed st) 1\<rparr> else st
      | None \<Rightarrow> st\<lparr>hop_global := saturating_add (hop_global st) 1\<rparr>)"

text \<open>
  The body of the two edge loops in three parts: the node predicates, the edge predicates, and the
  step itself. \<open>reached\<close> is what the loop does with a neighbour that passed every predicate.
\<close>

definition check_node ::
  "('n, 'e) MutableTraversal \<Rightarrow> (AdjacencyEdge \<Rightarrow> nid \<Rightarrow> 'z work_scheme \<Rightarrow> ('z work_scheme, 'e traversal_msg GaussError) flow)
     \<Rightarrow> AdjacencyEdge \<Rightarrow> nid \<Rightarrow> 'z work_scheme \<Rightarrow> ('z work_scheme, 'e traversal_msg GaussError) flow" where
  "check_node t reached edge neighbour s =
     tryF (t_payload_for_nid t neighbour) (\<lambda>payload.
     case payload of None \<Rightarrow> Next s
     | Some payload \<Rightarrow>
         let s = s\<lparr>w_stats := record_resolution (t_graph t) edge neighbour
               ((w_stats s)\<lparr>visible_edges_examined := visible_edges_examined (w_stats s) + 1\<rparr>)\<rparr> in
         tryF (matches_node t neighbour payload) (\<lambda>ok.
         if \<not> ok then Next s else reached edge neighbour s))"

definition check_edge ::
  "('n, 'e) MutableTraversal \<Rightarrow> ('z work_scheme \<Rightarrow> nat) \<Rightarrow> nat
     \<Rightarrow> (AdjacencyEdge \<Rightarrow> nid \<Rightarrow> 'z work_scheme \<Rightarrow> ('z work_scheme, 'e traversal_msg GaussError) flow)
     \<Rightarrow> AdjacencyEdge \<Rightarrow> nid \<Rightarrow> 'z work_scheme \<Rightarrow> ('z work_scheme, 'e traversal_msg GaussError) flow" where
  "check_edge t memory cursor_memory reached edge neighbour s =
     (if (case t_selected_types t of None \<Rightarrow> False | Some types \<Rightarrow> ae_type_id edge \<notin> types) then Next s
      else
      tryF (access_visible t neighbour) (\<lambda>seen.
      if \<not> seen then Next s
      else
      case t_edge_filter t of
        None \<Rightarrow> check_node t reached edge neighbour s
      | Some f \<Rightarrow>
          if saturating_add (saturating_add (memory s) cursor_memory)
               (tg_property_memory_bytes (t_graph t) (ae_edge_id edge)) > max_memory_bytes (t_budget t)
          then Halt Memory s
          else
          bindF (polls t s) (\<lambda>s.
          tryF (tg_edge_properties (t_graph t) (ae_edge_id edge)) (\<lambda>properties.
          case properties of None \<Rightarrow> Fail (InvalidRequest Live_edge_without_properties)
          | Some properties \<Rightarrow>
              if \<not> filter_matches (t_json t) f properties then Next s
              else check_node t reached edge neighbour s))))"

definition examine ::
  "('n, 'e) MutableTraversal \<Rightarrow> ('z work_scheme \<Rightarrow> nat) \<Rightarrow> nat \<Rightarrow> nid
     \<Rightarrow> (AdjacencyEdge \<Rightarrow> nid \<Rightarrow> 'z work_scheme \<Rightarrow> ('z work_scheme, 'e traversal_msg GaussError) flow)
     \<Rightarrow> ('e, AdjacencyStep) tresult \<times> bool \<Rightarrow> 'z work_scheme \<Rightarrow> ('z work_scheme, 'e traversal_msg GaussError) flow" where
  "examine t memory cursor_memory current reached step s =
     (case step of (st, from_outgoing) \<Rightarrow>
      tryF st (\<lambda>st.
      case st of
        Checkpoint \<Rightarrow>
          bindF (access_check t s) (\<lambda>s.
          polls t (s\<lparr>w_stats := (w_stats s)\<lparr>fragments_read := saturating_add (fragments_read (w_stats s)) 1\<rparr>\<rparr>))
      | Edge edge \<Rightarrow>
          let visible = tg_edge_visible (t_graph t) (ae_edge_id edge) in
          if t_direction t = Both \<and> \<not> from_outgoing \<and> visible \<and> ae_source edge = current \<and> ae_target edge = current
          then Next s
          else if internal_edges s \<ge> max_edges (t_budget t) then Halt Edges s
          else
          let s = s\<lparr>internal_edges := internal_edges s + 1\<rparr> in
          bindF (if internal_edges s mod EDGE_CHECK_INTERVAL = 0
                 then bindF (access_check t s) (polls t) else Next s) (\<lambda>s.
          if \<not> visible then Next s
          else if (if from_outgoing then ae_source edge else ae_target edge) \<noteq> current then Next s
          else check_edge t memory cursor_memory reached edge
                 (if from_outgoing then ae_target edge else ae_source edge) s)))"

text \<open>The steps of one namespace, outgoing before incoming, as far as the direction asks for them.\<close>

definition scan_namespace ::
  "('n, 'e) MutableTraversal \<Rightarrow> nid \<Rightarrow> (('e, AdjacencyStep) tresult \<times> bool \<Rightarrow> 's \<Rightarrow> ('s, 'e traversal_msg GaussError) flow)
     \<Rightarrow> GraphNamespace \<Rightarrow> 's \<Rightarrow> ('s, 'e traversal_msg GaussError) flow" where
  "scan_namespace t current body namespace s =
     tryF (if t_direction t \<in> {Outgoing, Both} then tg_outgoing (t_graph t) namespace current else Inr []) (\<lambda>outs.
     tryF (if t_direction t \<in> {Incoming, Both} then tg_incoming (t_graph t) namespace current else Inr []) (\<lambda>ins.
     each body (map (\<lambda>e. (e, True)) outs @ map (\<lambda>e. (e, False)) ins) s))"

definition expand_node ::
  "('n, 'e) MutableTraversal \<Rightarrow> nid \<Rightarrow> (('e, AdjacencyStep) tresult \<times> bool \<Rightarrow> 's \<Rightarrow> ('s, 'e traversal_msg GaussError) flow)
     \<Rightarrow> 's \<Rightarrow> ('s, 'e traversal_msg GaussError) flow" where
  "expand_node t current body s =
     tryF (access_visible t current) (\<lambda>seen.
     if \<not> seen then Next s
     else tryF (t_payload_for_nid t current) (\<lambda>payload.
     case payload of None \<Rightarrow> Next s
     | Some payload \<Rightarrow> each (scan_namespace t current body) (t_namespaces_for_payload t payload) s))"

section \<open>Breadth-first search\<close>

record bfs_work = work +
  visited :: "nid set"
  next_nodes :: "nid list"
  captured_edges :: "TraversalEdgeVisit list"

definition estimated_memory :: "nat \<Rightarrow> nat \<Rightarrow> nat \<Rightarrow> nat \<Rightarrow> nat \<Rightarrow> nat" where
  "estimated_memory visible_nodes frontier_len next_len visits_len captured_len =
     saturating_add (saturating_add (saturating_add
       (saturating_mul visible_nodes NODE_STATE_BYTES)
       (saturating_mul (saturating_add frontier_len next_len) FRONTIER_NODE_BYTES))
       (saturating_mul visits_len VISIT_BYTES))
       (saturating_mul captured_len CAPTURED_EDGE_BYTES)"

definition bfs_memory :: "nat \<Rightarrow> nat \<Rightarrow> bfs_work \<Rightarrow> nat" where
  "bfs_memory frontier_len visits_len s =
     estimated_memory (nodes_visited (w_stats s)) frontier_len (length (next_nodes s)) visits_len (length (captured_edges s))"

text \<open>The set of captured ids in the code always holds the ids of the captured edges.\<close>

definition bfs_reached ::
  "('n, 'e) MutableTraversal \<Rightarrow> bool \<Rightarrow> nat \<Rightarrow> nat \<Rightarrow> nat \<Rightarrow> AdjacencyEdge \<Rightarrow> nid \<Rightarrow> bfs_work
     \<Rightarrow> (bfs_work, 'e traversal_msg GaussError) flow" where
  "bfs_reached t capture_edges cursor_memory frontier_len visits_len edge neighbour s =
     (let nodes = nodes_visited (w_stats s);
          capture = (capture_edges \<and> ae_edge_id edge \<notin> ev_edge_id ` set (captured_edges s)) in
      if capture \<and> saturating_add (estimated_memory nodes frontier_len (length (next_nodes s)) visits_len
             (saturating_add (length (captured_edges s)) 1)) cursor_memory > max_memory_bytes (t_budget t)
      then Halt Memory s
      else
      let s = (if capture then s\<lparr>captured_edges := captured_edges s @ [edge_visit edge]\<rparr> else s) in
      if neighbour \<in> visited s then Next s
      else if nodes \<ge> max_visited (t_budget t) then Halt Visited s
      else if saturating_add (estimated_memory (saturating_add nodes 1) frontier_len
             (saturating_add (length (next_nodes s)) 1) visits_len (length (captured_edges s))) cursor_memory
           > max_memory_bytes (t_budget t)
      then Halt Memory s
      else Next (s\<lparr>visited := insert neighbour (visited s),
               w_stats := (w_stats s)\<lparr>nodes_visited := nodes + 1\<rparr>,
               next_nodes := next_nodes s @ [neighbour]\<rparr>))"

definition bfs_expand ::
  "('n, 'e) MutableTraversal \<Rightarrow> bool \<Rightarrow> nat \<Rightarrow> nid list \<Rightarrow> nat \<Rightarrow> bfs_work \<Rightarrow> (bfs_work, 'e traversal_msg GaussError) flow" where
  "bfs_expand t capture_edges cursor_memory frontier visits_len s =
     each (\<lambda>current. expand_node t current
        (examine t (bfs_memory (length frontier) visits_len) cursor_memory current
           (bfs_reached t capture_edges cursor_memory (length frontier) visits_len))) frontier s"

definition level_visits :: "nat \<Rightarrow> nid list \<Rightarrow> TraversalVisit list" where
  "level_visits depth nids = map (\<lambda>v. \<lparr>visit_nid = v, visit_depth = depth\<rparr>) nids"

text \<open>The end of a level: sorting, the visits, and the limit on the next frontier.\<close>

definition close_level ::
  "('n, 'e) MutableTraversal \<Rightarrow> nat \<Rightarrow> TraversalVisit list \<Rightarrow> TraversalTruncationReason option \<Rightarrow> bfs_work
     \<Rightarrow> TraversalVisit list \<times> TraversalTruncationReason option \<times> nid list \<times> bfs_work" where
  "close_level t depth vs reason s =
     (let nexts = remdups_adj (sort (next_nodes s));
          s = s\<lparr>w_stats := (w_stats s)\<lparr>max_frontier_size := max (max_frontier_size (w_stats s)) (length nexts)\<rparr>\<rparr>;
          vs = vs @ level_visits depth nexts in
      if reason \<noteq> None then (vs, reason, nexts, s)
      else if length nexts > max_frontier (t_budget t) then (vs, Some Frontier, nexts, s)
      else (vs, None, nexts, s\<lparr>w_stats := (w_stats s)\<lparr>hops_completed := depth\<rparr>\<rparr>))"

text \<open>The levels from \<open>depth\<close> on; the fourth argument counts the levels that are left.\<close>

fun bfs_levels ::
  "('n, 'e) MutableTraversal \<Rightarrow> bool \<Rightarrow> nat \<Rightarrow> nat \<Rightarrow> nat \<Rightarrow> nid list \<Rightarrow> TraversalVisit list \<Rightarrow> bfs_work
     \<Rightarrow> ('e, TraversalVisit list \<times> TraversalTruncationReason option \<times> bfs_work) tresult" where
  "bfs_levels t cap cm 0 depth frontier vs s = Inr (vs, None, s)"
| "bfs_levels t cap cm (Suc left) depth frontier vs s =
     (case bindF (access_check t s) (boundary_reason t (length frontier)) of
        Fail e \<Rightarrow> Inl e
      | Halt r s \<Rightarrow> Inr (vs, Some r, s)
      | Next s \<Rightarrow>
          (case bfs_expand t cap cm frontier (length vs) (s\<lparr>next_nodes := []\<rparr>) of
             Fail e \<Rightarrow> Inl e
           | Halt r s \<Rightarrow> (case close_level t depth vs (Some r) s of (vs, reason, nexts, s) \<Rightarrow> Inr (vs, reason, s))
           | Next s \<Rightarrow>
               (case close_level t depth vs None s of (vs, reason, nexts, s) \<Rightarrow>
                  if reason \<noteq> None \<or> nexts = [] then Inr (vs, reason, s)
                  else bfs_levels t cap cm left (depth + 1) nexts vs s)))"

declare bfs_levels.simps(2) [simp del]

text \<open>The anchors that pass the node predicates, for a traversal of depth zero.\<close>

fun matching_anchors :: "('n, 'e) MutableTraversal \<Rightarrow> nid list \<Rightarrow> ('e, nid list) tresult" where
  "matching_anchors t [] = Inr []"
| "matching_anchors t (v # vs) =
     bindE (access_visible t v) (\<lambda>seen.
     if \<not> seen then matching_anchors t vs
     else bindE (t_payload_for_nid t v) (\<lambda>payload.
     case payload of None \<Rightarrow> matching_anchors t vs
     | Some payload \<Rightarrow> bindE (matches_node t v payload) (\<lambda>ok.
         bindE (matching_anchors t vs) (\<lambda>rest. Inr (if ok then v # rest else rest)))))"

definition initial_stats :: "('n, 'e) MutableTraversal \<Rightarrow> TraversalStats" where
  "initial_stats t = stats_default\<lparr>nodes_visited := t_visible_anchor_count t, max_frontier_size := t_visible_anchor_count t\<rparr>"

definition initial_work :: "('n, 'e) MutableTraversal \<Rightarrow> nid list \<Rightarrow> bfs_work" where
  "initial_work t anchors =
     \<lparr>tick = 0, w_stats = initial_stats t, internal_edges = 0, visited = set anchors, next_nodes = [], captured_edges = []\<rparr>"

definition exact_bfs_internal :: "('n, 'e) MutableTraversal \<Rightarrow> bool \<Rightarrow> ('e, TraversalExecution) tresult" where
  "exact_bfs_internal t capture_edges =
     (let budget = t_budget t;
          frontier = remdups_adj (sort (t_anchors t)) in
      case bindF (access_check t (initial_work t frontier)) (poll_cancelled t) of
        Fail e \<Rightarrow> Inl e
      | Halt r s \<Rightarrow> Inr (execution (truncated (w_stats s) r) 0 [] [])
      | Next s \<Rightarrow>
        if t_visible_anchor_count t > max_visited budget
        then Inr (execution (truncated (w_stats s) Visited) 0 [] [])
        else
        bindE (if max_depth budget = 0 then matching_anchors t frontier else Inr []) (\<lambda>matching.
        let vs = level_visits 0 matching;
            cm = (if max_depth budget = 0 then 0 else tg_cursor_memory_bytes (t_graph t)) in
        if saturating_add (estimated_memory (nodes_visited (w_stats s)) (length frontier) 0 (length vs) 0) cm
             > max_memory_bytes budget
        then Inr (execution (truncated (w_stats s) Memory) 0 [] [])
        else if max_depth budget = 0
        then Inr (execution \<lparr>visits = vs, stats = (w_stats s)\<lparr>elapsed_ms := elapsed_ms_at t s\<rparr>,
                             truncation = None, warnings = []\<rparr> 0 [] [])
        else
        bindE (bfs_levels t capture_edges cm (max_depth budget) 1 frontier vs s) (\<lambda>(vs, reason, s).
        Inr (execution \<lparr>visits = vs, stats = (w_stats s)\<lparr>elapsed_ms := elapsed_ms_at t s\<rparr>,
                        truncation = reason, warnings = []\<rparr> (internal_edges s) (captured_edges s) []))))"

definition exact_bfs :: "('n, 'e) MutableTraversal \<Rightarrow> ('e, TraversalExecution) tresult" where
  "exact_bfs t = exact_bfs_internal t False"

definition exact_bfs_with_edges :: "('n, 'e) MutableTraversal \<Rightarrow> ('e, TraversalExecution) tresult" where
  "exact_bfs_with_edges t = exact_bfs_internal t True"

section \<open>Simple paths\<close>

record path_work = work +
  next_paths :: "TraversalPathVisit list"

definition path_slice_memory :: "TraversalPathVisit list \<Rightarrow> nat" where
  "path_slice_memory paths =
     foldl (\<lambda>bytes p. saturating_add (saturating_add bytes 48)
       (saturating_add (saturating_mul (length (pv_nodes p)) NID_BYTES)
          (saturating_mul (length (pv_edges p)) CAPTURED_EDGE_BYTES))) 0 paths"

definition estimated_path_memory ::
  "TraversalPathVisit list \<Rightarrow> TraversalPathVisit list \<Rightarrow> TraversalPathVisit list \<Rightarrow> nat" where
  "estimated_path_memory frontier nexts paths =
     saturating_add (saturating_add (path_slice_memory frontier) (path_slice_memory nexts)) (path_slice_memory paths)"

definition path_reached ::
  "('n, 'e) MutableTraversal \<Rightarrow> nat \<Rightarrow> TraversalPathVisit list \<Rightarrow> TraversalPathVisit list \<Rightarrow> TraversalPathVisit
     \<Rightarrow> AdjacencyEdge \<Rightarrow> nid \<Rightarrow> path_work \<Rightarrow> (path_work, 'e traversal_msg GaussError) flow" where
  "path_reached t cursor_memory frontier paths path edge neighbour s =
     (if neighbour \<in> set (pv_nodes path) then Next s
      else if nodes_visited (w_stats s) \<ge> max_visited (t_budget t) then Halt Visited s
      else
      let candidate = \<lparr>pv_nodes = pv_nodes path @ [neighbour], pv_edges = pv_edges path @ [edge_visit edge]\<rparr>;
          nexts = next_paths s @ [candidate] in
      if saturating_add (saturating_add (estimated_path_memory frontier nexts paths) (path_slice_memory nexts)) cursor_memory
           > max_memory_bytes (t_budget t)
      then Halt Memory s
      else Next (s\<lparr>next_paths := nexts,
               w_stats := (w_stats s)\<lparr>nodes_visited := nodes_visited (w_stats s) + 1\<rparr>\<rparr>))"

definition path_expand ::
  "('n, 'e) MutableTraversal \<Rightarrow> nat \<Rightarrow> TraversalPathVisit list \<Rightarrow> TraversalPathVisit list \<Rightarrow> path_work
     \<Rightarrow> (path_work, 'e traversal_msg GaussError) flow" where
  "path_expand t cursor_memory frontier paths s =
     each (\<lambda>path. expand_node t (last (pv_nodes path))
        (examine t (\<lambda>s. estimated_path_memory frontier (next_paths s) paths) cursor_memory (last (pv_nodes path))
           (path_reached t cursor_memory frontier paths path))) frontier s"

definition path_key :: "TraversalPathVisit \<Rightarrow> nid list \<times> edge_id list" where
  "path_key p = (pv_nodes p, map ev_edge_id (pv_edges p))"

definition close_paths ::
  "('n, 'e) MutableTraversal \<Rightarrow> nat \<Rightarrow> nat \<Rightarrow> TraversalPathVisit list \<Rightarrow> TraversalTruncationReason option \<Rightarrow> path_work
     \<Rightarrow> TraversalPathVisit list \<times> TraversalTruncationReason option \<times> TraversalPathVisit list \<times> path_work" where
  "close_paths t limit depth paths reason s =
     (let nexts = sort_key path_key (next_paths s);
          s = s\<lparr>w_stats := (w_stats s)\<lparr>max_frontier_size := max (max_frontier_size (w_stats s)) (length nexts)\<rparr>\<rparr>;
          reason = (if reason = None \<and> length nexts > max_frontier (t_budget t) then Some Frontier else reason);
          paths = paths @ nexts in
      if reason \<noteq> None then (paths, reason, nexts, s)
      else
      let s = s\<lparr>w_stats := (w_stats s)\<lparr>hops_completed := depth\<rparr>\<rparr> in
      if length paths > limit then (take limit paths, Some Limit, nexts, s) else (paths, None, nexts, s))"

fun path_levels ::
  "('n, 'e) MutableTraversal \<Rightarrow> nat \<Rightarrow> nat \<Rightarrow> nat \<Rightarrow> nat \<Rightarrow> TraversalPathVisit list \<Rightarrow> TraversalPathVisit list \<Rightarrow> path_work
     \<Rightarrow> ('e, TraversalPathVisit list \<times> TraversalTruncationReason option \<times> path_work) tresult" where
  "path_levels t cm limit 0 depth frontier paths s = Inr (paths, None, s)"
| "path_levels t cm limit (Suc left) depth frontier paths s =
     (case bindF (access_check t s) (boundary_reason t (length frontier)) of
        Fail e \<Rightarrow> Inl e
      | Halt r s \<Rightarrow> Inr (paths, Some r, s)
      | Next s \<Rightarrow>
          (case path_expand t cm frontier paths (s\<lparr>next_paths := []\<rparr>) of
             Fail e \<Rightarrow> Inl e
           | Halt r s \<Rightarrow> (case close_paths t limit depth paths (Some r) s of (paths, reason, nexts, s) \<Rightarrow> Inr (paths, reason, s))
           | Next s \<Rightarrow>
               (case close_paths t limit depth paths None s of (paths, reason, nexts, s) \<Rightarrow>
                  if reason \<noteq> None \<or> nexts = [] then Inr (paths, reason, s)
                  else path_levels t cm limit left (depth + 1) nexts paths s)))"

declare path_levels.simps(2) [simp del]

definition truncate_paths_to_limit ::
  "TraversalPathVisit list \<Rightarrow> nat \<Rightarrow> TraversalPathVisit list \<times> TraversalTruncationReason option" where
  "truncate_paths_to_limit paths limit = (if length paths > limit then (take limit paths, Some Limit) else (paths, None))"

definition anchor_path :: "nid \<Rightarrow> TraversalPathVisit" where
  "anchor_path v = \<lparr>pv_nodes = [v], pv_edges = []\<rparr>"

definition exact_simple_paths :: "('n, 'e) MutableTraversal \<Rightarrow> nat \<Rightarrow> ('e, TraversalExecution) tresult" where
  "exact_simple_paths t limit =
     (let budget = t_budget t;
          anchors = remdups_adj (sort (t_anchors t));
          frontier = map anchor_path anchors in
      case bindF (access_check t \<lparr>tick = 0, w_stats = initial_stats t, internal_edges = 0, next_paths = []\<rparr>) (poll_cancelled t) of
        Fail e \<Rightarrow> Inl e
      | Halt r s \<Rightarrow> Inr (execution (truncated (w_stats s) r) 0 [] [])
      | Next s \<Rightarrow>
        if t_visible_anchor_count t > max_visited budget
        then Inr (execution (truncated (w_stats s) Visited) 0 [] [])
        else
        bindE (if max_depth budget = 0 then matching_anchors t anchors else Inr []) (\<lambda>matching.
        let paths = map anchor_path matching;
            cm = (if max_depth budget = 0 then 0 else tg_cursor_memory_bytes (t_graph t)) in
        if saturating_add (estimated_path_memory frontier [] paths) cm > max_memory_bytes budget
        then Inr (execution (truncated (w_stats s) Memory) 0 [] [])
        else if max_depth budget = 0
        then (case truncate_paths_to_limit paths limit of (paths, reason) \<Rightarrow>
               Inr (execution \<lparr>visits = [], stats = (w_stats s)\<lparr>elapsed_ms := elapsed_ms_at t s\<rparr>,
                               truncation = reason, warnings = []\<rparr> 0 [] paths))
        else
        bindE (path_levels t cm limit (max_depth budget) 1 frontier paths s) (\<lambda>(paths, reason, s).
        Inr (execution \<lparr>visits = [], stats = (w_stats s)\<lparr>elapsed_ms := elapsed_ms_at t s\<rparr>,
                        truncation = reason, warnings = []\<rparr> (internal_edges s) [] paths))))"

section \<open>Weakest preconditions of flows\<close>

text \<open>
  \<open>wpF F H N m\<close>: when \<open>m\<close> fails, halts or goes on, the first, second or third predicate holds.
\<close>

definition wpF :: "('e \<Rightarrow> bool) \<Rightarrow> (TraversalTruncationReason \<Rightarrow> 's \<Rightarrow> bool) \<Rightarrow> ('s \<Rightarrow> bool) \<Rightarrow> ('s, 'e) flow \<Rightarrow> bool" where
  "wpF F H N m = (case m of Fail e \<Rightarrow> F e | Halt r s \<Rightarrow> H r s | Next s \<Rightarrow> N s)"

lemma wpF_simps [simp]:
  "wpF F H N (Fail e) = F e" "wpF F H N (Halt r s) = H r s" "wpF F H N (Next s) = N s"
  by (simp_all add: wpF_def)

lemma bindF_simps [simp]: "bindF (Next s) k = k s" "bindF (Halt r s) k = Halt r s" "bindF (Fail e) k = Fail e"
  by (simp_all add: bindF_def)

lemma wpF_bindF [simp]: "wpF F H N (bindF m k) = wpF F H (\<lambda>s. wpF F H N (k s)) m"
  by (cases m) simp_all

lemma tryF_simps [simp]: "tryF (Inr x) k = k x" "tryF (Inl e) k = Fail e"
  by (simp_all add: tryF_def)

lemma wpF_tryF [simp]: "wpF F H N (tryF m k) \<longleftrightarrow> (\<forall>e. m = Inl e \<longrightarrow> F e) \<and> (\<forall>x. m = Inr x \<longrightarrow> wpF F H N (k x))"
  by (cases m) (simp_all add: tryF_def)

lemma wpF_if [simp]: "wpF F H N (if b then m1 else m2) = (if b then wpF F H N m1 else wpF F H N m2)"
  by simp

lemma wpF_mono:
  assumes "wpF F H N m" "\<And>e. F e \<Longrightarrow> F' e" "\<And>r s. H r s \<Longrightarrow> H' r s" "\<And>s. N s \<Longrightarrow> N' s"
  shows "wpF F' H' N' m"
  using assms by (cases m) simp_all

lemma wpF_each:
  assumes "\<And>x s. x \<in> set xs \<Longrightarrow> N s \<Longrightarrow> wpF F H N (f x s)" "N s"
  shows "wpF F H N (each f xs s)"
  using assms
proof (induction xs arbitrary: s)
  case (Cons x xs)
  have "wpF F H N (f x s)" by (rule Cons.prems(1)) (simp_all add: Cons.prems(2))
  then have "wpF F H (\<lambda>s. wpF F H N (each f xs s)) (f x s)"
    by (rule wpF_mono) (simp_all add: Cons.IH Cons.prems(1))
  then show ?case by simp
qed simp

text \<open>A loop whose body achieves \<open>D x\<close> for its element, when later steps only let the state grow.\<close>

locale growing =
  fixes grown :: "'s \<Rightarrow> 's \<Rightarrow> bool"
  assumes grown_refl: "grown s s"
    and grown_trans: "grown s s' \<Longrightarrow> grown s' s'' \<Longrightarrow> grown s s''"
begin

lemma each_done:
  assumes body: "\<And>x s. x \<in> set xs \<Longrightarrow> I s \<Longrightarrow> wpF F H (\<lambda>s'. I s' \<and> grown s s' \<and> D x s') (f x s)"
    and keep: "\<And>x s s'. D x s \<Longrightarrow> grown s s' \<Longrightarrow> D x s'"
    and start: "I s"
  shows "wpF F H (\<lambda>s'. I s' \<and> grown s s' \<and> (\<forall>x \<in> set xs. D x s')) (each f xs s)"
  using body start
proof (induction xs arbitrary: s)
  case Nil
  then show ?case by (simp add: grown_refl)
next
  case (Cons x xs)
  have rest: "wpF F H (\<lambda>s2. I s2 \<and> grown s2' s2 \<and> (\<forall>x \<in> set xs. D x s2)) (each f xs s2')" if "I s2'" for s2'
    by (rule Cons.IH [OF Cons.prems(1) that]) simp_all
  have "wpF F H (\<lambda>s'. I s' \<and> grown s s' \<and> D x s') (f x s)"
    by (rule Cons.prems(1)) (simp_all add: Cons.prems(2))
  then have "wpF F H (\<lambda>s1. wpF F H (\<lambda>s'. I s' \<and> grown s s' \<and> (\<forall>x \<in> set (x # xs). D x s')) (each f xs s1)) (f x s)"
  proof (rule wpF_mono)
    fix s1 assume s1: "I s1 \<and> grown s s1 \<and> D x s1"
    show "wpF F H (\<lambda>s'. I s' \<and> grown s s' \<and> (\<forall>x \<in> set (x # xs). D x s')) (each f xs s1)"
      by (rule wpF_mono [OF rest]) (use s1 grown_trans keep in auto)
  qed
  then show ?case by simp
qed

end

section \<open>One adjacency step\<close>

text \<open>What the control code may change: the tick, the statistics other than the visited nodes and the finished hops, and the edge counter.\<close>

definition keep :: "('n, 'e) MutableTraversal \<Rightarrow> 'z work_scheme \<Rightarrow> 'z work_scheme \<Rightarrow> bool" where
  "keep t s s' \<longleftrightarrow> (\<exists>k st i. s' = s\<lparr>tick := k, w_stats := st, internal_edges := i\<rparr>
     \<and> nodes_visited st = nodes_visited (w_stats s) \<and> hops_completed st = hops_completed (w_stats s)
     \<and> (internal_edges s \<le> max_edges (t_budget t) \<longrightarrow> i \<le> max_edges (t_budget t)))"

lemma keepI [intro]:
  "nodes_visited st = nodes_visited (w_stats s) \<Longrightarrow> hops_completed st = hops_completed (w_stats s) \<Longrightarrow>
   (internal_edges s \<le> max_edges (t_budget t) \<Longrightarrow> i \<le> max_edges (t_budget t)) \<Longrightarrow>
   keep t s (s\<lparr>tick := k, w_stats := st, internal_edges := i\<rparr>)"
  unfolding keep_def by blast

lemma keep_refl [simp]: "keep t s s"
  using keepI [of "w_stats s" s t "internal_edges s" "tick s"] by simp

lemma keepE [elim]:
  assumes "keep t s s'"
  obtains k st i where "s' = s\<lparr>tick := k, w_stats := st, internal_edges := i\<rparr>"
    "nodes_visited st = nodes_visited (w_stats s)" "hops_completed st = hops_completed (w_stats s)"
    "internal_edges s \<le> max_edges (t_budget t) \<longrightarrow> i \<le> max_edges (t_budget t)"
  using assms unfolding keep_def by blast

lemma keep_trans: "keep t s s' \<Longrightarrow> keep t s' s'' \<Longrightarrow> keep t s s''"
  by (elim keepE, simp, rule keepI) auto

lemma keep_tick: "keep t s s' \<Longrightarrow> keep t s (s'\<lparr>tick := k\<rparr>)"
proof (elim keepE)
  fix k' st i
  assume *: "s' = s\<lparr>tick := k', w_stats := st, internal_edges := i\<rparr>" "nodes_visited st = nodes_visited (w_stats s)" "hops_completed st = hops_completed (w_stats s)"
    "internal_edges s \<le> max_edges (t_budget t) \<longrightarrow> i \<le> max_edges (t_budget t)"
  have "keep t s (s\<lparr>tick := k, w_stats := st, internal_edges := i\<rparr>)" using * by (intro keepI) auto
  moreover have "s'\<lparr>tick := k\<rparr> = s\<lparr>tick := k, w_stats := st, internal_edges := i\<rparr>" using * by simp
  ultimately show ?thesis by (simp only:)
qed

lemma keep_stats:
  "keep t s s' \<Longrightarrow> nodes_visited st' = nodes_visited (w_stats s') \<Longrightarrow> hops_completed st' = hops_completed (w_stats s') \<Longrightarrow>
   keep t s (s'\<lparr>w_stats := st'\<rparr>)"
proof (elim keepE)
  fix k st i
  assume *: "nodes_visited st' = nodes_visited (w_stats s')" "hops_completed st' = hops_completed (w_stats s')" "s' = s\<lparr>tick := k, w_stats := st, internal_edges := i\<rparr>"
    "nodes_visited st = nodes_visited (w_stats s)" "hops_completed st = hops_completed (w_stats s)"
    "internal_edges s \<le> max_edges (t_budget t) \<longrightarrow> i \<le> max_edges (t_budget t)"
  have "keep t s (s\<lparr>tick := k, w_stats := st', internal_edges := i\<rparr>)" using * by (intro keepI) auto
  moreover have "s'\<lparr>w_stats := st'\<rparr> = s\<lparr>tick := k, w_stats := st', internal_edges := i\<rparr>" using * by simp
  ultimately show ?thesis by (simp only:)
qed

lemma keep_edge: "keep t s s' \<Longrightarrow> internal_edges s' < max_edges (t_budget t) \<Longrightarrow>
    keep t s (s'\<lparr>internal_edges := Suc (internal_edges s')\<rparr>)"
  by (elim keepE, simp, rule keepI) auto

lemmas keeps = keep_tick keep_stats keep_edge

text \<open>The errors a traversal can return.\<close>

definition fault :: "('n, 'e) MutableTraversal \<Rightarrow> 'e traversal_msg GaussError \<Rightarrow> bool" where
  "fault t e \<longleftrightarrow>
     e = cancelled_error \<and> (\<exists>k. t_cancelled t k)
   \<or> (\<exists>a. t_access t = Some a \<and> ((\<exists>k. acc_check a k = Inl e) \<or> (\<exists>v. acc_visible a v = Inl e) \<or> (\<exists>v p. acc_matches_node a v p = Inl e)))
   \<or> (\<exists>v. t_payload_for_nid t v = Inl e)
   \<or> (\<exists>n v. tg_outgoing (t_graph t) n v = Inl e \<or> tg_incoming (t_graph t) n v = Inl e)
   \<or> (\<exists>n v l. (tg_outgoing (t_graph t) n v = Inr l \<or> tg_incoming (t_graph t) n v = Inr l) \<and> Inl e \<in> set l)
   \<or> (\<exists>i. tg_edge_properties (t_graph t) i = Inl e)
   \<or> e = InvalidRequest Live_edge_without_properties
       \<and> (\<exists>i. tg_edge_visible (t_graph t) i \<and> tg_edge_properties (t_graph t) i = Inr None)"

lemma fault_cancelled: "t_cancelled t k \<Longrightarrow> fault t cancelled_error"
  by (auto simp: fault_def)

lemma fault_access_visible: "access_visible t v = Inl e \<Longrightarrow> fault t e"
  by (auto simp: fault_def access_visible_def split: option.splits)

lemma fault_matches_node: "matches_node t v p = Inl e \<Longrightarrow> fault t e"
  by (auto simp: fault_def matches_node_def split: option.splits)

lemma fault_payload: "t_payload_for_nid t v = Inl e \<Longrightarrow> fault t e"
  by (auto simp: fault_def)

lemma fault_properties: "tg_edge_properties (t_graph t) i = Inl e \<Longrightarrow> fault t e"
  by (auto simp: fault_def)

lemma fault_missing: "tg_edge_visible (t_graph t) i \<Longrightarrow> tg_edge_properties (t_graph t) i = Inr None \<Longrightarrow>
    fault t (InvalidRequest Live_edge_without_properties)"
  by (auto simp: fault_def)

lemma fault_listed: "tg_outgoing (t_graph t) n v = Inr l \<or> tg_incoming (t_graph t) n v = Inr l \<Longrightarrow> Inl e \<in> set l \<Longrightarrow> fault t e"
  unfolding fault_def by blast

lemma fault_adjacency: "tg_outgoing (t_graph t) n v = Inl e \<or> tg_incoming (t_graph t) n v = Inl e \<Longrightarrow> fault t e"
  unfolding fault_def by blast

lemmas faults = fault_cancelled fault_access_visible fault_matches_node fault_payload fault_properties fault_missing

lemma wpF_access_check:
  assumes "\<And>k. keep t s (s\<lparr>tick := k\<rparr>) \<Longrightarrow> N (s\<lparr>tick := k\<rparr>)" "\<And>e. fault t e \<Longrightarrow> F e"
  shows "wpF F H N (access_check t s)"
proof (cases "t_access t")
  case None
  then show ?thesis using assms(1) [of "tick s"] by (simp add: access_check_def)
next
  case (Some a)
  then have "acc_check a (tick s) = Inl e \<Longrightarrow> fault t e" for e by (auto simp: fault_def)
  then have "acc_check a (tick s) = Inl e \<Longrightarrow> F e" for e using assms(2) by blast
  then show ?thesis using Some assms(1) by (simp add: access_check_def keep_tick)
qed

lemma wpF_poll_cancelled:
  assumes "\<And>k. keep t s (s\<lparr>tick := k\<rparr>) \<Longrightarrow> N (s\<lparr>tick := k\<rparr>)" "\<And>e. fault t e \<Longrightarrow> F e"
  shows "wpF F H N (poll_cancelled t s)"
  using assms by (simp add: poll_cancelled_def keep_tick fault_cancelled)

lemma wpF_polls:
  assumes "\<And>k. keep t s (s\<lparr>tick := k\<rparr>) \<Longrightarrow> N (s\<lparr>tick := k\<rparr>) \<and> H Time (s\<lparr>tick := k\<rparr>)" "\<And>e. fault t e \<Longrightarrow> F e"
  shows "wpF F H N (polls t s)"
  unfolding polls_def wpF_bindF
proof (rule wpF_poll_cancelled)
  fix k assume "keep t s (s\<lparr>tick := k\<rparr>)"
  show "wpF F H N (poll_time t (s\<lparr>tick := k\<rparr>))"
    using assms(1) by (simp add: poll_time_def keep_tick)
qed (rule assms(2))

text \<open>A step that passes every predicate, and the hop it makes.\<close>

definition edge_passes :: "('n, 'e) MutableTraversal \<Rightarrow> AdjacencyEdge \<Rightarrow> bool" where
  "edge_passes t edge \<longleftrightarrow>
     tg_edge_visible (t_graph t) (ae_edge_id edge)
   \<and> (case t_selected_types t of None \<Rightarrow> True | Some types \<Rightarrow> ae_type_id edge \<in> types)
   \<and> (case t_edge_filter t of None \<Rightarrow> True
      | Some f \<Rightarrow> (case tg_edge_properties (t_graph t) (ae_edge_id edge) of
                     Inr (Some p) \<Rightarrow> filter_matches (t_json t) f p | _ \<Rightarrow> False))"

definition node_passes :: "('n, 'e) MutableTraversal \<Rightarrow> nid \<Rightarrow> bool" where
  "node_passes t v \<longleftrightarrow>
     access_visible t v = Inr True
   \<and> (case t_payload_for_nid t v of Inr (Some p) \<Rightarrow> matches_node t v p = Inr True | _ \<Rightarrow> False)"

definition loop_again :: "('n, 'e) MutableTraversal \<Rightarrow> nid \<Rightarrow> AdjacencyEdge \<Rightarrow> bool \<Rightarrow> bool" where
  "loop_again t u edge out \<longleftrightarrow> t_direction t = Both \<and> \<not> out \<and> ae_source edge = u \<and> ae_target edge = u"

definition step_passes ::
  "('n, 'e) MutableTraversal \<Rightarrow> nid \<Rightarrow> ('e, AdjacencyStep) tresult \<times> bool \<Rightarrow> AdjacencyEdge \<Rightarrow> nid \<Rightarrow> bool" where
  "step_passes t u x edge v \<longleftrightarrow>
     fst x = Inr (Edge edge) \<and> \<not> loop_again t u edge (snd x) \<and> edge_passes t edge \<and> node_passes t v
   \<and> (if snd x then ae_source edge = u \<and> ae_target edge = v else ae_target edge = u \<and> ae_source edge = v)"

lemma record_resolution_keeps [simp]: "nodes_visited (record_resolution g e v st) = nodes_visited st"
  "hops_completed (record_resolution g e v st) = hops_completed st"
  by (simp_all add: record_resolution_def Let_def split: option.splits)

text \<open>The neighbour a step leads to, and the steps that lead to no other.\<close>

definition leads :: "nid \<Rightarrow> AdjacencyEdge \<Rightarrow> bool \<Rightarrow> nid \<Rightarrow> bool" where
  "leads u edge out v \<longleftrightarrow>
     (if out then ae_source edge = u \<and> ae_target edge = v else ae_target edge = u \<and> ae_source edge = v)"

lemma step_passes_iff:
  "step_passes t u (Inr (Edge edge), out) e v \<longleftrightarrow>
     e = edge \<and> \<not> loop_again t u edge out \<and> edge_passes t edge \<and> node_passes t v \<and> leads u edge out v"
  by (auto simp: step_passes_def leads_def)

lemma wpF_check_node:
  assumes "access_visible t v = Inr True" "keep t s0 s"
    and skip: "\<And>s'. keep t s0 s' \<Longrightarrow> \<not> node_passes t v \<Longrightarrow> N s'"
    and go: "\<And>s'. keep t s0 s' \<Longrightarrow> node_passes t v \<Longrightarrow> wpF F H N (reached edge v s')"
    and fail: "\<And>e. fault t e \<Longrightarrow> F e"
  shows "wpF F H N (check_node t reached edge v s)"
  using assms
  by (auto simp: check_node_def Let_def keep_stats node_passes_def fault_payload fault_matches_node split: option.splits)

lemma wpF_check_edge:
  assumes vis: "tg_edge_visible (t_graph t) (ae_edge_id edge)" and k: "keep t s0 s"
    and skip: "\<And>s'. keep t s0 s' \<Longrightarrow> \<not> (edge_passes t edge \<and> node_passes t v) \<Longrightarrow> N s'"
    and halt: "\<And>r s'. r \<noteq> Limit \<Longrightarrow> keep t s0 s' \<Longrightarrow> H r s'"
    and go: "\<And>s'. keep t s0 s' \<Longrightarrow> edge_passes t edge \<Longrightarrow> node_passes t v \<Longrightarrow> wpF F H N (reached edge v s')"
    and fail: "\<And>e. fault t e \<Longrightarrow> F e"
  shows "wpF F H N (check_edge t mem cm reached edge v s)"
proof -
  have node: "wpF F H N (check_node t reached edge v s')" if "keep t s0 s'" "edge_passes t edge" "access_visible t v = Inr True" for s'
    by (rule wpF_check_node [OF that(3,1)]) (use that skip go fail in auto)
  have unseen: "N s'" if "keep t s0 s'" "access_visible t v = Inr False" for s'
    using skip [OF that(1)] that(2) by (simp add: node_passes_def)
  have noedge: "N s'" if "keep t s0 s'" "\<not> edge_passes t edge" for s' using skip [OF that(1)] that(2) by simp
  have filt: "wpF F H N (tryF (tg_edge_properties (t_graph t) (ae_edge_id edge)) (\<lambda>properties.
          case properties of None \<Rightarrow> Fail (InvalidRequest Live_edge_without_properties)
          | Some properties \<Rightarrow>
              if \<not> filter_matches (t_json t) f properties then Next s'
              else check_node t reached edge v s'))"
    if "t_edge_filter t = Some f" "keep t s0 s'" "access_visible t v = Inr True"
      "case t_selected_types t of None \<Rightarrow> True | Some types \<Rightarrow> ae_type_id edge \<in> types" for f s'
    using that vis by (auto simp: edge_passes_def fail fault_properties fault_missing intro!: node noedge split: option.splits)
  have polled: "wpF F H N (bindF (polls t s) k)" if "\<And>s'. keep t s0 s' \<Longrightarrow> wpF F H N (k s')" for k
    by (simp, rule wpF_polls) (simp_all add: that keep_tick k halt fail)
  show ?thesis
  proof (cases "case t_selected_types t of None \<Rightarrow> True | Some types \<Rightarrow> ae_type_id edge \<in> types")
    case False
    then show ?thesis using noedge [OF k] by (auto simp: check_edge_def edge_passes_def split: option.splits)
  next
    case True
    have "wpF F H N (check_edge t mem cm reached edge v s)" if "access_visible t v = Inr True"
    proof (cases "t_edge_filter t")
      case None
      then show ?thesis using True that vis by (simp add: check_edge_def node k edge_passes_def split: option.splits)
    next
      case (Some f)
      have go_on: "wpF F H N (bindF (polls t s) (\<lambda>s.
          tryF (tg_edge_properties (t_graph t) (ae_edge_id edge)) (\<lambda>properties.
          case properties of None \<Rightarrow> Fail (InvalidRequest Live_edge_without_properties)
          | Some properties \<Rightarrow>
              if \<not> filter_matches (t_json t) f properties then Next s
              else check_node t reached edge v s)))"
        by (rule polled) (rule filt [OF Some _ that True])
      show ?thesis
      proof (cases "saturating_add (saturating_add (mem s) cm)
               (tg_property_memory_bytes (t_graph t) (ae_edge_id edge)) > max_memory_bytes (t_budget t)")
        case True2: True
        then show ?thesis using True that Some by (simp add: check_edge_def halt k split: option.splits)
      next
        case False
        then show ?thesis using True that Some go_on
          by (simp add: check_edge_def del: wpF_bindF wpF_tryF split: option.splits)
      qed
    qed
    moreover have "wpF F H N (check_edge t mem cm reached edge v s)" if "access_visible t v = Inr False"
      using True that unseen [OF k] by (auto simp: check_edge_def split: option.splits)
    moreover have "wpF F H N (check_edge t mem cm reached edge v s)" if "access_visible t v = Inl e" for e
      using True that by (auto simp: check_edge_def fail fault_access_visible split: option.splits)
    ultimately show ?thesis by (metis sum.exhaust)
  qed
qed

lemma wpF_examine:
  assumes skip: "\<And>s'. keep t s s' \<Longrightarrow> (\<And>e v. \<not> step_passes t u x e v) \<Longrightarrow> N s'"
    and halt: "\<And>r s'. r \<noteq> Limit \<Longrightarrow> keep t s s' \<Longrightarrow> H r s'"
    and go: "\<And>e v s'. keep t s s' \<Longrightarrow> step_passes t u x e v \<Longrightarrow> wpF F H N (reached e v s')"
    and fail: "\<And>e. fault t e \<or> fst x = Inl e \<Longrightarrow> F e"
  shows "wpF F H N (examine t mem cm u reached x s)"
proof (cases x)
  case (Pair st out)
  consider e where "st = Inl e" | "st = Inr Checkpoint" | edge where "st = Inr (Edge edge)"
    by (metis AdjacencyStep.exhaust sum.exhaust)
  then show ?thesis
  proof cases
    case 1
    then show ?thesis using Pair fail by (simp add: examine_def)
  next
    case 2
    have no: "\<not> step_passes t u x e v" for e v using 2 Pair by (simp add: step_passes_def)
    have k: "keep t s s' \<Longrightarrow> N s'" for s' using skip no by blast
    show ?thesis unfolding examine_def Pair 2
      by (auto intro!: wpF_access_check wpF_polls keep_stats keep_tick k halt fail)
  next
    case (3 edge)
    let ?v = "if out then ae_target edge else ae_source edge"
    let ?s = "s\<lparr>internal_edges := Suc (internal_edges s)\<rparr>"
    let ?visible = "tg_edge_visible (t_graph t) (ae_edge_id edge)"
    let ?near = "if out then ae_source edge else ae_target edge"
    have x: "x = (Inr (Edge edge), out)" using 3 Pair by simp
    have iff: "step_passes t u x e v \<longleftrightarrow> e = edge \<and> v = ?v \<and> ?near = u \<and> \<not> loop_again t u edge out \<and> edge_passes t edge \<and> node_passes t ?v" for e v
      by (auto simp: x step_passes_iff leads_def)
    have stop: "N s'" if "keep t s s'" "\<not> (?near = u \<and> \<not> loop_again t u edge out \<and> edge_passes t edge \<and> node_passes t ?v)" for s'
      using skip [OF that(1)] that(2) iff by blast
    have inner: "wpF F H N (if \<not> ?visible then Next s' else if ?near \<noteq> u then Next s'
          else check_edge t mem cm reached edge ?v s')" if "keep t s s'" "\<not> (loop_again t u edge out \<and> ?visible)" for s'
    proof (cases "?visible \<and> ?near = u")
      case True
      then have "wpF F H N (check_edge t mem cm reached edge ?v s')"
        using that by (intro wpF_check_edge [of t edge s]) (use stop halt go fail iff in blast)+
      then show ?thesis using True by simp
    next
      case False
      then show ?thesis using stop [OF that(1)] by (auto simp: edge_passes_def)
    qed
    show ?thesis
    proof (cases "loop_again t u edge out \<and> ?visible")
      case True
      then show ?thesis using stop [OF keep_refl] by (simp add: examine_def x loop_again_def)
    next
      case False
      have "wpF F H N (bindF (if internal_edges ?s mod EDGE_CHECK_INTERVAL = 0
                 then bindF (access_check t ?s) (polls t) else Next ?s) (\<lambda>s'.
          if \<not> ?visible then Next s' else if ?near \<noteq> u then Next s' else check_edge t mem cm reached edge ?v s'))"
        if less: "internal_edges s < max_edges (t_budget t)"
      proof -
        have k: "keep t s ?s" by (rule keep_edge [OF keep_refl less])
        show ?thesis
        proof (cases "internal_edges ?s mod EDGE_CHECK_INTERVAL = 0")
          case True
          show ?thesis unfolding if_P [OF True] wpF_bindF
            by (intro wpF_access_check wpF_polls conjI inner False halt keep_tick k fail disjI1 TraversalTruncationReason.simps)
        next
          case nc: False
          show ?thesis unfolding if_not_P [OF nc] bindF_simps by (rule inner [OF k False])
        qed
      qed
      then show ?thesis using False halt [OF _ keep_refl, of Edges]
        by (simp add: examine_def x loop_again_def Let_def del: wpF_bindF) blast
    qed
  qed
qed

section \<open>All steps of a node\<close>

definition node_steps ::
  "('n, 'e) MutableTraversal \<Rightarrow> nid \<Rightarrow> GraphNamespace \<Rightarrow> (('e, AdjacencyStep) tresult \<times> bool) set" where
  "node_steps t u ns =
     {(st, True) |st. t_direction t \<in> {Outgoing, Both} \<and> (\<exists>l. tg_outgoing (t_graph t) ns u = Inr l \<and> st \<in> set l)}
   \<union> {(st, False) |st. t_direction t \<in> {Incoming, Both} \<and> (\<exists>l. tg_incoming (t_graph t) ns u = Inr l \<and> st \<in> set l)}"

definition offered :: "('n, 'e) MutableTraversal \<Rightarrow> nid \<Rightarrow> ('e, AdjacencyStep) tresult \<times> bool \<Rightarrow> bool" where
  "offered t u x \<longleftrightarrow>
     access_visible t u = Inr True
   \<and> (\<exists>p. t_payload_for_nid t u = Inr (Some p) \<and> (\<exists>ns \<in> set (t_namespaces_for_payload t p). x \<in> node_steps t u ns))"

text \<open>An edge that leads from one node to another and passes every predicate.\<close>

definition hop :: "('n, 'e) MutableTraversal \<Rightarrow> nid \<Rightarrow> AdjacencyEdge \<Rightarrow> nid \<Rightarrow> bool" where
  "hop t u edge v \<longleftrightarrow>
     (\<exists>out. offered t u (Inr (Edge edge), out) \<and> leads u edge out v) \<and> edge_passes t edge \<and> node_passes t v"

lemma hop_of_step: "offered t u x \<Longrightarrow> step_passes t u x e v \<Longrightarrow> hop t u e v"
proof (cases x)
  case (Pair st out)
  assume o: "offered t u x" and s: "step_passes t u x e v"
  from s Pair have "st = Inr (Edge e)" "leads u e out v" "edge_passes t e" "node_passes t v"
    by (auto simp: step_passes_def leads_def)
  then show ?thesis using o Pair unfolding hop_def by blast
qed

lemma step_of_hop:
  assumes "hop t u e v" "u \<noteq> v"
  shows "\<exists>x. offered t u x \<and> step_passes t u x e v"
proof -
  from assms(1) obtain out where "offered t u (Inr (Edge e), out)" "leads u e out v" "edge_passes t e" "node_passes t v"
    by (auto simp: hop_def)
  moreover from this(2) assms(2) have "\<not> loop_again t u e out" by (auto simp: loop_again_def leads_def)
  ultimately have "offered t u (Inr (Edge e), out) \<and> step_passes t u (Inr (Edge e), out) e v" by (simp add: step_passes_iff)
  then show ?thesis ..
qed

lemma fault_step: "x \<in> node_steps t u ns \<Longrightarrow> fst x = Inl e \<Longrightarrow> fault t e"
  by (cases x) (auto simp: node_steps_def intro: fault_listed)

context growing
begin

lemma scan_namespace_done:
  assumes body: "\<And>x s. x \<in> node_steps t u ns \<Longrightarrow> I s \<Longrightarrow> wpF F H (\<lambda>s'. I s' \<and> grown s s' \<and> D x s') (body x s)"
    and keep: "\<And>x s s'. D x s \<Longrightarrow> grown s s' \<Longrightarrow> D x s'"
    and start: "I s" and fail: "\<And>e. fault t e \<Longrightarrow> F e"
  shows "wpF F H (\<lambda>s'. I s' \<and> grown s s' \<and> (\<forall>x \<in> node_steps t u ns. D x s')) (scan_namespace t u body ns s)"
proof -
  let ?outs = "if t_direction t \<in> {Outgoing, Both} then tg_outgoing (t_graph t) ns u else Inr []"
  let ?ins = "if t_direction t \<in> {Incoming, Both} then tg_incoming (t_graph t) ns u else Inr []"
  have F: "F e" if "?outs = Inl e \<or> ?ins = Inl e" for e
    by (rule fail) (use that in \<open>auto intro: fault_adjacency split: if_splits\<close>)
  show ?thesis
  proof (cases "\<exists>e. ?outs = Inl e \<or> ?ins = Inl e")
    case True
    then show ?thesis using F unfolding scan_namespace_def
      by (cases ?outs; cases ?ins) (simp_all only: tryF_simps wpF_simps sum.simps simp_thms ex_simps)
  next
    case False
    then obtain outs ins where l: "?outs = Inr outs" "?ins = Inr ins" by (metis sum.exhaust)
    have steps: "set (map (\<lambda>e. (e, True)) outs @ map (\<lambda>e. (e, False)) ins) = node_steps t u ns"
      using l by (cases "t_direction t") (auto simp: node_steps_def)
    have "wpF F H (\<lambda>s'. I s' \<and> grown s s' \<and> (\<forall>x \<in> set (map (\<lambda>e. (e, True)) outs @ map (\<lambda>e. (e, False)) ins). D x s'))
        (each body (map (\<lambda>e. (e, True)) outs @ map (\<lambda>e. (e, False)) ins) s)"
      by (rule each_done [where I = I and D = D]) (simp_all only: steps body start, rule keep)
    then show ?thesis unfolding scan_namespace_def l tryF_simps steps .
  qed
qed

lemma expand_node_done:
  assumes body: "\<And>x s. offered t u x \<Longrightarrow> I s \<Longrightarrow> wpF F H (\<lambda>s'. I s' \<and> grown s s' \<and> D x s') (body x s)"
    and keep: "\<And>x s s'. D x s \<Longrightarrow> grown s s' \<Longrightarrow> D x s'"
    and start: "I s" and fail: "\<And>e. fault t e \<Longrightarrow> F e"
  shows "wpF F H (\<lambda>s'. I s' \<and> grown s s' \<and> (\<forall>x. offered t u x \<longrightarrow> D x s')) (expand_node t u body s)"
proof (cases "\<exists>p. access_visible t u = Inr True \<and> t_payload_for_nid t u = Inr (Some p)")
  case True
  then obtain p where p: "access_visible t u = Inr True" "t_payload_for_nid t u = Inr (Some p)" by blast
  have "wpF F H (\<lambda>s'. I s' \<and> grown s s' \<and> (\<forall>ns \<in> set (t_namespaces_for_payload t p). \<forall>x \<in> node_steps t u ns. D x s'))
     (each (scan_namespace t u body) (t_namespaces_for_payload t p) s)"
  proof (rule each_done [where I = I and D = "\<lambda>ns s. \<forall>x \<in> node_steps t u ns. D x s"])
    show "I s" by (rule start)
    fix ns s assume "ns \<in> set (t_namespaces_for_payload t p)" "I s"
    then have "I s" and off: "x \<in> node_steps t u ns \<Longrightarrow> offered t u x" for x using p by (auto simp: offered_def)
    from this(1) show "wpF F H (\<lambda>s'. I s' \<and> grown s s' \<and> (\<forall>x \<in> node_steps t u ns. D x s')) (scan_namespace t u body ns s)"
      by (rule scan_namespace_done [where D = D and I = I, rotated 2]) (rule fail, assumption, rule body, rule off, assumption+, rule keep)
  qed (use keep in blast)
  then have "wpF F H (\<lambda>s'. I s' \<and> grown s s' \<and> (\<forall>x. offered t u x \<longrightarrow> D x s'))
     (each (scan_namespace t u body) (t_namespaces_for_payload t p) s)"
    by (rule wpF_mono) (use p in \<open>auto simp: offered_def\<close>)
  then show ?thesis using p by (simp add: expand_node_def)
next
  case False
  then have none: "\<not> offered t u x" for x by (auto simp: offered_def)
  have F: "access_visible t u = Inl e \<Longrightarrow> F e" "t_payload_for_nid t u = Inl e \<Longrightarrow> F e" for e
    by (simp_all add: fail fault_access_visible fault_payload)
  show ?thesis using False F
    by (auto simp: expand_node_def none start grown_refl split: option.splits)
qed

end

end
