(* ===== verification/Graph_Search.thy ===== *)
theory Graph_Search
  imports Graph_Traversal
begin

text \<open>
  Correctness of the breadth-first search of \<open>Graph_Traversal\<close>. A \<open>hop\<close> is an edge the query may
  follow; \<open>at_distance\<close> is the set of nodes whose shortest walk of hops from an anchor has a given
  length. One level is described by \<open>bfs_inv\<close>, which every step of the expansion keeps, and the
  levels by \<open>bfs_at\<close>.
\<close>

section \<open>Distances\<close>

primrec hops :: "('n, 'e) MutableTraversal \<Rightarrow> nid set \<Rightarrow> nat \<Rightarrow> nid set" where
  "hops t A 0 = A"
| "hops t A (Suc n) = {v. \<exists>u \<in> hops t A n. \<exists>e. hop t u e v}"

definition at_distance :: "('n, 'e) MutableTraversal \<Rightarrow> nid set \<Rightarrow> nat \<Rightarrow> nid set" where
  "at_distance t A n = hops t A n - (\<Union>k < n. hops t A k)"

lemma at_distance_0 [simp]: "at_distance t A 0 = A"
  by (simp add: at_distance_def)

lemma within_distance: "(\<Union>k < n. at_distance t A k) = (\<Union>k < n. hops t A k)"
  by (induction n) (auto simp: lessThan_Suc at_distance_def)

lemma at_distance_Suc:
  "at_distance t A (Suc n) = {v. \<exists>u \<in> at_distance t A n. \<exists>e. hop t u e v} - (\<Union>k < Suc n. at_distance t A k)"
proof -
  have "\<exists>u \<in> at_distance t A n. \<exists>e. hop t u e v" if v: "v \<in> hops t A (Suc n)" "v \<notin> (\<Union>k < Suc n. hops t A k)" for v
  proof -
    from v(1) obtain u e where u: "u \<in> hops t A n" "hop t u e v" by auto
    have "u \<notin> hops t A k" if "k < n" for k
    proof
      assume "u \<in> hops t A k"
      then have "v \<in> hops t A (Suc k)" using u(2) by auto
      moreover have "Suc k < Suc n" using that by simp
      ultimately show False using v(2) by blast
    qed
    then show ?thesis using u by (auto simp: at_distance_def)
  qed
  then show ?thesis unfolding within_distance by (auto simp: at_distance_def)
qed

lemma at_distance_empty: "at_distance t A n = {} \<Longrightarrow> n \<le> m \<Longrightarrow> at_distance t A m = {}"
proof (induction m)
  case (Suc m)
  then show ?case by (cases "n = Suc m") (simp_all add: at_distance_Suc)
qed simp

lemma at_distance_disjoint: "v \<in> at_distance t A m \<Longrightarrow> v \<in> at_distance t A n \<Longrightarrow> m = n"
  by (rule linorder_cases [of m n]) (auto simp: at_distance_def)

section \<open>One level of the search\<close>

definition bfs_grown :: "bfs_work \<Rightarrow> bfs_work \<Rightarrow> bool" where
  "bfs_grown s s' \<longleftrightarrow> visited s \<subseteq> visited s' \<and> set (captured_edges s) \<subseteq> set (captured_edges s')"

interpretation bfs: growing bfs_grown
  by unfold_locales (auto simp: bfs_grown_def)

definition bfs_inv :: "('n, 'e) MutableTraversal \<Rightarrow> bool \<Rightarrow> nid list \<Rightarrow> nid set \<Rightarrow> TraversalEdgeVisit set \<Rightarrow> nat \<Rightarrow> nat \<Rightarrow> bfs_work \<Rightarrow> bool" where
  "bfs_inv t cap frontier V C n h s \<longleftrightarrow>
     visited s = V \<union> set (next_nodes s) \<and> distinct (next_nodes s) \<and> set (next_nodes s) \<inter> V = {}
   \<and> (\<forall>v \<in> set (next_nodes s). \<exists>u \<in> set frontier. \<exists>e. hop t u e v)
   \<and> nodes_visited (w_stats s) = n + length (next_nodes s) \<and> nodes_visited (w_stats s) \<le> max_visited (t_budget t)
   \<and> internal_edges s \<le> max_edges (t_budget t) \<and> hops_completed (w_stats s) = h
   \<and> distinct (map ev_edge_id (captured_edges s)) \<and> C \<subseteq> set (captured_edges s)
   \<and> (\<forall>c \<in> set (captured_edges s). c \<in> C \<or> cap \<and> (\<exists>u \<in> set frontier. \<exists>e v. hop t u e v \<and> c = edge_visit e))"

lemma bfs_inv_keep: "keep t s s' \<Longrightarrow> bfs_inv t cap frontier V C n h s \<Longrightarrow> bfs_inv t cap frontier V C n h s' \<and> bfs_grown s s'"
  by (elim keepE) (simp add: bfs_inv_def bfs_grown_def)

definition bfs_seen :: "bool \<Rightarrow> AdjacencyEdge \<Rightarrow> nid \<Rightarrow> bfs_work \<Rightarrow> bool" where
  "bfs_seen cap e v s \<longleftrightarrow> v \<in> visited s \<and> (cap \<longrightarrow> ae_edge_id e \<in> ev_edge_id ` set (captured_edges s))"

lemma bfs_seen_grown: "bfs_seen cap e v s \<Longrightarrow> bfs_grown s s' \<Longrightarrow> bfs_seen cap e v s'"
  by (auto simp: bfs_seen_def bfs_grown_def)

lemma edge_visit_id [simp]: "ev_edge_id (edge_visit e) = ae_edge_id e"
  by (simp add: edge_visit_def)

lemma bfs_capture:
  assumes "bfs_inv t cap frontier V C n h s" "u \<in> set frontier" "hop t u e v" "cap" "ae_edge_id e \<notin> ev_edge_id ` set (captured_edges s)"
  shows "bfs_inv t cap frontier V C n h (s\<lparr>captured_edges := captured_edges s @ [edge_visit e]\<rparr>)"
  using assms unfolding bfs_inv_def by (auto, blast)

lemma bfs_visit:
  assumes "bfs_inv t cap frontier V C n h s" "u \<in> set frontier" "hop t u e v" "v \<notin> visited s"
    "nodes_visited (w_stats s) < max_visited (t_budget t)"
  shows "bfs_inv t cap frontier V C n h (s\<lparr>visited := insert v (visited s),
               w_stats := (w_stats s)\<lparr>nodes_visited := nodes_visited (w_stats s) + 1\<rparr>,
               next_nodes := next_nodes s @ [v]\<rparr>)"
  using assms by (auto simp: bfs_inv_def)

lemma wpF_bfs_reached:
  assumes inv: "bfs_inv t cap frontier V C n h s" and hop: "u \<in> set frontier" "hop t u e v"
  shows "wpF F (\<lambda>_. bfs_inv t cap frontier V C n h)
           (\<lambda>s'. bfs_inv t cap frontier V C n h s' \<and> bfs_grown s s' \<and> bfs_seen cap e v s')
           (bfs_reached t cap cm fl vl e v s)"
proof -
  define s1 where "s1 = (if cap \<and> ae_edge_id e \<notin> ev_edge_id ` set (captured_edges s)
     then s\<lparr>captured_edges := captured_edges s @ [edge_visit e]\<rparr> else s)"
  have i1: "bfs_inv t cap frontier V C n h s1" using bfs_capture [OF inv hop] inv by (simp add: s1_def)
  have g1: "bfs_grown s s1" "cap \<longrightarrow> ae_edge_id e \<in> ev_edge_id ` set (captured_edges s1)"
    "w_stats s1 = w_stats s" "visited s1 = visited s" "next_nodes s1 = next_nodes s"
    by (auto simp: s1_def bfs_grown_def)
  have visit: "nodes_visited (w_stats s1) < max_visited (t_budget t) \<Longrightarrow> v \<notin> visited s1 \<Longrightarrow>
    bfs_inv t cap frontier V C n h (s1\<lparr>visited := insert v (visited s1),
       w_stats := (w_stats s1)\<lparr>nodes_visited := nodes_visited (w_stats s1) + 1\<rparr>, next_nodes := next_nodes s1 @ [v]\<rparr>)"
    by (rule bfs_visit [OF i1 hop])
  show ?thesis
    using i1 g1 visit inv unfolding bfs_reached_def Let_def s1_def [symmetric]
    by (auto simp: bfs_grown_def bfs_seen_def not_le)
qed

lemma wpF_bfs_step:
  assumes "offered t u x" "u \<in> set frontier" "bfs_inv t cap frontier V C n h s"
  shows "wpF (fault t) (\<lambda>_. bfs_inv t cap frontier V C n h)
           (\<lambda>s'. bfs_inv t cap frontier V C n h s' \<and> bfs_grown s s' \<and> (\<forall>e v. step_passes t u x e v \<longrightarrow> bfs_seen cap e v s'))
           (examine t mem cm u (bfs_reached t cap cm fl vl) x s)"
proof (rule wpF_examine)
  fix e v s' assume k: "keep t s s'" and p: "step_passes t u x e v"
  note k' = bfs_inv_keep [OF k assms(3)]
  have only: "e' = e \<and> v' = v" if "step_passes t u x e' v'" for e' v'
    using p that by (auto simp: step_passes_def split: if_splits)
  have "wpF (fault t) (\<lambda>_. bfs_inv t cap frontier V C n h)
     (\<lambda>s2. bfs_inv t cap frontier V C n h s2 \<and> bfs_grown s' s2 \<and> bfs_seen cap e v s2) (bfs_reached t cap cm fl vl e v s')"
    using k' by (intro wpF_bfs_reached [where u = u] assms(2) hop_of_step [OF assms(1) p]) simp
  then show "wpF (fault t) (\<lambda>_. bfs_inv t cap frontier V C n h)
     (\<lambda>s'. bfs_inv t cap frontier V C n h s' \<and> bfs_grown s s' \<and> (\<forall>e v. step_passes t u x e v \<longrightarrow> bfs_seen cap e v s'))
     (bfs_reached t cap cm fl vl e v s')"
    by (rule wpF_mono) (use only k' bfs.grown_trans in blast)+
next
  fix e assume "fault t e \<or> fst x = Inl e"
  then show "fault t e" using assms(1) fault_step unfolding offered_def by blast
qed (use bfs_inv_keep [OF _ assms(3)] in blast)+

lemma wpF_bfs_expand:
  assumes inv: "bfs_inv t cap frontier V C n h s" and V: "set frontier \<subseteq> V"
  shows "wpF (fault t) (\<lambda>_. bfs_inv t cap frontier V C n h)
           (\<lambda>s'. bfs_inv t cap frontier V C n h s' \<and> (\<forall>u \<in> set frontier. \<forall>e v. hop t u e v \<longrightarrow> v \<in> visited s'
              \<and> (cap \<and> u \<noteq> v \<longrightarrow> ae_edge_id e \<in> ev_edge_id ` set (captured_edges s'))))
           (bfs_expand t cap cm frontier vl s)"
proof -
  let ?I = "bfs_inv t cap frontier V C n h"
  let ?D = "\<lambda>u x s. \<forall>e v. step_passes t u x e v \<longrightarrow> bfs_seen cap e v s"
  have "wpF (fault t) (\<lambda>_. ?I) (\<lambda>s'. ?I s' \<and> bfs_grown s s' \<and> (\<forall>u \<in> set frontier. \<forall>x. offered t u x \<longrightarrow> ?D u x s'))
    (bfs_expand t cap cm frontier vl s)"
    unfolding bfs_expand_def
  proof (rule bfs.each_done [where I = ?I and D = "\<lambda>u s. \<forall>x. offered t u x \<longrightarrow> ?D u x s"])
    fix u s assume u: "u \<in> set frontier" and s: "?I s"
    show "wpF (fault t) (\<lambda>_. ?I) (\<lambda>s'. ?I s' \<and> bfs_grown s s' \<and> (\<forall>x. offered t u x \<longrightarrow> ?D u x s'))
      (expand_node t u (examine t (bfs_memory (length frontier) vl) cm u (bfs_reached t cap cm (length frontier) vl)) s)"
    proof (rule bfs.expand_node_done [where I = ?I and D = "?D u"])
      fix x s assume "offered t u x" "?I s"
      then show "wpF (fault t) (\<lambda>_. ?I) (\<lambda>s'. ?I s' \<and> bfs_grown s s' \<and> ?D u x s')
         (examine t (bfs_memory (length frontier) vl) cm u (bfs_reached t cap cm (length frontier) vl) x s)"
        using u by (intro wpF_bfs_step)
    qed (use s bfs_seen_grown in blast)+
  qed (use inv bfs_seen_grown in blast)+
  then show ?thesis
  proof (rule wpF_mono)
    fix s' assume *: "?I s' \<and> bfs_grown s s' \<and> (\<forall>u \<in> set frontier. \<forall>x. offered t u x \<longrightarrow> ?D u x s')"
    have "v \<in> visited s' \<and> (cap \<and> u \<noteq> v \<longrightarrow> ae_edge_id e \<in> ev_edge_id ` set (captured_edges s'))"
      if u: "u \<in> set frontier" "hop t u e v" for u e v
    proof (cases "u = v")
      case True
      then show ?thesis using V u * by (auto simp: bfs_inv_def)
    next
      case False
      then show ?thesis using step_of_hop [OF u(2)] * u(1) by (auto simp: bfs_seen_def)
    qed
    then show "?I s' \<and> (\<forall>u \<in> set frontier. \<forall>e v. hop t u e v \<longrightarrow> v \<in> visited s'
       \<and> (cap \<and> u \<noteq> v \<longrightarrow> ae_edge_id e \<in> ev_edge_id ` set (captured_edges s')))" using * by blast
  qed simp_all
qed

section \<open>All levels\<close>

definition visit_less :: "TraversalVisit \<Rightarrow> TraversalVisit \<Rightarrow> bool" where
  "visit_less x y \<longleftrightarrow> visit_depth x < visit_depth y \<or> visit_depth x = visit_depth y \<and> visit_nid x < visit_nid y"

text \<open>What is captured after the given levels were expanded.\<close>

definition captured_ok :: "('n, 'e) MutableTraversal \<Rightarrow> bool \<Rightarrow> nid set \<Rightarrow> nat \<Rightarrow> bfs_work \<Rightarrow> bool" where
  "captured_ok t cap A k s \<longleftrightarrow>
     distinct (map ev_edge_id (captured_edges s))
   \<and> (\<forall>c \<in> set (captured_edges s). cap \<and> (\<exists>j < k. \<exists>u \<in> at_distance t A j. \<exists>e v. hop t u e v \<and> c = edge_visit e))"

definition captured_all :: "('n, 'e) MutableTraversal \<Rightarrow> bool \<Rightarrow> nid set \<Rightarrow> nat \<Rightarrow> bfs_work \<Rightarrow> bool" where
  "captured_all t cap A k s \<longleftrightarrow>
     (cap \<longrightarrow> (\<forall>j < k. \<forall>u \<in> at_distance t A j. \<forall>e v. hop t u e v \<and> u \<noteq> v \<longrightarrow> ae_edge_id e \<in> ev_edge_id ` set (captured_edges s)))"

definition visits_upto :: "('n, 'e) MutableTraversal \<Rightarrow> nid set \<Rightarrow> nat \<Rightarrow> TraversalVisit set" where
  "visits_upto t A k = {\<lparr>visit_nid = v, visit_depth = j\<rparr> |v j. 1 \<le> j \<and> j \<le> k \<and> v \<in> at_distance t A j}"

definition bfs_spent :: "('n, 'e) MutableTraversal \<Rightarrow> TraversalVisit list \<Rightarrow> bfs_work \<Rightarrow> bool" where
  "bfs_spent t vs s \<longleftrightarrow>
     nodes_visited (w_stats s) = t_visible_anchor_count t + length vs
   \<and> nodes_visited (w_stats s) \<le> max_visited (t_budget t) \<and> internal_edges s \<le> max_edges (t_budget t)"

definition bfs_at :: "('n, 'e) MutableTraversal \<Rightarrow> bool \<Rightarrow> nid set \<Rightarrow> nat \<Rightarrow> nid list \<Rightarrow> TraversalVisit list \<Rightarrow> bfs_work \<Rightarrow> bool" where
  "bfs_at t cap A k frontier vs s \<longleftrightarrow>
     set frontier = at_distance t A k \<and> visited s = (\<Union>j < Suc k. at_distance t A j)
   \<and> set vs = visits_upto t A k \<and> sorted_wrt visit_less vs \<and> hops_completed (w_stats s) = k
   \<and> bfs_spent t vs s \<and> captured_ok t cap A k s \<and> captured_all t cap A k s"

definition bfs_result :: "('n, 'e) MutableTraversal \<Rightarrow> bool \<Rightarrow> nid set \<Rightarrow> TraversalVisit list \<Rightarrow> TraversalTruncationReason option \<Rightarrow> bfs_work \<Rightarrow> bool" where
  "bfs_result t cap A vs r s \<longleftrightarrow>
     set vs \<subseteq> visits_upto t A (max_depth (t_budget t)) \<and> sorted_wrt visit_less vs
   \<and> visits_upto t A (hops_completed (w_stats s)) \<subseteq> set vs
   \<and> (r = None \<longrightarrow> set vs = visits_upto t A (max_depth (t_budget t)) \<and> captured_all t cap A (max_depth (t_budget t)) s)
   \<and> bfs_spent t vs s \<and> captured_ok t cap A (max_depth (t_budget t)) s"

lemma visits_upto_mono: "k \<le> m \<Longrightarrow> visits_upto t A k \<subseteq> visits_upto t A m"
  by (auto simp: visits_upto_def)

lemma visits_upto_Suc: "visits_upto t A (Suc k) = visits_upto t A k \<union> (\<lambda>v. \<lparr>visit_nid = v, visit_depth = Suc k\<rparr>) ` at_distance t A (Suc k)"
  by (auto simp: visits_upto_def le_Suc_eq)

lemma set_level_visits: "set (level_visits d vs) = (\<lambda>v. \<lparr>visit_nid = v, visit_depth = d\<rparr>) ` set vs"
  by (simp add: level_visits_def)

lemma captured_mono: "captured_ok t cap A k s \<Longrightarrow> k \<le> m \<Longrightarrow> captured_ok t cap A m s"
  unfolding captured_ok_def by (meson order_less_le_trans)

lemma sorted_level_visits:
  assumes "sorted_wrt visit_less vs" "\<forall>x \<in> set vs. visit_depth x < d" "sorted_wrt (<) ns"
  shows "sorted_wrt visit_less (vs @ level_visits d ns)"
  using assms by (auto simp: sorted_wrt_append level_visits_def sorted_wrt_map visit_less_def elim: sorted_wrt_mono_rel [rotated])

lemma strict_remdups_adj: "sorted (xs :: 'a :: linorder list) \<Longrightarrow> sorted_wrt (<) (remdups_adj xs)"
proof (induction xs rule: remdups_adj.induct)
  case (3 x y xs)
  then have "x \<noteq> y \<Longrightarrow> \<forall>z \<in> set (y # xs). x < z" by force
  with 3 show ?case by (auto simp del: remdups_adj.simps simp: remdups_adj.simps(3))
qed simp_all

lemma dedup_sorted [simp]: "sorted_wrt (<) (remdups_adj (sort (xs :: 'a :: linorder list)))"
  by (simp add: strict_remdups_adj)

lemma length_dedup: "distinct xs \<Longrightarrow> length (remdups_adj (sort xs)) = length xs"
  by (simp add: remdups_adj_distinct)

text \<open>The state when a level has been expanded, in full or up to a truncation.\<close>

lemma bfs_level_end:
  assumes at: "bfs_at t cap A k frontier vs s0"
    and inv: "bfs_inv t cap frontier (visited s0) (set (captured_edges s0)) (nodes_visited (w_stats s0)) k s"
  defines "ns \<equiv> remdups_adj (sort (next_nodes s))"
  shows "set (vs @ level_visits (Suc k) ns) \<subseteq> visits_upto t A (Suc k)"
    and "sorted_wrt visit_less (vs @ level_visits (Suc k) ns)"
    and "bfs_spent t (vs @ level_visits (Suc k) ns) s"
    and "captured_ok t cap A (Suc k) s"
proof -
  have dis: "distinct (next_nodes s)" "set (next_nodes s) \<inter> visited s0 = {}" using inv by (auto simp: bfs_inv_def)
  have "v \<in> at_distance t A (Suc k)" if "v \<in> set (next_nodes s)" for v
    unfolding at_distance_Suc using that inv at by (auto simp: bfs_inv_def bfs_at_def)
  then show "set (vs @ level_visits (Suc k) ns) \<subseteq> visits_upto t A (Suc k)"
    using at unfolding visits_upto_Suc by (auto simp: ns_def bfs_at_def set_level_visits)
  have "\<forall>x \<in> set vs. visit_depth x < Suc k" using at by (auto simp: bfs_at_def visits_upto_def)
  then show "sorted_wrt visit_less (vs @ level_visits (Suc k) ns)"
    using at by (intro sorted_level_visits) (simp_all add: bfs_at_def ns_def)
  show "bfs_spent t (vs @ level_visits (Suc k) ns) s"
    using at inv length_dedup [OF dis(1)] by (simp add: bfs_spent_def bfs_at_def bfs_inv_def level_visits_def ns_def)
  have C: "c \<in> set (captured_edges s0) \<or> cap \<and> (\<exists>u \<in> at_distance t A k. \<exists>e v. hop t u e v \<and> c = edge_visit e)"
    if "c \<in> set (captured_edges s)" for c
    using that inv at by (auto simp: bfs_inv_def bfs_at_def)
  have old: "captured_ok t cap A k s0" using at by (simp add: bfs_at_def)
  show "captured_ok t cap A (Suc k) s"
    unfolding captured_ok_def
  proof (intro conjI ballI)
    show "distinct (map ev_edge_id (captured_edges s))" using inv by (simp add: bfs_inv_def)
    fix c assume "c \<in> set (captured_edges s)"
    then have "cap \<and> (\<exists>j < Suc k. \<exists>u \<in> at_distance t A j. \<exists>e v. hop t u e v \<and> c = edge_visit e)"
      using C [of c] old unfolding captured_ok_def by (meson less_SucI lessI)
    then show cap "\<exists>j < Suc k. \<exists>u \<in> at_distance t A j. \<exists>e v. hop t u e v \<and> c = edge_visit e" by blast+
  qed
qed

lemma bfs_level_full:
  assumes at: "bfs_at t cap A k frontier vs s0"
    and inv: "bfs_inv t cap frontier (visited s0) (set (captured_edges s0)) (nodes_visited (w_stats s0)) k s"
    and all: "\<forall>u \<in> set frontier. \<forall>e v. hop t u e v \<longrightarrow> v \<in> visited s
       \<and> (cap \<and> u \<noteq> v \<longrightarrow> ae_edge_id e \<in> ev_edge_id ` set (captured_edges s))"
  shows "bfs_at t cap A (Suc k) (remdups_adj (sort (next_nodes s))) (vs @ level_visits (Suc k) (remdups_adj (sort (next_nodes s))))
     (s\<lparr>w_stats := (w_stats s)\<lparr>max_frontier_size := m, hops_completed := Suc k\<rparr>\<rparr>)"
proof -
  note parts = bfs_level_end [OF at inv]
  have new: "set (next_nodes s) = at_distance t A (Suc k)"
  proof -
    have *: "set frontier = at_distance t A k" "visited s0 = (\<Union>j < Suc k. at_distance t A j)"
      using at by (simp_all add: bfs_at_def)
    have i: "visited s = visited s0 \<union> set (next_nodes s)" "set (next_nodes s) \<inter> visited s0 = {}"
      "\<forall>v \<in> set (next_nodes s). \<exists>u \<in> set frontier. \<exists>e. hop t u e v" using inv by (simp_all add: bfs_inv_def)
    have "{v. \<exists>u \<in> set frontier. \<exists>e. hop t u e v} \<subseteq> visited s" using all by blast
    with i have "set (next_nodes s) = {v. \<exists>u \<in> set frontier. \<exists>e. hop t u e v} - visited s0" by blast
    then show ?thesis unfolding at_distance_Suc * .
  qed
  have vis: "visited s = (\<Union>j < Suc (Suc k). at_distance t A j)"
    using inv at new by (auto simp: bfs_inv_def bfs_at_def lessThan_Suc)
  have vs: "set (vs @ level_visits (Suc k) (remdups_adj (sort (next_nodes s)))) = visits_upto t A (Suc k)"
    using at new by (simp add: visits_upto_Suc bfs_at_def set_level_visits)
  have cap: "captured_all t cap A (Suc k) s"
  proof -
    have "ev_edge_id ` set (captured_edges s0) \<subseteq> ev_edge_id ` set (captured_edges s)" "captured_all t cap A k s0"
      "set frontier = at_distance t A k" using at inv by (auto simp: bfs_at_def bfs_inv_def)
    then show ?thesis using all unfolding captured_all_def less_Suc_eq by blast
  qed
  show ?thesis
    using parts(2-4) new vis vs cap
    by (simp add: bfs_at_def bfs_spent_def captured_ok_def captured_all_def)
qed

lemma bfs_at_keep:
  assumes "keep t s s'" "bfs_at t cap A k frontier vs s"
  shows "bfs_at t cap A k frontier vs s'"
  using assms by (elim keepE) (simp add: bfs_at_def bfs_spent_def captured_ok_def captured_all_def)

lemma bfs_at_result:
  assumes "bfs_at t cap A k frontier vs s" "k \<le> max_depth (t_budget t)"
    "r = None \<Longrightarrow> k = max_depth (t_budget t) \<or> at_distance t A k = {}"
  shows "bfs_result t cap A vs r s"
proof -
  have "set vs = visits_upto t A (max_depth (t_budget t)) \<and> captured_all t cap A (max_depth (t_budget t)) s" if "r = None"
  proof (cases "k = max_depth (t_budget t)")
    case True
    then show ?thesis using assms(1) by (simp add: bfs_at_def)
  next
    case False
    then have "at_distance t A j = {}" if "k \<le> j" for j using assms(3) \<open>r = None\<close> at_distance_empty that by blast
    then have "visits_upto t A (max_depth (t_budget t)) \<subseteq> visits_upto t A k"
      "captured_all t cap A k s \<Longrightarrow> captured_all t cap A (max_depth (t_budget t)) s"
      by (auto simp: visits_upto_def captured_all_def) (metis empty_iff linorder_le_cases linorder_not_le)+
    then show ?thesis using assms(1) visits_upto_mono [OF assms(2), of t A] by (simp add: bfs_at_def)
  qed
  then show ?thesis
    using assms(1,2) visits_upto_mono [OF assms(2), of t A] captured_mono
    by (auto simp: bfs_result_def bfs_at_def)
qed

lemma wpF_boundary:
  assumes "\<And>s'. keep t s s' \<Longrightarrow> N s'" "\<And>r s'. r \<noteq> Limit \<Longrightarrow> keep t s s' \<Longrightarrow> H r s'" "\<And>e. fault t e \<Longrightarrow> F e"
  shows "wpF F H N (bindF (access_check t s) (boundary_reason t n))"
  unfolding boundary_reason_def wpF_bindF
  by (intro wpF_access_check wpF_polls) (auto intro!: assms keep_tick)

lemma bfs_at_inv:
  assumes "bfs_at t cap A k frontier vs s"
  shows "bfs_inv t cap frontier (visited s) (set (captured_edges s)) (nodes_visited (w_stats s)) k (s\<lparr>next_nodes := []\<rparr>)"
  using assms by (simp add: bfs_at_def bfs_inv_def bfs_spent_def captured_ok_def)

lemma bfs_stop:
  assumes at: "bfs_at t cap A k frontier vs s0" and k: "Suc k \<le> max_depth (t_budget t)"
    and inv: "bfs_inv t cap frontier (visited s0) (set (captured_edges s0)) (nodes_visited (w_stats s0)) k s"
  shows "bfs_result t cap A (vs @ level_visits (Suc k) (remdups_adj (sort (next_nodes s)))) (Some r)
     (s\<lparr>w_stats := (w_stats s)\<lparr>max_frontier_size := m\<rparr>\<rparr>)"
  using bfs_level_end [OF at inv] inv at visits_upto_mono [OF k, of t A]  captured_mono [OF _ k, of t cap A s]
  by (auto simp: bfs_result_def bfs_spent_def captured_ok_def bfs_inv_def bfs_at_def)

lemma bfs_levels_correct:
  assumes "bfs_at t cap A k frontier vs s" "k + left = max_depth (t_budget t)" "depth = Suc k"
  shows "case bfs_levels t cap cm left depth frontier vs s of
           Inl e \<Rightarrow> fault t e | Inr (vs', r, s') \<Rightarrow> bfs_result t cap A vs' r s'"
  using assms
proof (induction left arbitrary: k depth frontier vs s)
  case 0
  then show ?case by (simp add: bfs_at_result)
next
  case (Suc left)
  let ?R = "\<lambda>y. case y of Inl e \<Rightarrow> fault t e | Inr (vs', r, s') \<Rightarrow> bfs_result t cap A vs' r s'"
  have "wpF (fault t) (\<lambda>_. bfs_at t cap A k frontier vs) (bfs_at t cap A k frontier vs)
     (bindF (access_check t s) (boundary_reason t (length frontier)))"
    by (rule wpF_boundary) (use bfs_at_keep Suc.prems(1) in blast)+
  then consider e where "bindF (access_check t s) (boundary_reason t (length frontier)) = Fail e" "fault t e"
    | r s0 where "bindF (access_check t s) (boundary_reason t (length frontier)) = Halt r s0" "bfs_at t cap A k frontier vs s0"
    | s0 where "bindF (access_check t s) (boundary_reason t (length frontier)) = Next s0" "bfs_at t cap A k frontier vs s0"
    by (cases "bindF (access_check t s) (boundary_reason t (length frontier))") auto
  then show ?case
  proof cases
    case 1
    then show ?thesis by (simp add: bfs_levels.simps(2))
  next
    case 2
    then show ?thesis using Suc.prems(2) by (auto simp: bfs_levels.simps(2) intro!: bfs_at_result)
  next
    case (3 s0)
    note at = 3(2)
    let ?I = "bfs_inv t cap frontier (visited s0) (set (captured_edges s0)) (nodes_visited (w_stats s0)) k"
    have sub: "set frontier \<subseteq> visited s0" using at by (auto simp: bfs_at_def)
    note ex = wpF_bfs_expand [OF bfs_at_inv [OF at] sub, of cm "length vs"]
    have k: "Suc k \<le> max_depth (t_budget t)" using Suc.prems(2) by simp
    show ?thesis
    proof (cases "bfs_expand t cap cm frontier (length vs) (s0\<lparr>next_nodes := []\<rparr>)")
      case (Fail e)
      then show ?thesis using 3(1) ex by (simp add: bfs_levels.simps(2))
    next
      case (Halt r s1)
      then show ?thesis using 3(1) ex bfs_stop [OF at k, of s1 r] Suc.prems(3)
        by (simp add: bfs_levels.simps(2) close_level_def Let_def)
    next
      case (Next s1)
      let ?ns = "remdups_adj (sort (next_nodes s1))"
      let ?vs = "vs @ level_visits (Suc k) ?ns"
      let ?s = "s1\<lparr>w_stats := (w_stats s1)\<lparr>max_frontier_size := max (max_frontier_size (w_stats s1)) (length ?ns), hops_completed := Suc k\<rparr>\<rparr>"
      have inv: "?I s1" and full: "bfs_at t cap A (Suc k) ?ns ?vs ?s"
        using ex Next bfs_level_full [OF at, of s1] by simp_all
      have fin: "bfs_result t cap A ?vs None ?s" if "?ns = []"
        by (rule bfs_at_result [OF full k]) (use full that in \<open>simp add: bfs_at_def\<close>)
      have rec: "?R (bfs_levels t cap cm left (Suc (Suc k)) ?ns ?vs ?s)"
        by (rule Suc.IH [OF full]) (use Suc.prems(2) in simp_all)
      show ?thesis using 3(1) Next Suc.prems(3) bfs_stop [OF at k inv, of Frontier] fin rec
        by (simp add: bfs_levels.simps(2) close_level_def Let_def)
    qed
  qed
qed

section \<open>The whole search\<close>

lemma matching_anchors_correct:
  "case matching_anchors t vs of Inl e \<Rightarrow> fault t e | Inr ms \<Rightarrow> ms = filter (node_passes t) vs"
proof (induction vs)
  case (Cons v vs)
  then show ?case
    by (auto simp: bindE_def node_passes_def faults split: sum.splits option.splits)
qed simp

lemma stats_start [simp]: "nodes_visited (initial_stats t) = t_visible_anchor_count t" "hops_completed (initial_stats t) = 0"
  by (simp_all add: initial_stats_def stats_default_def)

text \<open>Results of a search of at least one hop, and of none.\<close>

definition bfs_outcome :: "('n, 'e) MutableTraversal \<Rightarrow> bool \<Rightarrow> TraversalExecution \<Rightarrow> bool" where
  "bfs_outcome t cap x \<longleftrightarrow>
     (\<exists>r s. bfs_result t cap (set (t_anchors t)) (visits (x_result x)) r s \<and> truncation (x_result x) = r
        \<and> x_edges x = captured_edges s \<and> x_internal_edges_examined x = internal_edges s
        \<and> hops_completed (stats (x_result x)) = hops_completed (w_stats s)
        \<and> nodes_visited (stats (x_result x)) = nodes_visited (w_stats s))
   \<or> truncation (x_result x) \<in> {Some Visited, Some Memory} \<and> visits (x_result x) = [] \<and> x_edges x = []
        \<and> x_internal_edges_examined x = 0 \<and> hops_completed (stats (x_result x)) = 0
        \<and> nodes_visited (stats (x_result x)) = t_visible_anchor_count t"

definition bfs_start :: "('n, 'e) MutableTraversal \<Rightarrow> bfs_work \<Rightarrow> bool" where
  "bfs_start t s \<longleftrightarrow> keep t (initial_work t (remdups_adj (sort (t_anchors t)))) s"

lemma bfs_start_at:
  assumes "bfs_start t s" "t_visible_anchor_count t \<le> max_visited (t_budget t)"
  shows "bfs_at t cap (set (t_anchors t)) 0 (remdups_adj (sort (t_anchors t))) [] s"
  using assms unfolding bfs_start_def
  by (elim keepE) (simp add: bfs_at_def initial_work_def bfs_spent_def captured_ok_def captured_all_def visits_upto_def lessThan_Suc)

lemma wpF_start:
  assumes "keep t s0 s"
  shows "wpF (fault t) (\<lambda>_ _. False) (keep t s0) (bindF (access_check t s) (poll_cancelled t))"
  unfolding wpF_bindF
  by (intro wpF_access_check wpF_poll_cancelled) (auto intro: assms keep_tick)

lemma exact_bfs_internal_outcome:
  "case exact_bfs_internal t cap of
     Inl e \<Rightarrow> fault t e
   | Inr x \<Rightarrow>
       if max_depth (t_budget t) = 0
       then x_edges x = [] \<and> x_internal_edges_examined x = 0 \<and> nodes_visited (stats (x_result x)) = t_visible_anchor_count t
          \<and> (truncation (x_result x) = None \<and> t_visible_anchor_count t \<le> max_visited (t_budget t)
             \<and> visits (x_result x) = level_visits 0 (filter (node_passes t) (remdups_adj (sort (t_anchors t))))
           \<or> truncation (x_result x) \<in> {Some Visited, Some Memory} \<and> visits (x_result x) = [])
       else bfs_outcome t cap x"
proof -
  let ?fr = "remdups_adj (sort (t_anchors t))"
  let ?init = "bindF (access_check t (initial_work t ?fr)) (poll_cancelled t)"
  have "wpF (fault t) (\<lambda>_ _. False) (keep t (initial_work t ?fr)) ?init" by (rule wpF_start) simp
  then consider e where "?init = Fail e" "fault t e" | s where "?init = Next s" "bfs_start t s"
    by (cases ?init) (auto simp: bfs_start_def)
  then show ?thesis
  proof cases
    case 1
    then show ?thesis by (simp add: exact_bfs_internal_def)
  next
    case (2 s)
    have st: "nodes_visited (w_stats s) = t_visible_anchor_count t" "hops_completed (w_stats s) = 0"
      using 2(2) unfolding bfs_start_def by (elim keepE, simp add: initial_work_def)+
    show ?thesis
    proof (cases "t_visible_anchor_count t > max_visited (t_budget t)")
      case True
      then show ?thesis using 2(1) st by (simp add: exact_bfs_internal_def execution_def truncated_def bfs_outcome_def)
    next
      case False
      show ?thesis
      proof (cases "max_depth (t_budget t) = 0")
        case True
        then show ?thesis using 2(1) st False matching_anchors_correct [of t ?fr]
          by (auto simp: exact_bfs_internal_def execution_def truncated_def bindE_def Let_def split: sum.splits)
      next
        case deep: False
        note at = bfs_start_at [OF 2(2), of cap]
        have "case bfs_levels t cap cm (max_depth (t_budget t)) 1 ?fr [] s of
             Inl e \<Rightarrow> fault t e | Inr (vs', r, s') \<Rightarrow> bfs_result t cap (set (t_anchors t)) vs' r s'" for cm
          by (rule bfs_levels_correct [OF at]) (use False in simp_all)
        from this [of "tg_cursor_memory_bytes (t_graph t)"] show ?thesis using 2(1) st False deep
          by (auto simp: exact_bfs_internal_def execution_def truncated_def bindE_def Let_def bfs_outcome_def level_visits_def
              split: sum.splits)
      qed
    qed
  qed
qed

section \<open>An example\<close>

definition example_edge :: "edge_id \<Rightarrow> nid \<Rightarrow> nid \<Rightarrow> ('e, AdjacencyStep) tresult" where
  "example_edge i u v = Inr (Edge \<lparr>ae_edge_id = i, ae_source = u, ae_target = v, ae_type_id = 1, ae_local_base = None\<rparr>)"

definition example_outgoing :: "nid \<Rightarrow> ('e, AdjacencyStep) tresult list" where
  "example_outgoing u =
     (if u = 1 then [example_edge 10 1 2, example_edge 11 1 3]
      else if u = 2 then [example_edge 12 2 4, example_edge 15 2 2]
      else if u = 3 then [Inr Checkpoint, example_edge 13 3 4]
      else if u = 4 then [example_edge 14 4 1] else [])"

definition example_traversal :: "nat \<Rightarrow> (nat, unit) MutableTraversal" where
  "example_traversal depth =
     \<lparr>t_json = nat_ext,
      t_graph = \<lparr>tg_outgoing = (\<lambda>_ u. Inr (example_outgoing u)), tg_incoming = (\<lambda>_ _. Inr []), tg_edge_visible = (\<lambda>_. True),
                 tg_edge_properties = (\<lambda>_. Inr None), tg_cursor_memory_bytes = 0, tg_property_memory_bytes = (\<lambda>_. 0),
                 tg_local_reference_superseded = (\<lambda>_ _. False)\<rparr>,
      t_access = None, t_anchors = [1], t_visible_anchor_count = 1, t_selected_types = None, t_direction = Outgoing,
      t_node_filter = None, t_statement_filter = None, t_edge_filter = None, t_budget = budget_default\<lparr>max_depth := depth\<rparr>,
      t_cancelled = (\<lambda>_. False), t_elapsed = (\<lambda>_. 0), t_payload_for_nid = (\<lambda>_. Inr (Some JNull)),
      t_namespaces_for_payload = (\<lambda>_. [AdminCrossTenant])\<rparr>"

lemma example_fields [simp]:
  "tg_outgoing (t_graph (example_traversal d)) ns u = Inr (example_outgoing u)"
  "tg_edge_visible (t_graph (example_traversal d)) i" "tg_cursor_memory_bytes (t_graph (example_traversal d)) = 0"
  "t_access (example_traversal d) = None" "t_anchors (example_traversal d) = [1]" "t_visible_anchor_count (example_traversal d) = 1"
  "t_selected_types (example_traversal d) = None" "t_direction (example_traversal d) = Outgoing"
  "t_node_filter (example_traversal d) = None" "t_statement_filter (example_traversal d) = None"
  "t_edge_filter (example_traversal d) = None" "\<not> t_cancelled (example_traversal d) k" "t_elapsed (example_traversal d) k = 0"
  "t_payload_for_nid (example_traversal d) v = Inr (Some JNull)" "t_namespaces_for_payload (example_traversal d) p = [AdminCrossTenant]"
  "max_depth (t_budget (example_traversal d)) = d" "max_frontier (t_budget (example_traversal d)) = 1000000"
  "max_visited (t_budget (example_traversal d)) = 10000000" "max_edges (t_budget (example_traversal d)) = 100000000"
  "max_time_ms (t_budget (example_traversal d)) = 5000" "max_memory_bytes (t_budget (example_traversal d)) = 536870912"
  by (simp_all add: example_traversal_def budget_default_def)

lemma example_rows [simp]:
  "example_outgoing 1 = [example_edge 10 1 2, example_edge 11 1 3]"
  "example_outgoing 2 = [example_edge 12 2 4, example_edge 15 2 2]"
  "example_outgoing 3 = [Inr Checkpoint, example_edge 13 3 4]"
  "example_outgoing 4 = [example_edge 14 4 1]"
  by (simp_all add: example_outgoing_def)

lemmas traversal_eval = access_check_def poll_cancelled_def Let_def
  stats_default_def bindE_def saturating_add_def saturating_mul_def
  close_level_def boundary_reason_def polls_def poll_time_def bfs_expand_def expand_node_def scan_namespace_def access_visible_def
  example_edge_def examine_def check_edge_def check_node_def matches_node_def node_filters_match_def none_or_def
  bfs_reached_def edge_visit_def record_resolution_def level_visits_def execution_def EDGE_CHECK_INTERVAL_def NODE_STATE_BYTES_def
  FRONTIER_NODE_BYTES_def VISIT_BYTES_def CAPTURED_EDGE_BYTES_def estimated_memory_def

lemma example_bfs:
  "\<exists>x. exact_bfs_internal (example_traversal (Suc 0)) True = Inr x
     \<and> visits (x_result x) = [\<lparr>visit_nid = 2, visit_depth = 1\<rparr>, \<lparr>visit_nid = 3, visit_depth = 1\<rparr>]
     \<and> map ev_edge_id (x_edges x) = [10, 11]
     \<and> truncation (x_result x) = None"
  by (simp add: exact_bfs_internal_def initial_work_def initial_stats_def bfs_levels.simps(2) traversal_eval)

section \<open>Properties of the search\<close>

text \<open>
  C8. A breadth-first search reports each node with its exact distance from the anchors, counted in
  edges that pass every predicate and lead through nodes that do, ordered by distance and node id
  and without duplicates. It reports no node beyond the depth of the budget; it reports all nodes
  of the hops it completed, whatever truncated it; and when it was not truncated it reports every
  node within the depth. At depth zero it reports the anchors that pass the node predicates.
\<close>

theorem bfs_exact:
  assumes "exact_bfs_internal t capture_edges = Inr x"
  shows "(max_depth (t_budget t) \<ge> 1 \<longrightarrow>
       set (visits (x_result x)) \<subseteq> visits_upto t (set (t_anchors t)) (max_depth (t_budget t))
     \<and> visits_upto t (set (t_anchors t)) (hops_completed (stats (x_result x))) \<subseteq> set (visits (x_result x))
     \<and> (truncation (x_result x) = None \<longrightarrow>
          set (visits (x_result x)) = visits_upto t (set (t_anchors t)) (max_depth (t_budget t)))
     \<and> sorted_wrt visit_less (visits (x_result x)))
   \<and> (max_depth (t_budget t) = 0 \<and> truncation (x_result x) = None \<longrightarrow>
       visits (x_result x) = level_visits 0 (filter (node_passes t) (remdups_adj (sort (t_anchors t)))))"
  using exact_bfs_internal_outcome [of t capture_edges] assms
  by (auto simp: bfs_outcome_def bfs_result_def visits_upto_def split: if_splits)

theorem bfs_exact_witness:
  "\<exists>x. exact_bfs_internal (example_traversal (Suc 0)) True = Inr x \<and> visits (x_result x) \<noteq> []
     \<and> set (visits (x_result x)) = visits_upto (example_traversal (Suc 0)) {1} 1"
proof -
  from example_bfs obtain x where x: "exact_bfs_internal (example_traversal (Suc 0)) True = Inr x"
    "visits (x_result x) \<noteq> []" "truncation (x_result x) = None" by auto
  from bfs_exact [OF x(1)] x show ?thesis by auto
qed





end
