(* ===== verification/Graph_Paths.thy ===== *)
theory Graph_Paths
  imports Graph_Search
begin

text \<open>
  Correctness of the enumeration of simple paths of \<open>Graph_Traversal\<close>, against \<open>simple_path\<close>: a list
  of distinct nodes that starts at an anchor and is joined by hops.
\<close>

section \<open>Simple paths: specification\<close>

definition simple_path :: "('n, 'e) MutableTraversal \<Rightarrow> nid set \<Rightarrow> TraversalPathVisit \<Rightarrow> bool" where
  "simple_path t A p \<longleftrightarrow>
     length (pv_nodes p) = Suc (length (pv_edges p)) \<and> hd (pv_nodes p) \<in> A \<and> distinct (pv_nodes p)
   \<and> (\<forall>i < length (pv_edges p). \<exists>e. hop t (pv_nodes p ! i) e (pv_nodes p ! Suc i) \<and> pv_edges p ! i = edge_visit e)"

definition extends :: "('n, 'e) MutableTraversal \<Rightarrow> TraversalPathVisit \<Rightarrow> TraversalPathVisit \<Rightarrow> bool" where
  "extends t p q \<longleftrightarrow> (\<exists>e v. hop t (last (pv_nodes p)) e v \<and> v \<notin> set (pv_nodes p)
     \<and> q = \<lparr>pv_nodes = pv_nodes p @ [v], pv_edges = pv_edges p @ [edge_visit e]\<rparr>)"

definition paths_of :: "('n, 'e) MutableTraversal \<Rightarrow> nid set \<Rightarrow> nat \<Rightarrow> TraversalPathVisit set" where
  "paths_of t A n = {p. simple_path t A p \<and> length (pv_edges p) = n}"

lemma paths_of_0: "paths_of t A 0 = anchor_path ` A"
proof (intro set_eqI iffI)
  fix p assume "p \<in> paths_of t A 0"
  then have "length (pv_nodes p) = 1" "hd (pv_nodes p) \<in> A" "pv_edges p = []" by (auto simp: paths_of_def simple_path_def)
  then have "p = anchor_path (hd (pv_nodes p))" by (cases p; cases "pv_nodes p") (auto simp: anchor_path_def)
  then show "p \<in> anchor_path ` A" using \<open>hd (pv_nodes p) \<in> A\<close> by blast
qed (auto simp: paths_of_def simple_path_def anchor_path_def)

lemma simple_path_extend:
  assumes "length ns = Suc (length es)"
  shows "simple_path t A \<lparr>pv_nodes = ns @ [v], pv_edges = es @ [x]\<rparr> \<longleftrightarrow>
     simple_path t A \<lparr>pv_nodes = ns, pv_edges = es\<rparr> \<and> v \<notin> set ns \<and> (\<exists>e. hop t (last ns) e v \<and> x = edge_visit e)"
proof -
  have l: "last ns = ns ! length es" using assms by (cases ns rule: rev_cases) (auto simp: nth_append)
  have h: "hd (ns @ [v]) = hd ns" using assms by (cases ns) auto
  let ?Q = "\<lambda>ns es i. \<exists>e. hop t (ns ! i) e (ns ! Suc i) \<and> es ! i = edge_visit e"
  have split: "(\<forall>i < Suc n. P i) \<longleftrightarrow> P n \<and> (\<forall>i < n. P i)" for n and P :: "nat \<Rightarrow> bool" by (auto simp: less_Suc_eq)
  have old: "(\<forall>i < length es. ?Q (ns @ [v]) (es @ [x]) i) \<longleftrightarrow> (\<forall>i < length es. ?Q ns es i)"
    by (rule all_cong) (use assms in \<open>simp add: nth_append\<close>)
  have new: "?Q (ns @ [v]) (es @ [x]) (length es) \<longleftrightarrow> (\<exists>e. hop t (last ns) e v \<and> x = edge_visit e)"
    using assms by (simp add: nth_append l)
  show ?thesis using assms unfolding simple_path_def TraversalPathVisit.simps length_append_singleton split old new h by auto
qed

lemma paths_of_Suc: "paths_of t A (Suc n) = {q. \<exists>p \<in> paths_of t A n. extends t p q}"
proof (intro set_eqI iffI)
  fix q assume q: "q \<in> paths_of t A (Suc n)"
  then have len: "length (pv_nodes q) = Suc (Suc n)" "length (pv_edges q) = Suc n" by (auto simp: paths_of_def simple_path_def)
  obtain ns v where ns: "pv_nodes q = ns @ [v]" using len(1) by (cases "pv_nodes q" rule: rev_cases) auto
  obtain es x where es: "pv_edges q = es @ [x]" using len(2) by (cases "pv_edges q" rule: rev_cases) auto
  have q': "q = \<lparr>pv_nodes = ns @ [v], pv_edges = es @ [x]\<rparr>" using ns es by simp
  have l: "length ns = Suc (length es)" "length es = n" using len ns es by simp_all
  have "simple_path t A \<lparr>pv_nodes = ns @ [v], pv_edges = es @ [x]\<rparr>" using q by (simp add: paths_of_def q')
  then have p: "simple_path t A \<lparr>pv_nodes = ns, pv_edges = es\<rparr>" "v \<notin> set ns" "\<exists>e. hop t (last ns) e v \<and> x = edge_visit e"
    unfolding simple_path_extend [OF l(1)] by blast+
  have "\<lparr>pv_nodes = ns, pv_edges = es\<rparr> \<in> paths_of t A n" using p l by (simp add: paths_of_def)
  moreover have "extends t \<lparr>pv_nodes = ns, pv_edges = es\<rparr> q" using p(2,3) by (auto simp: extends_def q')
  ultimately show "q \<in> {q. \<exists>p \<in> paths_of t A n. extends t p q}" by blast
next
  fix q assume "q \<in> {q. \<exists>p \<in> paths_of t A n. extends t p q}"
  then obtain p e v where *: "p \<in> paths_of t A n" "hop t (last (pv_nodes p)) e v" "v \<notin> set (pv_nodes p)"
    "q = \<lparr>pv_nodes = pv_nodes p @ [v], pv_edges = pv_edges p @ [edge_visit e]\<rparr>" by (auto simp: extends_def)
  have l: "length (pv_nodes p) = Suc (length (pv_edges p))" "length (pv_edges p) = n"
    using *(1) by (simp_all add: paths_of_def simple_path_def)
  have s: "simple_path t A \<lparr>pv_nodes = pv_nodes p, pv_edges = pv_edges p\<rparr>" using *(1) by (cases p) (simp add: paths_of_def)
  have "simple_path t A q" unfolding *(4) simple_path_extend [OF l(1)] using *(2,3) s by auto
  then show "q \<in> paths_of t A (Suc n)" using l(2) *(4) by (simp add: paths_of_def)
qed

section \<open>Simple paths: one level\<close>

definition path_grown :: "path_work \<Rightarrow> path_work \<Rightarrow> bool" where
  "path_grown s s' \<longleftrightarrow> set (next_paths s) \<subseteq> set (next_paths s')"

interpretation path: growing path_grown
  by unfold_locales (auto simp: path_grown_def)

definition path_inv :: "('n, 'e) MutableTraversal \<Rightarrow> TraversalPathVisit list \<Rightarrow> nat \<Rightarrow> nat \<Rightarrow> path_work \<Rightarrow> bool" where
  "path_inv t frontier n h s \<longleftrightarrow>
     (\<forall>q \<in> set (next_paths s). \<exists>p \<in> set frontier. extends t p q)
   \<and> nodes_visited (w_stats s) = n + length (next_paths s) \<and> nodes_visited (w_stats s) \<le> max_visited (t_budget t)
   \<and> internal_edges s \<le> max_edges (t_budget t) \<and> hops_completed (w_stats s) = h"

lemma path_inv_keep: "keep t s s' \<Longrightarrow> path_inv t frontier n h s \<Longrightarrow> path_inv t frontier n h s' \<and> path_grown s s'"
  by (elim keepE) (simp add: path_inv_def path_grown_def)

definition path_seen :: "TraversalPathVisit \<Rightarrow> AdjacencyEdge \<Rightarrow> nid \<Rightarrow> path_work \<Rightarrow> bool" where
  "path_seen p e v s \<longleftrightarrow> v \<in> set (pv_nodes p)
     \<or> \<lparr>pv_nodes = pv_nodes p @ [v], pv_edges = pv_edges p @ [edge_visit e]\<rparr> \<in> set (next_paths s)"

lemma path_seen_grown: "path_seen p e v s \<Longrightarrow> path_grown s s' \<Longrightarrow> path_seen p e v s'"
  by (auto simp: path_seen_def path_grown_def)

lemma wpF_path_reached:
  assumes inv: "path_inv t frontier n h s" and hop: "p \<in> set frontier" "hop t (last (pv_nodes p)) e v"
  shows "wpF F (\<lambda>r s'. path_inv t frontier n h s' \<and> r \<noteq> Limit)
           (\<lambda>s'. path_inv t frontier n h s' \<and> path_grown s s' \<and> path_seen p e v s')
           (path_reached t cm fr ps p e v s)"
proof -
  let ?q = "\<lparr>pv_nodes = pv_nodes p @ [v], pv_edges = pv_edges p @ [edge_visit e]\<rparr>"
  have ext: "v \<notin> set (pv_nodes p) \<Longrightarrow> extends t p ?q" using hop(2) by (auto simp: extends_def)
  then show ?thesis using inv hop(1)
    by (auto simp: path_reached_def Let_def path_inv_def path_grown_def path_seen_def not_le)
qed

lemma wpF_path_step:
  assumes "offered t (last (pv_nodes p)) x" "p \<in> set frontier" "path_inv t frontier n h s"
  shows "wpF (fault t) (\<lambda>r s'. path_inv t frontier n h s' \<and> r \<noteq> Limit)
           (\<lambda>s'. path_inv t frontier n h s' \<and> path_grown s s' \<and> (\<forall>e v. step_passes t (last (pv_nodes p)) x e v \<longrightarrow> path_seen p e v s'))
           (examine t mem cm (last (pv_nodes p)) (path_reached t cm fr ps p) x s)"
proof (rule wpF_examine)
  fix e v s' assume k: "keep t s s'" and st: "step_passes t (last (pv_nodes p)) x e v"
  note k' = path_inv_keep [OF k assms(3)]
  have only: "e' = e \<and> v' = v" if "step_passes t (last (pv_nodes p)) x e' v'" for e' v'
    using st that by (auto simp: step_passes_def split: if_splits)
  have "wpF (fault t) (\<lambda>r s'. path_inv t frontier n h s' \<and> r \<noteq> Limit)
     (\<lambda>s2. path_inv t frontier n h s2 \<and> path_grown s' s2 \<and> path_seen p e v s2) (path_reached t cm fr ps p e v s')"
    using k' by (intro wpF_path_reached assms(2) hop_of_step [OF assms(1) st]) simp
  then show "wpF (fault t) (\<lambda>r s'. path_inv t frontier n h s' \<and> r \<noteq> Limit)
     (\<lambda>s'. path_inv t frontier n h s' \<and> path_grown s s' \<and> (\<forall>e v. step_passes t (last (pv_nodes p)) x e v \<longrightarrow> path_seen p e v s'))
     (path_reached t cm fr ps p e v s')"
    by (rule wpF_mono) (use only k' path.grown_trans in blast)+
next
  fix e assume "fault t e \<or> fst x = Inl e"
  then show "fault t e" using assms(1) fault_step unfolding offered_def by blast
qed (use path_inv_keep [OF _ assms(3)] in blast)+

lemma wpF_path_expand:
  assumes inv: "path_inv t frontier n h s" and ne: "\<forall>p \<in> set frontier. pv_nodes p \<noteq> []"
  shows "wpF (fault t) (\<lambda>r s'. path_inv t frontier n h s' \<and> r \<noteq> Limit)
           (\<lambda>s'. path_inv t frontier n h s' \<and> (\<forall>p \<in> set frontier. \<forall>q. extends t p q \<longrightarrow> q \<in> set (next_paths s')))
           (path_expand t cm frontier ps s)"
proof -
  let ?I = "path_inv t frontier n h"
  let ?D = "\<lambda>p x s. \<forall>e v. step_passes t (last (pv_nodes p)) x e v \<longrightarrow> path_seen p e v s"
  have "wpF (fault t) (\<lambda>r s'. ?I s' \<and> r \<noteq> Limit)
     (\<lambda>s'. ?I s' \<and> path_grown s s' \<and> (\<forall>p \<in> set frontier. \<forall>x. offered t (last (pv_nodes p)) x \<longrightarrow> ?D p x s'))
    (path_expand t cm frontier ps s)"
    unfolding path_expand_def
  proof (rule path.each_done [where I = ?I and D = "\<lambda>p s. \<forall>x. offered t (last (pv_nodes p)) x \<longrightarrow> ?D p x s"])
    fix p s assume p: "p \<in> set frontier" and s: "?I s"
    let ?body = "examine t (\<lambda>s. estimated_path_memory frontier (next_paths s) ps) cm (last (pv_nodes p)) (path_reached t cm frontier ps p)"
    show "wpF (fault t) (\<lambda>r s'. ?I s' \<and> r \<noteq> Limit)
       (\<lambda>s'. ?I s' \<and> path_grown s s' \<and> (\<forall>x. offered t (last (pv_nodes p)) x \<longrightarrow> ?D p x s')) (expand_node t (last (pv_nodes p)) ?body s)"
    proof (rule path.expand_node_done [where I = ?I and D = "?D p"])
      fix x s assume "offered t (last (pv_nodes p)) x" "?I s"
      then show "wpF (fault t) (\<lambda>r s'. ?I s' \<and> r \<noteq> Limit) (\<lambda>s'. ?I s' \<and> path_grown s s' \<and> ?D p x s') (?body x s)"
        using p by (intro wpF_path_step)
    qed (use s path_seen_grown in blast)+
  qed (use inv path_seen_grown in blast)+
  then show ?thesis
  proof (rule wpF_mono)
    fix s' assume *: "?I s' \<and> path_grown s s' \<and> (\<forall>p \<in> set frontier. \<forall>x. offered t (last (pv_nodes p)) x \<longrightarrow> ?D p x s')"
    have "q \<in> set (next_paths s')" if p: "p \<in> set frontier" "extends t p q" for p q
    proof -
      from p(2) obtain e v where e: "hop t (last (pv_nodes p)) e v" "v \<notin> set (pv_nodes p)"
        "q = \<lparr>pv_nodes = pv_nodes p @ [v], pv_edges = pv_edges p @ [edge_visit e]\<rparr>" by (auto simp: extends_def)
      have "last (pv_nodes p) \<noteq> v" using e(2) ne p(1) by auto
      from step_of_hop [OF e(1) this] * p(1) have "path_seen p e v s'" by blast
      then show ?thesis using e(2,3) by (simp add: path_seen_def)
    qed
    then show "?I s' \<and> (\<forall>p \<in> set frontier. \<forall>q. extends t p q \<longrightarrow> q \<in> set (next_paths s'))" using * by blast
  qed simp_all
qed

section \<open>Simple paths: all levels\<close>

definition path_le :: "TraversalPathVisit \<Rightarrow> TraversalPathVisit \<Rightarrow> bool" where
  "path_le p q \<longleftrightarrow> length (pv_edges p) < length (pv_edges q)
     \<or> length (pv_edges p) = length (pv_edges q) \<and> path_key p \<le> path_key q"

definition paths_upto :: "('n, 'e) MutableTraversal \<Rightarrow> nid set \<Rightarrow> nat \<Rightarrow> TraversalPathVisit set" where
  "paths_upto t A k = {p. simple_path t A p \<and> 1 \<le> length (pv_edges p) \<and> length (pv_edges p) \<le> k}"

lemma paths_upto_Suc: "paths_upto t A (Suc k) = paths_upto t A k \<union> paths_of t A (Suc k)"
  by (auto simp: paths_upto_def paths_of_def le_Suc_eq)

lemma paths_upto_mono: "k \<le> m \<Longrightarrow> paths_upto t A k \<subseteq> paths_upto t A m"
  by (auto simp: paths_upto_def)

lemma paths_of_empty: "paths_of t A n = {} \<Longrightarrow> n \<le> m \<Longrightarrow> paths_of t A m = {}"
proof (induction m)
  case (Suc m)
  then show ?case by (cases "n = Suc m") (simp_all add: paths_of_Suc)
qed simp

lemma sorted_paths:
  assumes "sorted_wrt path_le ps" "\<forall>p \<in> set ps. length (pv_edges p) < d" "\<forall>q \<in> set qs. length (pv_edges q) = d"
  shows "sorted_wrt path_le (ps @ sort_key path_key qs)"
proof -
  have "sorted_wrt (\<lambda>p q. path_key p \<le> path_key q) (sort_key path_key qs)"
    using sorted_sort_key [of path_key qs] by (simp add: sorted_map)
  then have "sorted_wrt path_le (sort_key path_key qs)"
    by (rule sorted_wrt_mono_rel [rotated]) (use assms(3) in \<open>auto simp: path_le_def\<close>)
  then show ?thesis using assms by (auto simp: sorted_wrt_append path_le_def)
qed

text \<open>Cutting a sorted list off keeps everything that sorts before what it keeps.\<close>

lemma sorted_take:
  assumes "sorted_wrt R xs" "p \<in> set (take n xs)" "q \<in> set xs" "\<not> R p q"
  shows "q \<in> set (take n xs)"
proof (rule ccontr)
  assume "q \<notin> set (take n xs)"
  moreover have "set xs = set (take n xs) \<union> set (drop n xs)" by (metis append_take_drop_id set_append)
  ultimately have "q \<in> set (drop n xs)" using assms(3) by blast
  moreover have "\<forall>x \<in> set (take n xs). \<forall>y \<in> set (drop n xs). R x y"
    using assms(1) sorted_wrt_append [of R "take n xs" "drop n xs"] by simp
  ultimately show False using assms(2,4) by blast
qed

definition path_at :: "('n, 'e) MutableTraversal \<Rightarrow> nid set \<Rightarrow> nat \<Rightarrow> nat \<Rightarrow> TraversalPathVisit list \<Rightarrow> TraversalPathVisit list \<Rightarrow> path_work \<Rightarrow> bool" where
  "path_at t A limit k frontier ps s \<longleftrightarrow>
     set frontier = paths_of t A k \<and> set ps = paths_upto t A k \<and> sorted_wrt path_le ps \<and> length ps \<le> limit
   \<and> hops_completed (w_stats s) = k \<and> nodes_visited (w_stats s) = t_visible_anchor_count t + length ps
   \<and> nodes_visited (w_stats s) \<le> max_visited (t_budget t) \<and> internal_edges s \<le> max_edges (t_budget t)"

definition path_result :: "('n, 'e) MutableTraversal \<Rightarrow> nid set \<Rightarrow> nat \<Rightarrow> TraversalPathVisit list \<Rightarrow> TraversalTruncationReason option \<Rightarrow> path_work \<Rightarrow> bool" where
  "path_result t A limit ps r s \<longleftrightarrow>
     set ps \<subseteq> paths_upto t A (max_depth (t_budget t)) \<and> sorted_wrt path_le ps
   \<and> (r = None \<longrightarrow> set ps = paths_upto t A (max_depth (t_budget t)) \<and> length ps \<le> limit)
   \<and> (r = Some Limit \<longrightarrow> length ps = limit
        \<and> (\<forall>p \<in> set ps. \<forall>q \<in> paths_upto t A (max_depth (t_budget t)). \<not> path_le p q \<longrightarrow> q \<in> set ps))
   \<and> t_visible_anchor_count t + length ps \<le> nodes_visited (w_stats s)
   \<and> nodes_visited (w_stats s) \<le> max_visited (t_budget t) \<and> internal_edges s \<le> max_edges (t_budget t)"

lemma path_at_keep: "keep t s s' \<Longrightarrow> path_at t A limit k frontier ps s \<Longrightarrow> path_at t A limit k frontier ps s'"
  by (elim keepE) (simp add: path_at_def)

lemma path_at_inv:
  "path_at t A limit k frontier ps s \<Longrightarrow> path_inv t frontier (nodes_visited (w_stats s)) k (s\<lparr>next_paths := []\<rparr>)"
  by (simp add: path_at_def path_inv_def)

lemma path_at_result:
  assumes "path_at t A limit k frontier ps s" "k \<le> max_depth (t_budget t)"
    "r = None \<Longrightarrow> k = max_depth (t_budget t) \<or> paths_of t A k = {}" "r \<noteq> Some Limit"
  shows "path_result t A limit ps r s"
proof -
  have "set ps = paths_upto t A (max_depth (t_budget t))" if "r = None"
  proof (cases "k = max_depth (t_budget t)")
    case True
    then show ?thesis using assms(1) by (simp add: path_at_def)
  next
    case False
    then have none: "paths_of t A j = {}" if "k \<le> j" for j using assms(3) \<open>r = None\<close> paths_of_empty that by blast
    have "p \<in> paths_upto t A k" if "p \<in> paths_upto t A (max_depth (t_budget t))" for p
      using that none [of "length (pv_edges p)"] by (fastforce simp: paths_upto_def paths_of_def)
    then show ?thesis using assms(1) paths_upto_mono [OF assms(2), of t A] by (auto simp: path_at_def)
  qed
  then show ?thesis using assms(1,4) paths_upto_mono [OF assms(2), of t A] by (auto simp: path_result_def path_at_def)
qed

text \<open>The state when the paths of a level have been extended, in full or up to a truncation.\<close>

lemma path_level_end:
  assumes at: "path_at t A limit k frontier ps s0"
    and inv: "path_inv t frontier (nodes_visited (w_stats s0)) k s"
  defines "ns \<equiv> sort_key path_key (next_paths s)"
  shows "set (next_paths s) \<subseteq> paths_of t A (Suc k)"
    and "set (ps @ ns) \<subseteq> paths_upto t A (Suc k)"
    and "sorted_wrt path_le (ps @ ns)"
    and "nodes_visited (w_stats s) = t_visible_anchor_count t + length (ps @ ns)"
proof -
  show new: "set (next_paths s) \<subseteq> paths_of t A (Suc k)"
    unfolding paths_of_Suc using inv at by (auto simp: path_inv_def path_at_def)
  then show "set (ps @ ns) \<subseteq> paths_upto t A (Suc k)"
    using at by (auto simp: paths_upto_Suc path_at_def ns_def)
  show "sorted_wrt path_le (ps @ ns)"
    unfolding ns_def by (rule sorted_paths [of _ "Suc k"]) (use at new in \<open>auto simp: path_at_def paths_upto_def paths_of_def\<close>)
  show "nodes_visited (w_stats s) = t_visible_anchor_count t + length (ps @ ns)"
    using at inv by (simp add: path_at_def path_inv_def ns_def)
qed

lemma path_stop:
  assumes at: "path_at t A limit k frontier ps s0" and k: "Suc k \<le> max_depth (t_budget t)"
    and inv: "path_inv t frontier (nodes_visited (w_stats s0)) k s" and r: "r \<noteq> Limit"
  shows "path_result t A limit (ps @ sort_key path_key (next_paths s)) (Some r)
     (s\<lparr>w_stats := (w_stats s)\<lparr>max_frontier_size := m\<rparr>\<rparr>)"
  using path_level_end [OF at inv] inv r paths_upto_mono [OF k, of t A]
  by (auto simp: path_result_def path_inv_def)

lemma path_full:
  assumes at: "path_at t A limit k frontier ps s0"
    and inv: "path_inv t frontier (nodes_visited (w_stats s0)) k s"
    and all: "\<forall>p \<in> set frontier. \<forall>q. extends t p q \<longrightarrow> q \<in> set (next_paths s)"
  shows "set (next_paths s) = paths_of t A (Suc k)"
    and "set (ps @ sort_key path_key (next_paths s)) = paths_upto t A (Suc k)"
proof -
  show "set (next_paths s) = paths_of t A (Suc k)"
    using path_level_end(1) [OF at inv] at all unfolding paths_of_Suc by (auto simp: path_at_def)
  then show "set (ps @ sort_key path_key (next_paths s)) = paths_upto t A (Suc k)"
    using at by (auto simp: paths_upto_Suc path_at_def)
qed

lemma path_limit:
  assumes at: "path_at t A limit k frontier ps s0" and k: "Suc k \<le> max_depth (t_budget t)"
    and inv: "path_inv t frontier (nodes_visited (w_stats s0)) k s"
    and all: "\<forall>p \<in> set frontier. \<forall>q. extends t p q \<longrightarrow> q \<in> set (next_paths s)"
    and lim: "length (ps @ sort_key path_key (next_paths s)) > limit"
  shows "path_result t A limit (take limit (ps @ sort_key path_key (next_paths s))) (Some Limit)
     (s\<lparr>w_stats := (w_stats s)\<lparr>max_frontier_size := m, hops_completed := h\<rparr>\<rparr>)"
proof -
  let ?l = "ps @ sort_key path_key (next_paths s)"
  note parts = path_level_end [OF at inv] and full = path_full [OF at inv all]
  have before: "q \<in> set (take limit ?l)" if p: "p \<in> set (take limit ?l)" and q: "q \<in> paths_upto t A (max_depth (t_budget t))" "\<not> path_le p q" for p q
  proof -
    have "p \<in> paths_upto t A (Suc k)" using set_take_subset [of limit ?l] p full(2) by blast
    then have "q \<in> set ?l" using q unfolding full(2) by (auto simp: paths_upto_def path_le_def)
    then show ?thesis by (rule sorted_take [OF parts(3) p _ q(2)])
  qed
  have "set (take limit ?l) \<subseteq> paths_upto t A (max_depth (t_budget t))"
    using set_take_subset [of limit ?l] full(2) paths_upto_mono [OF k, of t A] by blast
  then show ?thesis using before parts(3,4) lim inv
    by (auto simp: path_result_def path_inv_def sorted_wrt_take simp del: take_append set_append)
qed

lemma sort_key_eq_Nil [simp]: "sort_key f xs = [] \<longleftrightarrow> xs = []"
  by (metis length_0_conv length_sort)

lemma path_levels_correct:
  assumes "path_at t A limit k frontier ps s" "k + left = max_depth (t_budget t)" "depth = Suc k"
  shows "case path_levels t cm limit left depth frontier ps s of
           Inl e \<Rightarrow> fault t e | Inr (ps', r, s') \<Rightarrow> path_result t A limit ps' r s'"
  using assms
proof (induction left arbitrary: k depth frontier ps s)
  case 0
  then show ?case by (simp add: path_at_result)
next
  case (Suc left)
  let ?R = "\<lambda>y. case y of Inl e \<Rightarrow> fault t e | Inr (ps', r, s') \<Rightarrow> path_result t A limit ps' r s'"
  let ?b = "bindF (access_check t s) (boundary_reason t (length frontier))"
  have k: "Suc k \<le> max_depth (t_budget t)" using Suc.prems(2) by simp
  have "wpF (fault t) (\<lambda>r s'. path_at t A limit k frontier ps s' \<and> r \<noteq> Limit) (path_at t A limit k frontier ps) ?b"
    by (rule wpF_boundary) (use path_at_keep Suc.prems(1) in blast)+
  then consider e where "?b = Fail e" "fault t e"
    | r s0 where "?b = Halt r s0" "path_at t A limit k frontier ps s0" "r \<noteq> Limit"
    | s0 where "?b = Next s0" "path_at t A limit k frontier ps s0"
    by (cases ?b) auto
  then show ?case
  proof cases
    case 1
    then show ?thesis by (simp add: path_levels.simps(2))
  next
    case 2
    then show ?thesis using k by (auto simp: path_levels.simps(2) intro!: path_at_result)
  next
    case (3 s0)
    note at = 3(2)
    let ?I = "path_inv t frontier (nodes_visited (w_stats s0)) k"
    have ne: "\<forall>p \<in> set frontier. pv_nodes p \<noteq> []" using at by (auto simp: path_at_def paths_of_def simple_path_def)
    note ex = wpF_path_expand [OF path_at_inv [OF at] ne, of cm ps]
    show ?thesis
    proof (cases "path_expand t cm frontier ps (s0\<lparr>next_paths := []\<rparr>)")
      case (Fail e)
      then show ?thesis using 3(1) ex by (simp add: path_levels.simps(2))
    next
      case (Halt r s1)
      then show ?thesis using 3(1) ex path_stop [OF at k, of s1 r] Suc.prems(3)
        by (simp add: path_levels.simps(2) close_paths_def Let_def)
    next
      case (Next s1)
      let ?ns = "sort_key path_key (next_paths s1)"
      let ?s = "s1\<lparr>w_stats := (w_stats s1)\<lparr>max_frontier_size := max (max_frontier_size (w_stats s1)) (length (next_paths s1)), hops_completed := Suc k\<rparr>\<rparr>"
      have inv: "?I s1" and all: "\<forall>p \<in> set frontier. \<forall>q. extends t p q \<longrightarrow> q \<in> set (next_paths s1)"
        using ex Next by simp_all
      note parts = path_level_end [OF at inv] and full = path_full [OF at inv all]
      have at': "path_at t A limit (Suc k) ?ns (ps @ ?ns) ?s" if "length ps + length (next_paths s1) \<le> limit"
        using that parts(3,4) full inv by (simp add: path_at_def path_inv_def)
      have fin: "path_result t A limit (ps @ ?ns) None ?s" if "length ps + length (next_paths s1) \<le> limit" "next_paths s1 = []"
        by (rule path_at_result [OF at' k]) (use full that in simp_all)
      have rec: "?R (path_levels t cm limit left (Suc (Suc k)) ?ns (ps @ ?ns) ?s)" if "length ps + length (next_paths s1) \<le> limit"
        by (rule Suc.IH [OF at' [OF that]]) (use Suc.prems(2) in simp_all)
      show ?thesis using 3(1) Next Suc.prems(3) path_stop [OF at k inv, of Frontier] path_limit [OF at k inv all] fin rec
        by (simp add: path_levels.simps(2) close_paths_def Let_def not_less del: take_append)
    qed
  qed
qed

definition path_outcome :: "('n, 'e) MutableTraversal \<Rightarrow> nat \<Rightarrow> TraversalExecution \<Rightarrow> bool" where
  "path_outcome t limit x \<longleftrightarrow>
     (\<exists>r s. path_result t (set (t_anchors t)) limit (x_paths x) r s \<and> truncation (x_result x) = r
        \<and> x_internal_edges_examined x = internal_edges s \<and> nodes_visited (stats (x_result x)) = nodes_visited (w_stats s))
   \<or> truncation (x_result x) \<in> {Some Visited, Some Memory} \<and> x_paths x = [] \<and> x_internal_edges_examined x = 0"

lemma exact_simple_paths_outcome:
  "case exact_simple_paths t limit of
     Inl e \<Rightarrow> fault t e
   | Inr x \<Rightarrow>
       if max_depth (t_budget t) = 0
       then x_internal_edges_examined x = 0 \<and> (truncation (x_result x) \<in> {None, Some Limit}
             \<and> x_paths x = take limit (map anchor_path (filter (node_passes t) (remdups_adj (sort (t_anchors t)))))
           \<or> truncation (x_result x) \<in> {Some Visited, Some Memory} \<and> x_paths x = [])
       else path_outcome t limit x"
proof -
  let ?A = "remdups_adj (sort (t_anchors t))"
  let ?s0 = "\<lparr>tick = 0, w_stats = initial_stats t, internal_edges = 0, next_paths = []\<rparr>"
  let ?init = "bindF (access_check t ?s0) (poll_cancelled t)"
  have "wpF (fault t) (\<lambda>_ _. False) (keep t ?s0) ?init" by (rule wpF_start) simp
  then consider e where "?init = Fail e" "fault t e" | s where "?init = Next s" "keep t ?s0 s"
    by (cases ?init) auto
  then show ?thesis
  proof cases
    case 1
    then show ?thesis by (simp add: exact_simple_paths_def)
  next
    case (2 s)
    show ?thesis
    proof (cases "t_visible_anchor_count t > max_visited (t_budget t)")
      case True
      then show ?thesis using 2(1) by (simp add: exact_simple_paths_def execution_def truncated_def path_outcome_def)
    next
      case False
      show ?thesis
      proof (cases "max_depth (t_budget t) = 0")
        case True
        then show ?thesis using 2(1) False matching_anchors_correct [of t ?A]
          by (auto simp: exact_simple_paths_def execution_def truncated_def bindE_def Let_def truncate_paths_to_limit_def split: sum.splits)
      next
        case deep: False
        have at: "path_at t (set (t_anchors t)) limit 0 (map anchor_path ?A) [] s"
          using 2(2) False by (elim keepE) (auto simp: path_at_def paths_of_0 paths_upto_def)
        have "case path_levels t cm limit (max_depth (t_budget t)) 1 (map anchor_path ?A) [] s of
             Inl e \<Rightarrow> fault t e | Inr (ps', r, s') \<Rightarrow> path_result t (set (t_anchors t)) limit ps' r s'" for cm
          by (rule path_levels_correct [OF at]) simp_all
        from this [of "tg_cursor_memory_bytes (t_graph t)"] show ?thesis using 2(1) False deep
          by (auto simp: exact_simple_paths_def execution_def truncated_def bindE_def Let_def path_outcome_def split: sum.splits)
      qed
    qed
  qed
qed

text \<open>
  C22. A traversal fails only with an error that one of its providers returned, with the cancellation
  error when it was cancelled, or over a visible edge without properties when edges are filtered;
  in every other case it returns a result. A query without authority that is cancelled from the
  start gets the cancellation error.
\<close>

theorem traversal_errors:
  "(exact_bfs_internal t capture_edges = Inl e \<longrightarrow> fault t e) \<and> (exact_simple_paths t limit = Inl e \<longrightarrow> fault t e)
   \<and> (t_access t = None \<and> (\<forall>k. t_cancelled t k) \<longrightarrow>
       exact_bfs_internal t capture_edges = Inl cancelled_error \<and> exact_simple_paths t limit = Inl cancelled_error)"
  using exact_bfs_internal_outcome [of t capture_edges] exact_simple_paths_outcome [of t limit]
  by (auto simp: exact_bfs_internal_def exact_simple_paths_def access_check_def poll_cancelled_def split: sum.splits)

theorem traversal_errors_witness:
  "let t = (example_traversal 2)\<lparr>t_cancelled := \<lambda>_. True\<rparr> in
   exact_bfs_internal t True = Inl cancelled_error \<and> exact_simple_paths t 5 = Inl cancelled_error \<and> fault t cancelled_error"
  using traversal_errors [of "(example_traversal 2)\<lparr>t_cancelled := \<lambda>_. True\<rparr>" True cancelled_error 5]
  by (simp add: Let_def)

text \<open>
  C9. The enumerated paths are simple paths from an anchor over edges that pass every predicate,
  ordered by length, then nodes, then edge ids, and no longer than the depth of the budget. When
  nothing was truncated they are all such paths; when the limit was reached they are exactly
  \<open>limit\<close> many and every path that sorts before one of them is among them. At depth zero they are
  the anchors that pass the node predicates.
\<close>

theorem simple_paths_exact:
  assumes "exact_simple_paths t limit = Inr x"
  shows "(max_depth (t_budget t) \<ge> 1 \<longrightarrow>
       set (x_paths x) \<subseteq> paths_upto t (set (t_anchors t)) (max_depth (t_budget t)) \<and> sorted_wrt path_le (x_paths x)
     \<and> (truncation (x_result x) = None \<longrightarrow>
          set (x_paths x) = paths_upto t (set (t_anchors t)) (max_depth (t_budget t)) \<and> length (x_paths x) \<le> limit)
     \<and> (truncation (x_result x) = Some Limit \<longrightarrow> length (x_paths x) = limit
          \<and> (\<forall>p \<in> set (x_paths x). \<forall>q \<in> paths_upto t (set (t_anchors t)) (max_depth (t_budget t)).
               \<not> path_le p q \<longrightarrow> q \<in> set (x_paths x))))
   \<and> (max_depth (t_budget t) = 0 \<and> truncation (x_result x) \<in> {None, Some Limit} \<longrightarrow>
       x_paths x = take limit (map anchor_path (filter (node_passes t) (remdups_adj (sort (t_anchors t))))))"
  using exact_simple_paths_outcome [of t limit] assms
  by (auto simp: path_outcome_def path_result_def split: if_splits)

lemma example_paths:
  "\<exists>x. exact_simple_paths ((example_traversal (Suc 0))\<lparr>t_anchors := [3]\<rparr>) 5 = Inr x
     \<and> map pv_nodes (x_paths x) = [[3, 4]] \<and> truncation (x_result x) = None"
proof -
  let ?t = "(example_traversal (Suc 0))\<lparr>t_anchors := [3]\<rparr>"
  let ?p = "\<lparr>pv_nodes = [3, 4], pv_edges = [\<lparr>ev_edge_id = 13, ev_source = 3, ev_target = 4, ev_type_id = 1\<rparr>]\<rparr>"
  have memory: "path_slice_memory [anchor_path 3] = 56" "path_slice_memory [?p] = 128" "path_slice_memory [] = 0"
    by (simp_all add: path_slice_memory_def anchor_path_def NID_BYTES_def CAPTURED_EDGE_BYTES_def saturating_add_def saturating_mul_def)
  have ex: "\<exists>s'. path_expand ?t 0 [anchor_path 3] [] s = Next s' \<and> next_paths s' = [?p]"
    if "next_paths s = []" "internal_edges s = 0" "nodes_visited (w_stats s) = 1" for s
    using that memory
    apply (simp add: path_expand_def expand_node_def scan_namespace_def access_visible_def estimated_path_memory_def)
    apply (simp add: anchor_path_def examine_def access_check_def polls_def poll_cancelled_def poll_time_def)
    apply (simp add: example_edge_def check_edge_def EDGE_CHECK_INTERVAL_def)
    apply (simp add: check_node_def matches_node_def node_filters_match_def none_or_def access_visible_def Let_def)
    apply (simp add: path_reached_def record_resolution_def Let_def estimated_path_memory_def edge_visit_def saturating_add_def)
    done
  define s where "s = \<lparr>tick = Suc (Suc (Suc 0)), w_stats = initial_stats ?t, internal_edges = 0, next_paths = []\<rparr>"
  have "next_paths s = []" "internal_edges s = 0" "nodes_visited (w_stats s) = 1" "s\<lparr>next_paths := []\<rparr> = s"
    by (simp_all add: s_def initial_stats_def)
  with ex [of s] obtain s' where s': "path_expand ?t 0 [anchor_path 3] [] s = Next s'" "next_paths s' = [?p]" by auto
  have "path_levels ?t 0 5 (Suc 0) 1 [anchor_path 3] [] (s\<lparr>tick := Suc 0\<rparr>) = Inr ([?p], None, snd (snd (snd (close_paths ?t 5 1 [] None s'))))"
    using s' by (simp add: path_levels.simps(2) access_check_def boundary_reason_def polls_def poll_cancelled_def poll_time_def
        close_paths_def Let_def s_def)
  then show ?thesis using memory
    by (simp add: exact_simple_paths_def access_check_def poll_cancelled_def bindE_def estimated_path_memory_def saturating_add_def
        execution_def s_def initial_stats_def Let_def)
qed

theorem simple_paths_exact_witness:
  "\<exists>x. exact_simple_paths ((example_traversal (Suc 0))\<lparr>t_anchors := [3]\<rparr>) 5 = Inr x \<and> map pv_nodes (x_paths x) = [[3, 4]]
     \<and> set (x_paths x) = paths_upto ((example_traversal (Suc 0))\<lparr>t_anchors := [3]\<rparr>) {3} 1"
proof -
  from example_paths obtain x where x: "exact_simple_paths ((example_traversal (Suc 0))\<lparr>t_anchors := [3]\<rparr>) 5 = Inr x"
    "map pv_nodes (x_paths x) = [[3, 4]]" "truncation (x_result x) = None" by auto
  from simple_paths_exact [OF x(1)] x show ?thesis by auto
qed

end
