(* ===== verification/Tenant_Scope.thy ===== *)
theory Tenant_Scope
  imports Json_Filter
begin

text \<open>
  Row-level tenant isolation, after \<open>chirondb-core/src/tenant.rs\<close>: who is asking, how a filter is
  narrowed, how a payload is stamped, and which existing points may be replaced or deleted. The scoped
  entry points of \<open>chirondb-core/src/db.rs\<close> are modelled by what they do to the payloads of the live
  points of a collection; a request that the engine rejects for another reason changes nothing.

  A function that may write an audit event returns the events beside its result. The time of an event
  is not modelled.
\<close>

definition TENANT_FIELD :: ustr where "TENANT_FIELD = str ''tenant_id''"

datatype TenantEnforcement = Disabled | DryRun | Enforced

fun blocks :: "TenantEnforcement \<Rightarrow> bool" where
  "blocks Enforced = True"
| "blocks _ = False"

fun active :: "TenantEnforcement \<Rightarrow> bool" where
  "active Disabled = False"
| "active _ = True"

datatype TenantCapability = CrossRead | CrossWrite

definition tenant_capability_as_str :: "TenantCapability \<Rightarrow> ustr" where
  "tenant_capability_as_str c =
     (case c of CrossRead \<Rightarrow> str ''tenant:cross_read'' | CrossWrite \<Rightarrow> str ''tenant:cross_write'')"

definition tenant_capability_parse :: "ustr \<Rightarrow> TenantCapability option" where
  "tenant_capability_parse v =
     (if v = str ''tenant:cross_read'' then Some CrossRead
      else if v = str ''tenant:cross_write'' then Some CrossWrite else None)"

record TenantScope =
  tenant_id :: "ustr option"
  cross_read :: bool
  cross_write :: bool
  graph_read :: bool
  graph_write :: bool
  graph_admin :: bool
  graph_type_configure :: bool
  actor :: ustr
  system :: bool

definition scope_tenant :: "ustr \<Rightarrow> ustr \<Rightarrow> TenantScope" where
  "scope_tenant who tenant =
     \<lparr>tenant_id = Some tenant, cross_read = False, cross_write = False, graph_read = False, graph_write = False,
      graph_admin = False, graph_type_configure = False, actor = who, system = False\<rparr>"

definition scope_untenanted :: "ustr \<Rightarrow> TenantScope" where
  "scope_untenanted who =
     \<lparr>tenant_id = None, cross_read = False, cross_write = False, graph_read = False, graph_write = False,
      graph_admin = False, graph_type_configure = False, actor = who, system = False\<rparr>"

definition scope_system :: TenantScope where
  "scope_system =
     \<lparr>tenant_id = None, cross_read = True, cross_write = True, graph_read = True, graph_write = True,
      graph_admin = True, graph_type_configure = True, actor = str ''system'', system = True\<rparr>"

definition with_capability :: "TenantScope \<Rightarrow> TenantCapability \<Rightarrow> TenantScope" where
  "with_capability s c = (case c of CrossRead \<Rightarrow> s\<lparr>cross_read := True\<rparr> | CrossWrite \<Rightarrow> s\<lparr>cross_write := True\<rparr>)"

definition with_capabilities :: "TenantScope \<Rightarrow> TenantCapability list \<Rightarrow> TenantScope" where
  "with_capabilities s cs = fold (\<lambda>c s. with_capability s c) cs s"

definition with_graph_capability :: "TenantScope \<Rightarrow> GraphCapability \<Rightarrow> TenantScope" where
  "with_graph_capability s c =
     (case c of Cap_Read \<Rightarrow> s\<lparr>graph_read := True\<rparr> | Cap_Write \<Rightarrow> s\<lparr>graph_write := True\<rparr>
      | Cap_Admin \<Rightarrow> s\<lparr>graph_admin := True\<rparr> | Cap_TypeConfigure \<Rightarrow> s\<lparr>graph_type_configure := True\<rparr>)"

definition with_graph_capabilities :: "TenantScope \<Rightarrow> GraphCapability list \<Rightarrow> TenantScope" where
  "with_graph_capabilities s cs = fold (\<lambda>c s. with_graph_capability s c) cs s"

definition has_graph_capability :: "TenantScope \<Rightarrow> GraphCapability \<Rightarrow> bool" where
  "has_graph_capability s c =
     (case c of Cap_Read \<Rightarrow> graph_read s | Cap_Write \<Rightarrow> graph_write s | Cap_Admin \<Rightarrow> graph_admin s
      | Cap_TypeConfigure \<Rightarrow> graph_type_configure s)"

record TenantAudit =
  audit_actor :: ustr
  audit_operation :: ustr
  target_tenant :: "ustr option"
  own_tenant :: "ustr option"
  audit_capability :: "TenantCapability option"

datatype tenant_msg =
    No_tenant_no_cross_read | Filter_not_an_object | Filters_other_tenant | Payload_of_other_tenant
  | No_tenant_no_cross_write | Cross_write_needs_tenant | Ownership_change | Belongs_to_other_tenant
  | Payload_not_an_object

type_synonym 'a tenant_result = "TenantAudit list \<times> (tenant_msg, 'a) result"

text \<open>The owner of a payload: the tenant field, when it is a string.\<close>

definition payload_tenant :: "'n Value \<Rightarrow> ustr option" where
  "payload_tenant payload = Option.bind (get payload TENANT_FIELD) as_str"

section \<open>Reads\<close>

definition asked_for :: "'n Value \<Rightarrow> ustr option" where
  "asked_for existing =
     (case Option.bind (get existing (str ''eq'')) as_str of Some t \<Rightarrow> Some t | None \<Rightarrow> as_str existing)"

definition scope_filter :: "TenantScope \<Rightarrow> TenantEnforcement \<Rightarrow> 'n Value option \<Rightarrow> 'n Value option tenant_result" where
  "scope_filter s enforcement f =
     (if \<not> blocks enforcement \<or> system s then ([], Inr f)
      else if cross_read s
      then ([\<lparr>audit_actor = actor s, audit_operation = str ''read'', target_tenant = None, own_tenant = tenant_id s,
              audit_capability = Some CrossRead\<rparr>], Inr f)
      else ([],
        bindE (ok_or (InvalidRequest No_tenant_no_cross_read) (tenant_id s)) (\<lambda>tenant.
        bindE (case f of Some (JObject kvs) \<Rightarrow> Inr kvs | Some JNull \<Rightarrow> Inr [] | None \<Rightarrow> Inr []
               | Some _ \<Rightarrow> Inl (InvalidRequest Filter_not_an_object)) (\<lambda>object.
        if (case map_of object TENANT_FIELD of None \<Rightarrow> False | Some existing \<Rightarrow> asked_for existing \<noteq> Some tenant)
        then Inl (InvalidRequest Filters_other_tenant)
        else Inr (Some (JObject (btree_insert TENANT_FIELD (JObject [(str ''eq'', JString tenant)]) object)))))))"

definition may_read_payload :: "TenantScope \<Rightarrow> TenantEnforcement \<Rightarrow> 'n Value \<Rightarrow> bool" where
  "may_read_payload s enforcement payload =
     (if \<not> blocks enforcement \<or> system s \<or> cross_read s then True
      else case tenant_id s of None \<Rightarrow> False | Some tenant \<Rightarrow> payload_tenant payload = Some tenant)"

section \<open>Writes\<close>

definition set_tenant :: "'n Value \<Rightarrow> ustr \<Rightarrow> (tenant_msg, 'n Value) result" where
  "set_tenant payload tenant =
     (case payload of
        JObject kvs \<Rightarrow> Inr (JObject (btree_insert TENANT_FIELD (JString tenant) kvs))
      | JNull \<Rightarrow> Inr (JObject [(TENANT_FIELD, JString tenant)])
      | _ \<Rightarrow> Inl (InvalidRequest Payload_not_an_object))"

definition stamp_payload :: "TenantScope \<Rightarrow> TenantEnforcement \<Rightarrow> 'n Value \<Rightarrow> 'n Value tenant_result" where
  "stamp_payload s enforcement payload =
     (if \<not> active enforcement \<or> system s then ([], Inr payload)
      else case (tenant_id s, payload_tenant payload) of
        (Some own, None) \<Rightarrow> ([], if blocks enforcement then set_tenant payload own else Inr payload)
      | (Some own, Some supplied) \<Rightarrow>
          if supplied = own then ([], Inr payload)
          else if \<not> cross_write s then ([], Inl (InvalidRequest Payload_of_other_tenant))
          else ([\<lparr>audit_actor = actor s, audit_operation = str ''write'', target_tenant = Some supplied, own_tenant = Some own,
                  audit_capability = Some CrossWrite\<rparr>], Inr payload)
      | (None, supplied) \<Rightarrow>
          if \<not> cross_write s then ([], Inl (InvalidRequest No_tenant_no_cross_write))
          else if supplied = None \<and> blocks enforcement then ([], Inl (InvalidRequest Cross_write_needs_tenant))
          else ([\<lparr>audit_actor = actor s, audit_operation = str ''write'', target_tenant = supplied, own_tenant = None,
                  audit_capability = Some CrossWrite\<rparr>], Inr payload))"

definition may_write_payload :: "TenantScope \<Rightarrow> TenantEnforcement \<Rightarrow> 'n Value \<Rightarrow> unit tenant_result" where
  "may_write_payload s enforcement payload =
     (if \<not> blocks enforcement \<or> system s \<or> cross_write s
      then (if blocks enforcement \<and> cross_write s \<and> \<not> system s
            then [\<lparr>audit_actor = actor s, audit_operation = str ''write_existing'', target_tenant = payload_tenant payload,
                   own_tenant = tenant_id s, audit_capability = Some CrossWrite\<rparr>] else [], Inr ())
      else ([], case (tenant_id s, payload_tenant payload) of
        (Some own, Some owner) \<Rightarrow> if owner = own then Inr () else Inl (InvalidRequest Belongs_to_other_tenant)
      | _ \<Rightarrow> Inl (InvalidRequest Belongs_to_other_tenant)))"

definition opt_value_eq :: "'n json_ext \<Rightarrow> 'n Value option \<Rightarrow> 'n Value option \<Rightarrow> bool" where
  "opt_value_eq ext a b =
     (case (a, b) of (Some v, Some w) \<Rightarrow> value_eq ext v w | (None, None) \<Rightarrow> True | _ \<Rightarrow> False)"

definition authorize_replacement ::
  "'n json_ext \<Rightarrow> TenantScope \<Rightarrow> TenantEnforcement \<Rightarrow> ustr \<Rightarrow> 'n Value \<Rightarrow> 'n Value \<Rightarrow> unit tenant_result" where
  "authorize_replacement ext s enforcement pid old new =
     (case may_write_payload s enforcement old of
        (a, Inl _) \<Rightarrow> (a, Inl (PointNotFound pid))
      | (a, Inr _) \<Rightarrow>
          if blocks enforcement \<and> \<not> system s \<and> \<not> opt_value_eq ext (get old TENANT_FIELD) (get new TENANT_FIELD)
          then (a, Inl (InvalidRequest Ownership_change))
          else (case may_write_payload s enforcement new of (b, r) \<Rightarrow> (a @ b, r)))"

section \<open>The scoped entry points\<close>

type_synonym 'n payloads = "ustr \<rightharpoonup> 'n Value"

definition get_points_scoped :: "TenantScope \<Rightarrow> TenantEnforcement \<Rightarrow> 'n payloads \<Rightarrow> ustr list \<Rightarrow> (ustr \<times> 'n Value) list" where
  "get_points_scoped s enforcement points ids =
     (let found = List.map_filter (\<lambda>i. map_option (Pair i) (points i)) ids in
      if \<not> blocks enforcement then found else filter (\<lambda>(_, payload). may_read_payload s enforcement payload) found)"

datatype 'n tenant_op =
    Upsert "(ustr \<times> 'n Value) list"
  | Delete "ustr list"
  | Set_payload ustr "'n Value" bool
  | Delete_by_filter "'n Value"

definition upsert_scoped ::
  "'n json_ext \<Rightarrow> TenantScope \<Rightarrow> TenantEnforcement \<Rightarrow> 'n payloads \<Rightarrow> (ustr \<times> 'n Value) list \<Rightarrow> (tenant_msg, 'n payloads) result" where
  "upsert_scoped ext s enforcement points batch =
     bindE (mapE (\<lambda>(i, payload). bindE (snd (stamp_payload s enforcement payload)) (\<lambda>p. Inr (i, p))) batch) (\<lambda>stamped.
     bindE (mapE (\<lambda>(i, payload).
              case points i of None \<Rightarrow> Inr ()
              | Some existing \<Rightarrow> snd (authorize_replacement ext s enforcement i existing payload)) stamped) (\<lambda>_.
     Inr (fold (\<lambda>(i, payload) m. m(i \<mapsto> payload)) stamped points)))"

definition delete_scoped ::
  "TenantScope \<Rightarrow> TenantEnforcement \<Rightarrow> 'n payloads \<Rightarrow> ustr list \<Rightarrow> (tenant_msg, 'n payloads) result" where
  "delete_scoped s enforcement points ids =
     bindE (if blocks enforcement
            then mapE (\<lambda>i. bindE (ok_or (PointNotFound i) (points i)) (\<lambda>existing.
                   map_err (\<lambda>_. PointNotFound i) (snd (may_write_payload s enforcement existing)))) ids
            else Inr []) (\<lambda>_.
     Inr (fold (\<lambda>i m. m(i := None)) ids points))"

definition merged_payload :: "bool \<Rightarrow> 'n Value \<Rightarrow> 'n Value \<Rightarrow> 'n Value" where
  "merged_payload merge existing payload =
     (case (merge, existing, payload) of
        (True, JObject old, JObject new) \<Rightarrow> JObject (fold (\<lambda>(k, v) d. btree_insert k v d) new old)
      | _ \<Rightarrow> payload)"

definition set_payload_candidate ::
  "'n json_ext \<Rightarrow> TenantScope \<Rightarrow> TenantEnforcement \<Rightarrow> 'n payloads \<Rightarrow> ustr \<Rightarrow> 'n Value \<Rightarrow> bool \<Rightarrow> (tenant_msg, 'n Value) result" where
  "set_payload_candidate ext s enforcement points i payload merge =
     bindE (snd (stamp_payload s enforcement payload)) (\<lambda>payload.
     bindE (ok_or (PointNotFound i) (points i)) (\<lambda>existing.
     bindE (snd (authorize_replacement ext s enforcement i existing (merged_payload merge existing payload))) (\<lambda>_.
     Inr (merged_payload merge existing payload))))"

definition set_payload_scoped ::
  "'n json_ext \<Rightarrow> TenantScope \<Rightarrow> TenantEnforcement \<Rightarrow> 'n payloads \<Rightarrow> ustr \<Rightarrow> 'n Value \<Rightarrow> bool \<Rightarrow> (tenant_msg, 'n payloads) result" where
  "set_payload_scoped ext s enforcement points i payload merge =
     bindE (set_payload_candidate ext s enforcement points i payload merge) (\<lambda>candidate. Inr (points(i \<mapsto> candidate)))"

definition delete_by_filter_scoped ::
  "'n json_ext \<Rightarrow> TenantScope \<Rightarrow> TenantEnforcement \<Rightarrow> 'n payloads \<Rightarrow> 'n Value \<Rightarrow> 'n payloads" where
  "delete_by_filter_scoped ext s enforcement points f =
     (\<lambda>i. case points i of None \<Rightarrow> None
          | Some payload \<Rightarrow>
              if filter_matches ext f payload \<and> snd (may_write_payload s enforcement payload) = Inr () then None else Some payload)"

definition run_op ::
  "'n json_ext \<Rightarrow> TenantScope \<Rightarrow> TenantEnforcement \<Rightarrow> 'n tenant_op \<Rightarrow> 'n payloads \<Rightarrow> (tenant_msg, 'n payloads) result" where
  "run_op ext s enforcement op points =
     (case op of
        Upsert batch \<Rightarrow> upsert_scoped ext s enforcement points batch
      | Delete ids \<Rightarrow> delete_scoped s enforcement points ids
      | Set_payload i payload merge \<Rightarrow> set_payload_scoped ext s enforcement points i payload merge
      | Delete_by_filter f \<Rightarrow> Inr (delete_by_filter_scoped ext s enforcement points f))"

section \<open>Ownership\<close>

lemma get_btree_insert [simp]: "get (JObject (btree_insert k v kvs)) k' = (if k' = k then Some v else get (JObject kvs) k')"
  by (simp add: get_def)

lemma payload_tenant_set: "set_tenant p t = Inr p' \<Longrightarrow> payload_tenant p' = Some t"
  by (cases p) (auto simp: set_tenant_def payload_tenant_def as_str_def get_def)

text \<open>Under enforcement, what a request writes belongs to a tenant: its own, unless it may write across tenants.\<close>

lemma stamp_owner:
  assumes "\<not> system s" "snd (stamp_payload s Enforced p) = Inr p'"
  shows "\<exists>t. payload_tenant p' = Some t \<and> (\<not> cross_write s \<longrightarrow> tenant_id s = Some t)"
  using assms by (auto simp: stamp_payload_def dest: payload_tenant_set split: option.splits if_splits)

lemma may_write_owner:
  assumes "\<not> system s" "\<not> cross_write s" "snd (may_write_payload s Enforced p) = Inr ()"
  shows "payload_tenant p = tenant_id s"
  using assms by (auto simp: may_write_payload_def split: option.splits if_splits)

lemma authorize_Inr:
  "snd (authorize_replacement ext s enforcement i old new) = Inr () \<longleftrightarrow>
     snd (may_write_payload s enforcement old) = Inr () \<and> snd (may_write_payload s enforcement new) = Inr ()
   \<and> (blocks enforcement \<and> \<not> system s \<longrightarrow> opt_value_eq ext (get old TENANT_FIELD) (get new TENANT_FIELD))"
  by (auto simp: authorize_replacement_def split: prod.splits sum.splits)

lemma same_owner:
  assumes "opt_value_eq ext (get old TENANT_FIELD) (get new TENANT_FIELD)" "payload_tenant old = Some t"
  shows "payload_tenant new = Some t"
proof -
  from assms(2) obtain v where "get old TENANT_FIELD = Some v" "as_str v = Some t" by (auto simp: payload_tenant_def bind_eq_Some_conv)
  then have "get old TENANT_FIELD = Some (JString t)" by (cases v) (simp_all add: as_str_def)
  with assms(1) obtain w where "get new TENANT_FIELD = Some w" "value_eq ext (JString t) w"
    by (auto simp: opt_value_eq_def split: option.splits)
  then show ?thesis by (cases w) (auto simp: payload_tenant_def as_str_def)
qed

definition owned :: "'n payloads \<Rightarrow> bool" where
  "owned points \<longleftrightarrow> (\<forall>i p. points i = Some p \<longrightarrow> payload_tenant p \<noteq> None)"

text \<open>What one request may change: points of the tenant before, and into points of the tenant.\<close>

definition touches :: "TenantScope \<Rightarrow> 'n payloads \<Rightarrow> 'n payloads \<Rightarrow> bool" where
  "touches s points points' \<longleftrightarrow> (\<forall>i. points' i \<noteq> points i \<longrightarrow>
     (\<forall>p. points i = Some p \<longrightarrow> \<not> cross_write s \<longrightarrow> payload_tenant p = tenant_id s)
   \<and> (\<forall>p. points' i = Some p \<longrightarrow> payload_tenant p \<noteq> None \<and> (\<not> cross_write s \<longrightarrow> payload_tenant p = tenant_id s)))"

lemma fold_upserts:
  "fold (\<lambda>(i, p) m. m(i \<mapsto> p)) batch points i = Some p \<Longrightarrow> (i, p) \<in> set batch \<or> (points i = Some p \<and> i \<notin> fst ` set batch)"
proof (induction batch arbitrary: points)
  case (Cons a batch)
  obtain j q where a: "a = (j, q)" by (cases a)
  from Cons.IH [of "points(j \<mapsto> q)"] Cons.prems show ?case by (auto simp: a split: if_splits)
qed simp

lemma fold_upserts_other: "i \<notin> fst ` set batch \<Longrightarrow> fold (\<lambda>(i, p) m. m(i \<mapsto> p)) batch points i = points i"
  by (induction batch arbitrary: points) auto

lemma fold_deletes: "fold (\<lambda>i m. m(i := None)) ids points i = (if i \<in> set ids then None else points i)"
  by (induction ids arbitrary: points) auto

lemma upsert_touches:
  assumes sys: "\<not> system s" and up: "upsert_scoped ext s Enforced points batch = Inr points'"
  shows "touches s points points'"
proof -
  from up obtain stamped where st: "mapE (\<lambda>(i, payload). bindE (snd (stamp_payload s Enforced payload)) (\<lambda>p. Inr (i, p))) batch = Inr stamped"
    and all: "\<exists>us. mapE (\<lambda>(i, payload). case points i of None \<Rightarrow> Inr ()
          | Some existing \<Rightarrow> snd (authorize_replacement ext s Enforced i existing payload)) stamped = Inr us"
    and p': "points' = fold (\<lambda>(i, p) m. m(i \<mapsto> p)) stamped points"
    by (auto simp: upsert_scoped_def res_simps)
  have au: "snd (authorize_replacement ext s Enforced i existing p) = Inr ()" if "(i, p) \<in> set stamped" "points i = Some existing" for i p existing
    using all mapE_Inr_mem [OF _ that(1)] that(2) by fastforce
  have own: "\<exists>t. payload_tenant p = Some t \<and> (\<not> cross_write s \<longrightarrow> tenant_id s = Some t)" if "(i, p) \<in> set stamped" for i p
    using mapE_Inr_image [OF st that] stamp_owner [OF sys] by (auto simp: res_simps)
  show ?thesis unfolding touches_def
  proof (intro allI impI conjI)
    fix i p assume "points' i \<noteq> points i" and old: "points i = Some p" and cw: "\<not> cross_write s"
    then have "i \<in> fst ` set stamped" using fold_upserts_other [of i stamped points] by (auto simp: p')
    then obtain q where "(i, q) \<in> set stamped" by force
    from au [OF this old] may_write_owner [OF sys cw] show "payload_tenant p = tenant_id s" by (auto simp: authorize_Inr)
  next
    fix i p assume ch: "points' i \<noteq> points i" and new: "points' i = Some p"
    then have "(i, p) \<in> set stamped" using fold_upserts [of stamped points i p] by (auto simp: p')
    from own [OF this] show "payload_tenant p \<noteq> None" "\<not> cross_write s \<Longrightarrow> payload_tenant p = tenant_id s" by auto
  qed
qed

lemma delete_touches:
  assumes sys: "\<not> system s" and del: "delete_scoped s Enforced points ids = Inr points'"
  shows "touches s points points'"
proof -
  from del have p': "points' = fold (\<lambda>i m. m(i := None)) ids points"
    and ok: "\<And>i p. i \<in> set ids \<Longrightarrow> points i = Some p \<Longrightarrow> snd (may_write_payload s Enforced p) = Inr ()"
    by (auto simp: delete_scoped_def res_simps mapE_Inr_iff list_all2_conv_all_nth in_set_conv_nth)
  show ?thesis unfolding touches_def
    using ok may_write_owner [OF sys] by (auto simp: p' fold_deletes split: if_splits)
qed

lemma set_payload_touches:
  assumes sys: "\<not> system s" and ow: "owned points" and set: "set_payload_scoped ext s Enforced points i payload merge = Inr points'"
  shows "touches s points points'"
proof -
  from set obtain payload' existing where e: "points i = Some existing"
    and au: "snd (authorize_replacement ext s Enforced i existing (merged_payload merge existing payload')) = Inr ()"
    and p': "points' = points(i \<mapsto> merged_payload merge existing payload')"
    by (auto simp: set_payload_scoped_def set_payload_candidate_def res_simps)
  obtain t where t: "payload_tenant existing = Some t" using ow e by (auto simp: owned_def)
  have "payload_tenant (merged_payload merge existing payload') = Some t"
    using au sys same_owner [OF _ t] by (auto simp: authorize_Inr)
  then show ?thesis unfolding touches_def
    using e t au sys by (auto dest: may_write_owner simp: p' authorize_Inr split: if_splits)
qed

lemma delete_by_filter_touches:
  "\<not> system s \<Longrightarrow> touches s points (delete_by_filter_scoped ext s Enforced points f)"
  by (auto dest: may_write_owner simp: touches_def delete_by_filter_scoped_def split: option.splits if_splits)

lemma run_op_touches:
  assumes "\<not> system s" "owned points" "run_op ext s Enforced op points = Inr points'"
  shows "touches s points points'"
  using assms upsert_touches delete_touches set_payload_touches delete_by_filter_touches
  by (cases op) (auto simp: run_op_def)

lemma touches_owned: "touches s points points' \<Longrightarrow> owned points \<Longrightarrow> owned points'"
  unfolding touches_def owned_def by metis

inductive tenant_step :: "'n json_ext \<Rightarrow> 'n payloads \<Rightarrow> 'n payloads \<Rightarrow> bool" for ext where
  request: "\<not> system s \<Longrightarrow> run_op ext s Enforced op points = Inr points' \<Longrightarrow> tenant_step ext points points'"

interpretation tenants: invariant_system "\<lambda>points. points = Map.empty" "tenant_step ext" owned for ext
proof unfold_locales
  fix points points' :: "'a payloads"
  show "owned points" if "points = Map.empty" using that by (simp add: owned_def)
  show "owned points'" if "owned points" "tenant_step ext points points'"
    using that(2,1) by cases (blast intro: touches_owned run_op_touches)
qed

section \<open>Scoped filters\<close>

definition condition_holds :: "'n json_ext \<Rightarrow> ustr \<Rightarrow> 'n Value \<Rightarrow> 'n Value \<Rightarrow> bool" where
  "condition_holds ext field expected payload \<longleftrightarrow>
     (\<exists>actual \<in> set (payload_field_values payload field). matches_condition ext actual expected)"

lemma filter_matches_object:
  "filter_matches ext (JObject cs) payload \<longleftrightarrow> (\<forall>(field, expected) \<in> set cs. condition_holds ext field expected payload)"
  by (auto simp: filter_matches.simps condition_holds_def Let_def)

lemma value_eq_string: "value_eq ext v (JString t) \<longleftrightarrow> v = JString t"
  by (cases v) auto

lemma tenant_condition:
  "condition_holds ext TENANT_FIELD (JObject [(str ''eq'', JString t)]) payload \<longleftrightarrow>
     JString t \<in> set (payload_field_values payload TENANT_FIELD)"
  by (auto simp: condition_holds_def matches_condition.simps value_eq_string)

lemma tenant_field_values:
  assumes "get payload TENANT_FIELD = Some (JString t)"
  shows "payload_field_values payload TENANT_FIELD = [JString t]"
  using assms by (simp add: payload_field_values_def)

lemma payload_tenant_Some: "payload_tenant payload = Some t \<longleftrightarrow> get payload TENANT_FIELD = Some (JString t)"
proof
  assume "payload_tenant payload = Some t"
  then obtain v where "get payload TENANT_FIELD = Some v" "as_str v = Some t" by (auto simp: payload_tenant_def bind_eq_Some_conv)
  then show "get payload TENANT_FIELD = Some (JString t)" by (cases v) (simp_all add: as_str_def)
qed (simp add: payload_tenant_def as_str_def)

lemma tenant_values_plain:
  assumes "as_array payload = None" "\<And>v. get payload TENANT_FIELD = Some v \<Longrightarrow> as_array v = None"
  shows "JString t \<in> set (payload_field_values payload TENANT_FIELD) \<longleftrightarrow> payload_tenant payload = Some t"
proof (cases "get payload TENANT_FIELD")
  case None
  have "collect_path_values payload (split_dot TENANT_FIELD) = []"
  proof (cases payload)
    case (JObject kvs)
    then show ?thesis using None by (simp add: get_def split_dot_def TENANT_FIELD_def str_def normalize_path_component_def)
  next
    case (JArray vs)
    then show ?thesis using assms(1) by (simp add: as_array_def)
  qed (simp_all add: split_dot_def TENANT_FIELD_def str_def is_object_def as_array_def)
  then show ?thesis using None by (simp add: payload_tenant_Some payload_field_values_def)
next
  case (Some v)
  then have "as_array v = None" by (rule assms(2))
  then show ?thesis using Some by (cases v) (auto simp: payload_tenant_Some payload_field_values_def as_array_def)
qed

lemma scope_filter_Inr:
  assumes "\<not> system s" "\<not> cross_read s" "snd (scope_filter s Enforced f) = Inr f'"
  shows "\<exists>t cs. tenant_id s = Some t \<and> (f = Some (JObject cs) \<or> f = Some JNull \<and> cs = [] \<or> f = None \<and> cs = [])
     \<and> f' = Some (JObject (btree_insert TENANT_FIELD (JObject [(str ''eq'', JString t)]) cs))"
  using assms by (auto simp: scope_filter_def res_simps split: if_splits option.splits Value.splits)

lemma scoped_filter_tenant:
  assumes "\<not> system s" "\<not> cross_read s" "tenant_id s = Some t" "snd (scope_filter s Enforced f) = Inr (Some f')" "filter_matches ext f' payload"
  shows "JString t \<in> set (payload_field_values payload TENANT_FIELD)"
proof -
  obtain cs where "f' = JObject (btree_insert TENANT_FIELD (JObject [(str ''eq'', JString t)]) cs)"
    using scope_filter_Inr [OF assms(1,2,4)] assms(3) by auto
  then have "condition_holds ext TENANT_FIELD (JObject [(str ''eq'', JString t)]) payload"
    using assms(5) in_btree_insert by (fastforce simp: filter_matches_object)
  then show ?thesis by (simp only: tenant_condition)
qed

text \<open>
  C4. Tenant isolation: in every state that requests under enforcement can produce, a principal that
  is scoped to a tenant and holds no cross-tenant capability reads by id exactly the points of its
  tenant, every point that passes its narrowed filter belongs to its tenant, and whatever request it
  makes leaves the points of all other tenants as they were and writes only points of its own.
\<close>

theorem tenant_isolation:
  assumes "(tenant_step ext)\<^sup>*\<^sup>* Map.empty points" and "\<not> system s" and "\<not> cross_read s" and "tenant_id s = Some t"
  shows "set (get_points_scoped s Enforced points ids) = {(i, p). i \<in> set ids \<and> points i = Some p \<and> payload_tenant p = Some t}
    \<and> (\<forall>f f' i p. snd (scope_filter s Enforced f) = Inr (Some f') \<longrightarrow> points i = Some p \<longrightarrow> filter_matches ext f' p \<longrightarrow> payload_tenant p = Some t)
    \<and> (\<forall>f. snd (scope_filter s Enforced f) \<noteq> Inr None)
    \<and> (\<forall>op points' i. \<not> cross_write s \<longrightarrow> run_op ext s Enforced op points = Inr points' \<longrightarrow> points' i \<noteq> points i \<longrightarrow>
         (\<forall>p. points i = Some p \<or> points' i = Some p \<longrightarrow> payload_tenant p = Some t))"
proof (intro conjI allI impI)
  have own: "owned points" by (rule tenants.inv_reachable [OF refl assms(1)])
  show "set (get_points_scoped s Enforced points ids) = {(i, p). i \<in> set ids \<and> points i = Some p \<and> payload_tenant p = Some t}"
    using assms(2-4) by (auto simp: get_points_scoped_def may_read_payload_def List.map_filter_def intro!: rev_image_eqI)
  show "payload_tenant p = Some t" if "snd (scope_filter s Enforced f) = Inr (Some f')" "points i = Some p" "filter_matches ext f' p" for f f' i p
  proof -
    obtain t' where t': "payload_tenant p = Some t'" using own \<open>points i = Some p\<close> by (auto simp: owned_def)
    then have "payload_field_values p TENANT_FIELD = [JString t']" by (simp add: payload_tenant_Some tenant_field_values)
    then show ?thesis using scoped_filter_tenant [OF assms(2-4) that(1,3)] t' by simp
  qed
  show "snd (scope_filter s Enforced f) \<noteq> Inr None" for f
    using scope_filter_Inr [OF assms(2,3), of f None] by auto
  show "payload_tenant p = Some t"
    if "\<not> cross_write s" "run_op ext s Enforced op points = Inr points'" "points' i \<noteq> points i" "points i = Some p \<or> points' i = Some p"
    for op points' i p
    using run_op_touches [OF assms(2) own that(2)] that(1,3,4) assms(4) by (auto simp: touches_def)
qed

definition two_tenants :: "nat payloads" where
  "two_tenants = [str ''p'' \<mapsto> JObject [(TENANT_FIELD, JString (str ''acme''))], str ''q'' \<mapsto> JObject [(TENANT_FIELD, JString (str ''beta''))]]"

lemma two_tenants_reachable: "(tenant_step ext)\<^sup>*\<^sup>* Map.empty two_tenants"
proof -
  let ?p = "[str ''p'' \<mapsto> JObject [(TENANT_FIELD, JString (str ''acme''))]] :: nat payloads"
  have "tenant_step ext Map.empty ?p"
    by (rule request [of "scope_tenant (str ''k'') (str ''acme'')" _ "Upsert [(str ''p'', JNull)]"])
      (simp_all add: scope_tenant_def run_op_def upsert_scoped_def stamp_payload_def payload_tenant_def get_def set_tenant_def)
  moreover have "tenant_step ext ?p two_tenants"
    by (rule request [of "scope_tenant (str ''l'') (str ''beta'')" _ "Upsert [(str ''q'', JObject [])]"])
      (simp_all add: two_tenants_def str_def scope_tenant_def run_op_def upsert_scoped_def stamp_payload_def payload_tenant_def get_def
        set_tenant_def)
  ultimately show ?thesis by (meson rtranclp.rtrancl_refl rtranclp.rtrancl_into_rtrancl)
qed

theorem tenant_isolation_witness:
  "\<not> system (scope_tenant (str ''k'') (str ''acme'')) \<and> (\<exists>points :: nat payloads. dom points = {str ''p'', str ''q''} \<and>
     set (get_points_scoped (scope_tenant (str ''k'') (str ''acme'')) Enforced points [str ''p'', str ''q'']) =
       {(str ''p'', JObject [(TENANT_FIELD, JString (str ''acme''))])})"
proof -
  let ?s = "scope_tenant (str ''k'') (str ''acme'')"
  have s: "\<not> system ?s" "\<not> cross_read ?s" "tenant_id ?s = Some (str ''acme'')" by (simp_all add: scope_tenant_def)
  have "set (get_points_scoped ?s Enforced two_tenants [str ''p'', str ''q'']) =
      {(i, p). i \<in> set [str ''p'', str ''q''] \<and> two_tenants i = Some p \<and> payload_tenant p = Some (str ''acme'')}"
    by (rule conjunct1 [OF tenant_isolation [OF two_tenants_reachable s]])
  also have "\<dots> = {(str ''p'', JObject [(TENANT_FIELD, JString (str ''acme''))])}"
    by (auto simp: two_tenants_def payload_tenant_def get_def as_str_def str_def split: if_splits)
  finally have "set (get_points_scoped ?s Enforced two_tenants [str ''p'', str ''q'']) =
      {(str ''p'', JObject [(TENANT_FIELD, JString (str ''acme''))])}" .
  then show ?thesis using s(1) by (intro conjI exI [of _ two_tenants]) (auto simp: two_tenants_def)
qed



end
