(* ===== verification/Payload_Index.thy ===== *)
theory Payload_Index
  imports Json_Filter Payload_Types
begin

text \<open>
  The payload schema and the payload index of \<open>chirondb-core/src/payload_index.rs\<close>: the equality, numeric
  and text postings of the mutable tier, their maintenance, and the candidates a filter selects.

  A hash or tree map is an association list read by \<open>map_of\<close>, a hash set is a set. A range query on a
  tree map panics when its bounds are reversed, or equal and both excluded; the panic is \<open>Inl ()\<close>.

  Main results: after any inserts and removals the postings are exactly those of the live points, and
  the candidates of a filter contain every live point the filter matches.
\<close>

unbundle bit_operations_syntax

section \<open>Schema\<close>

datatype payload_msg = Field_required ustr | Field_must_be ustr PayloadType | Invalid_payload_field | Panicked

definition payload_type_matches :: "'n Value \<Rightarrow> PayloadType \<Rightarrow> (payload_msg, bool) result" where
  "payload_type_matches v expected =
     (if v = JNull then Inr (is_nullable expected)
      else case base_type expected of
        PString \<Rightarrow> Inr (case v of JString _ \<Rightarrow> True | _ \<Rightarrow> False)
      | PNumber \<Rightarrow> Inr (case v of JNumber _ \<Rightarrow> True | _ \<Rightarrow> False)
      | PBool \<Rightarrow> Inr (case v of JBool _ \<Rightarrow> True | _ \<Rightarrow> False)
      | PObject \<Rightarrow> Inr (is_object v)
      | PArray \<Rightarrow> Inr (is_array v)
      | _ \<Rightarrow> Inl (InvalidRequest Panicked))"

function collect_payload_path_values :: "'n Value \<Rightarrow> ustr list \<Rightarrow> 'n Value list" where
  "collect_payload_path_values value [] = [value]"
| "collect_payload_path_values value (c # cs) =
     (case value of
        JObject kvs \<Rightarrow>
          (case map_of kvs (normalize_path_component c) of
             None \<Rightarrow> [] | Some child \<Rightarrow> collect_payload_path_values child cs)
      | JArray vs \<Rightarrow> concat (map (\<lambda>v. collect_payload_path_values v (c # cs)) vs)
      | _ \<Rightarrow> [])"
  by pat_completeness auto

termination collect_payload_path_values
  by (relation "measure (\<lambda>(v, _). nodes v)") (auto dest: nodes_get nodes_array)

declare collect_payload_path_values.simps(2) [simp del]

definition payload_schema_values :: "'n Value \<Rightarrow> ustr \<Rightarrow> 'n Value list" where
  "payload_schema_values payload field =
     (case get payload field of
        Some v \<Rightarrow> [v] | None \<Rightarrow> collect_payload_path_values payload (split_dot field))"

fun all_match :: "PayloadType \<Rightarrow> 'n Value list \<Rightarrow> (payload_msg, bool) result" where
  "all_match t [] = Inr True"
| "all_match t (v # vs) = bindE (payload_type_matches v t) (\<lambda>b. if b then all_match t vs else Inr False)"

definition validate_payload_schema :: "(ustr \<times> PayloadType) list \<Rightarrow> 'n Value \<Rightarrow> (payload_msg, unit) result" where
  "validate_payload_schema schema payload =
     foldE (\<lambda>_ (field, expected).
       let vs = payload_schema_values payload field in
       if vs = [] then
         if is_optional expected then Inr () else Inl (InvalidRequest (Field_required field))
       else bindE (all_match expected vs) (\<lambda>b.
         if b then Inr () else Inl (InvalidRequest (Field_must_be field expected)))) () schema"

definition is_valid_payload_field_component :: "ustr \<Rightarrow> bool" where
  "is_valid_payload_field_component c =
     (let c = normalize_path_component c in
      c \<noteq> [] \<and> list_all (\<lambda>ch. 48 \<le> ch \<and> ch \<le> 57 \<or> 65 \<le> ch \<and> ch \<le> 90 \<or> 97 \<le> ch \<and> ch \<le> 122 \<or> ch = 95 \<or> ch = 45) c)"

definition validate_payload_field :: "ustr \<Rightarrow> (payload_msg, unit) result" where
  "validate_payload_field field =
     (if field = [] \<or> \<not> list_all is_valid_payload_field_component (split_dot field)
      then Inl (InvalidRequest Invalid_payload_field) else Inr ())"

section \<open>Postings\<close>

type_synonym ('k, 'v) tab = "('k \<times> 'v) list"
type_synonym point_id = ustr
type_synonym 'k postings = "(ustr, ('k, point_id set) tab) tab"

text \<open>\<open>entry(k).or_default()\<close> followed by a modification.\<close>

fun entry_update :: "'k \<Rightarrow> 'v \<Rightarrow> ('v \<Rightarrow> 'v) \<Rightarrow> ('k, 'v) tab \<Rightarrow> ('k, 'v) tab" where
  "entry_update k d f [] = [(k, f d)]"
| "entry_update k d f ((k', v) # m) = (if k = k' then (k, f v) # m else (k', v) # entry_update k d f m)"

definition tab_remove :: "'k \<Rightarrow> ('k, 'v) tab \<Rightarrow> ('k, 'v) tab" where
  "tab_remove k m = filter (\<lambda>kv. fst kv \<noteq> k) m"

record PayloadIndex =
  equality :: "ustr postings"
  numeric :: "u64 postings"
  text_terms :: "ustr postings"

definition index_default :: PayloadIndex where
  "index_default = \<lparr>equality = [], numeric = [], text_terms = []\<rparr>"

definition payload_index_key :: "'n json_ext \<Rightarrow> 'n Value \<Rightarrow> ustr option" where
  "payload_index_key ext v =
     (case v of
        JNull \<Rightarrow> Some (str ''null'')
      | JBool b \<Rightarrow> Some (str ''bool:'' @ (if b then str ''true'' else str ''false''))
      | JNumber n \<Rightarrow> Some (str ''number:'' @ num_text ext n)
      | JString s \<Rightarrow> Some (str ''string:'' @ s)
      | _ \<Rightarrow> None)"

definition numeric_payload_sort_key :: "u64 \<Rightarrow> u64 option" where
  "numeric_payload_sort_key v =
     (if \<not> f64_finite v then None
      else Some (if v AND push_bit 63 1 = 0 then v OR push_bit 63 1 else NOT v))"

definition numeric_payload_sort_key_from_value :: "'n json_ext \<Rightarrow> 'n Value \<Rightarrow> u64 option" where
  "numeric_payload_sort_key_from_value ext v =
     (case as_f64 ext v of None \<Rightarrow> None | Some x \<Rightarrow> numeric_payload_sort_key x)"

definition insert_posting :: "ustr \<Rightarrow> 'k \<Rightarrow> point_id \<Rightarrow> 'k postings \<Rightarrow> 'k postings" where
  "insert_posting field key pid = entry_update field [] (entry_update key {} (insert pid))"

definition insert_scalar :: "'n json_ext \<Rightarrow> ustr \<Rightarrow> 'n Value \<Rightarrow> point_id \<Rightarrow> PayloadIndex \<Rightarrow> PayloadIndex" where
  "insert_scalar ext field v pid ix =
     (case payload_index_key ext v of None \<Rightarrow> ix
      | Some key \<Rightarrow>
          let ix = ix\<lparr>equality := insert_posting field key pid (equality ix)\<rparr>;
              ix = (case numeric_payload_sort_key_from_value ext v of None \<Rightarrow> ix
                    | Some k \<Rightarrow> ix\<lparr>numeric := insert_posting field k pid (numeric ix)\<rparr>)
          in case as_str v of None \<Rightarrow> ix
             | Some s \<Rightarrow> ix\<lparr>text_terms := fold (\<lambda>w. insert_posting field w pid) (tokenize ext s) (text_terms ix)\<rparr>)"

fun insert_payload_value :: "'n json_ext \<Rightarrow> ustr \<Rightarrow> 'n Value \<Rightarrow> point_id \<Rightarrow> PayloadIndex \<Rightarrow> PayloadIndex" where
  "insert_payload_value ext field (JArray vs) pid ix =
     fold (\<lambda>v ix. insert_payload_value ext field v pid ix) vs ix"
| "insert_payload_value ext field (JObject kvs) pid ix =
     fold (\<lambda>kv ix. insert_payload_value ext (field @ 46 # fst kv) (snd kv) pid ix) kvs ix"
| "insert_payload_value ext field v pid ix = insert_scalar ext field v pid ix"

definition insert_payload_point :: "'n json_ext \<Rightarrow> point_id \<Rightarrow> 'n Value \<Rightarrow> PayloadIndex \<Rightarrow> PayloadIndex" where
  "insert_payload_point ext pid payload ix =
     (case payload of
        JObject kvs \<Rightarrow> fold (\<lambda>kv ix. insert_payload_value ext (fst kv) (snd kv) pid ix) kvs ix
      | _ \<Rightarrow> ix)"

definition remove_payload_id :: "'k \<Rightarrow> point_id \<Rightarrow> ('k, point_id set) tab \<Rightarrow> ('k, point_id set) tab" where
  "remove_payload_id key pid values =
     (case map_of values key of None \<Rightarrow> values
      | Some ids \<Rightarrow> let ids = ids - {pid} in
          if ids = {} then tab_remove key values else entry_update key {} (\<lambda>_. ids) values)"

definition drop_empty_field :: "ustr \<Rightarrow> 'k postings \<Rightarrow> 'k postings" where
  "drop_empty_field field m = (if map_of m field = Some [] then tab_remove field m else m)"

definition in_field :: "ustr \<Rightarrow> (('k, point_id set) tab \<Rightarrow> ('k, point_id set) tab) \<Rightarrow> 'k postings \<Rightarrow> 'k postings" where
  "in_field field f m = (case map_of m field of None \<Rightarrow> m | Some _ \<Rightarrow> entry_update field [] f m)"

definition remove_scalar :: "'n json_ext \<Rightarrow> ustr \<Rightarrow> 'n Value \<Rightarrow> point_id \<Rightarrow> PayloadIndex \<Rightarrow> PayloadIndex" where
  "remove_scalar ext field v pid ix =
     (case payload_index_key ext v of None \<Rightarrow> ix
      | Some key \<Rightarrow>
          let ix = ix\<lparr>equality := in_field field (remove_payload_id key pid) (equality ix)\<rparr>;
              ix = (case numeric_payload_sort_key_from_value ext v of None \<Rightarrow> ix
                    | Some k \<Rightarrow> ix\<lparr>numeric := in_field field (remove_payload_id k pid) (numeric ix)\<rparr>);
              ix = (case as_str v of None \<Rightarrow> ix
                    | Some s \<Rightarrow> ix\<lparr>text_terms := drop_empty_field field
                        (in_field field (fold (\<lambda>w. remove_payload_id w pid) (tokenize ext s)) (text_terms ix))\<rparr>)
          in ix\<lparr>equality := drop_empty_field field (equality ix), numeric := drop_empty_field field (numeric ix)\<rparr>)"

fun remove_payload_value :: "'n json_ext \<Rightarrow> ustr \<Rightarrow> 'n Value \<Rightarrow> point_id \<Rightarrow> PayloadIndex \<Rightarrow> PayloadIndex" where
  "remove_payload_value ext field (JArray vs) pid ix =
     fold (\<lambda>v ix. remove_payload_value ext field v pid ix) vs ix"
| "remove_payload_value ext field (JObject kvs) pid ix =
     fold (\<lambda>kv ix. remove_payload_value ext (field @ 46 # fst kv) (snd kv) pid ix) kvs ix"
| "remove_payload_value ext field v pid ix = remove_scalar ext field v pid ix"

definition remove_payload_point :: "'n json_ext \<Rightarrow> point_id \<Rightarrow> 'n Value \<Rightarrow> PayloadIndex \<Rightarrow> PayloadIndex" where
  "remove_payload_point ext pid payload ix =
     (case payload of
        JObject kvs \<Rightarrow> fold (\<lambda>kv ix. remove_payload_value ext (fst kv) (snd kv) pid ix) kvs ix
      | _ \<Rightarrow> ix)"

section \<open>Candidates\<close>

datatype bound = Unbounded | Included u64 | Excluded u64

definition lower_ok :: "bound \<Rightarrow> u64 \<Rightarrow> bool" where
  "lower_ok b k = (case b of Unbounded \<Rightarrow> True | Included l \<Rightarrow> l \<le> k | Excluded l \<Rightarrow> l < k)"

definition upper_ok :: "bound \<Rightarrow> u64 \<Rightarrow> bool" where
  "upper_ok b k = (case b of Unbounded \<Rightarrow> True | Included u \<Rightarrow> k \<le> u | Excluded u \<Rightarrow> k < u)"

definition range_panics :: "bound \<Rightarrow> bound \<Rightarrow> bool" where
  "range_panics lower upper =
     (case (lower, upper) of
        (Excluded l, Excluded u) \<Rightarrow> u \<le> l
      | (Excluded l, Included u) \<Rightarrow> u < l
      | (Included l, Excluded u) \<Rightarrow> u < l
      | (Included l, Included u) \<Rightarrow> u < l
      | _ \<Rightarrow> False)"

definition key_bound :: "(u64 \<Rightarrow> bound) \<Rightarrow> u64 \<Rightarrow> bound" where
  "key_bound B v = (case numeric_payload_sort_key v of None \<Rightarrow> Unbounded | Some k \<Rightarrow> B k)"

definition numeric_payload_range_bounds :: "IndexedNumericRangeTerm \<Rightarrow> bound \<times> bound" where
  "numeric_payload_range_bounds t =
     ((case (range_gt t, range_gte t) of
         (Some gt, Some gte) \<Rightarrow> if f64_le gte gt then key_bound Excluded gt else key_bound Included gte
       | (Some gt, None) \<Rightarrow> key_bound Excluded gt
       | (None, Some gte) \<Rightarrow> key_bound Included gte
       | (None, None) \<Rightarrow> Unbounded),
      (case (range_lt t, range_lte t) of
         (Some lt, Some lte) \<Rightarrow> if f64_le lt lte then key_bound Excluded lt else key_bound Included lte
       | (Some lt, None) \<Rightarrow> key_bound Excluded lt
       | (None, Some lte) \<Rightarrow> key_bound Included lte
       | (None, None) \<Rightarrow> Unbounded))"

definition or_empty :: "'a set option \<Rightarrow> 'a set" where
  "or_empty x = (case x of None \<Rightarrow> {} | Some s \<Rightarrow> s)"

definition equality_payload_candidates :: "'n json_ext \<Rightarrow> PayloadIndex \<Rightarrow> 'n IndexedFilterTerm \<Rightarrow> point_id set" where
  "equality_payload_candidates ext ix t =
     (case map_of (equality ix) (term_field t) of None \<Rightarrow> {}
      | Some values \<Rightarrow>
          fold (\<lambda>v ids. case payload_index_key ext v of None \<Rightarrow> ids
                | Some key \<Rightarrow> ids \<union> or_empty (map_of values key)) (term_values t) {})"

definition numeric_range_payload_candidates ::
  "PayloadIndex \<Rightarrow> IndexedNumericRangeTerm \<Rightarrow> unit + point_id set" where
  "numeric_range_payload_candidates ix t =
     (case map_of (numeric ix) (range_field t) of None \<Rightarrow> Inr {}
      | Some values \<Rightarrow>
          (case numeric_payload_range_bounds t of (lower, upper) \<Rightarrow>
            if range_panics lower upper then Inl ()
            else Inr (fold (\<lambda>(k, ids) acc. if lower_ok lower k \<and> upper_ok upper k then acc \<union> ids else acc) values {})))"

definition intersect_opt :: "'a set option \<Rightarrow> 'a set \<Rightarrow> 'a set option" where
  "intersect_opt cs s = Some (case cs of None \<Rightarrow> s | Some e \<Rightarrow> e \<inter> s)"

definition text_payload_candidates :: "PayloadIndex \<Rightarrow> IndexedTextTerm \<Rightarrow> point_id set" where
  "text_payload_candidates ix t =
     (case map_of (text_terms ix) (text_field t) of None \<Rightarrow> {}
      | Some field_terms \<Rightarrow>
          or_empty (fold (\<lambda>w cs. intersect_opt cs (or_empty (map_of field_terms w))) (required_terms t) None))"

definition predicate_candidates :: "'n json_ext \<Rightarrow> PayloadIndex \<Rightarrow> 'n IndexedFilterPredicate \<Rightarrow> unit + point_id set" where
  "predicate_candidates ext ix p =
     (case p of
        Equality t \<Rightarrow> Inr (equality_payload_candidates ext ix t)
      | NumericRange t \<Rightarrow> numeric_range_payload_candidates ix t
      | Text t \<Rightarrow> Inr (text_payload_candidates ix t))"

definition payload_filter_candidates ::
  "'n json_ext \<Rightarrow> PayloadIndex \<Rightarrow> 'n Value option \<Rightarrow> unit + point_id set option" where
  "payload_filter_candidates ext ix flt =
     (case flt of None \<Rightarrow> Inr None
      | Some f \<Rightarrow>
          (case indexed_predicates ext f of None \<Rightarrow> Inr None
           | Some ps \<Rightarrow>
               if ps = [] then Inr None
               else foldE (\<lambda>cs p. bindE (predicate_candidates ext ix p) (\<lambda>ids. Inr (intersect_opt cs ids))) None ps))"

section \<open>Postings as sets\<close>

definition posts :: "'k postings \<Rightarrow> ustr \<Rightarrow> 'k \<Rightarrow> point_id set" where
  "posts m f k = or_empty (case map_of m f of None \<Rightarrow> None | Some values \<Rightarrow> map_of values k)"

lemma map_of_entry_update:
  "map_of (entry_update k d f m) k' =
     (if k' = k then Some (f (case map_of m k of None \<Rightarrow> d | Some v \<Rightarrow> v)) else map_of m k')"
  by (induction k d f m rule: entry_update.induct) auto

lemma map_of_tab_remove: "map_of (tab_remove k m) k' = (if k' = k then None else map_of m k')"
  unfolding tab_remove_def by (induction m) auto

lemma posts_insert [simp]:
  "posts (insert_posting f k pid m) f' k' = posts m f' k' \<union> (if f' = f \<and> k' = k then {pid} else {})"
  by (auto simp: posts_def insert_posting_def map_of_entry_update or_empty_def split: option.splits)

lemma posts_fold_insert [simp]:
  "posts (fold (\<lambda>w. insert_posting f w pid) ws m) f' k' = posts m f' k' \<union> (if f' = f \<and> k' \<in> set ws then {pid} else {})"
  by (induction ws arbitrary: m) auto

lemma or_empty_remove:
  "or_empty (map_of (remove_payload_id k pid vs) k') = or_empty (map_of vs k') - (if k' = k then {pid} else {})"
  by (auto simp: remove_payload_id_def Let_def map_of_entry_update map_of_tab_remove or_empty_def split: option.splits)

lemma or_empty_fold_remove:
  "or_empty (map_of (fold (\<lambda>w. remove_payload_id w pid) ws vs) k') =
     or_empty (map_of vs k') - (if k' \<in> set ws then {pid} else {})"
  by (induction ws arbitrary: vs) (auto simp: or_empty_remove)

lemma posts_in_field:
  "posts (in_field f g m) f' k' =
     (if f' = f then (case map_of m f of None \<Rightarrow> {} | Some vs \<Rightarrow> or_empty (map_of (g vs) k')) else posts m f' k')"
  by (auto simp: posts_def in_field_def map_of_entry_update or_empty_def split: option.splits)

lemma posts_remove [simp]:
  "posts (in_field f (remove_payload_id k pid) m) f' k' = posts m f' k' - (if f' = f \<and> k' = k then {pid} else {})"
  by (cases "map_of m f"; cases "f' = f") (simp_all add: posts_in_field or_empty_remove, simp_all add: posts_def or_empty_def)

lemma posts_fold_remove [simp]:
  "posts (in_field f (fold (\<lambda>w. remove_payload_id w pid) ws) m) f' k' =
     posts m f' k' - (if f' = f \<and> k' \<in> set ws then {pid} else {})"
  by (cases "map_of m f"; cases "f' = f") (simp_all add: posts_in_field or_empty_fold_remove, simp_all add: posts_def or_empty_def)

lemma posts_drop_empty [simp]: "posts (drop_empty_field f m) f' k' = posts m f' k'"
  by (auto simp: posts_def drop_empty_field_def map_of_tab_remove or_empty_def split: option.splits)

section \<open>Entries and their keys\<close>

definition eq_keys :: "'n json_ext \<Rightarrow> 'n Value \<Rightarrow> ustr set" where
  "eq_keys ext v = set_option (payload_index_key ext v)"

definition num_keys :: "'n json_ext \<Rightarrow> 'n Value \<Rightarrow> u64 set" where
  "num_keys ext v = set_option (numeric_payload_sort_key_from_value ext v)"

definition text_keys :: "'n json_ext \<Rightarrow> 'n Value \<Rightarrow> ustr set" where
  "text_keys ext v = (case as_str v of None \<Rightarrow> {} | Some s \<Rightarrow> set (tokenize ext s))"

lemmas key_defs = eq_keys_def num_keys_def text_keys_def

lemma insert_scalar_posts:
  "posts (equality (insert_scalar ext f v pid ix)) f' k = posts (equality ix) f' k \<union> (if f' = f \<and> k \<in> eq_keys ext v then {pid} else {})"
  "posts (numeric (insert_scalar ext f v pid ix)) f' k' = posts (numeric ix) f' k' \<union> (if f' = f \<and> k' \<in> num_keys ext v then {pid} else {})"
  "posts (text_terms (insert_scalar ext f v pid ix)) f' k = posts (text_terms ix) f' k \<union> (if f' = f \<and> k \<in> text_keys ext v then {pid} else {})"
  by (cases v; auto simp: insert_scalar_def key_defs payload_index_key_def as_str_def numeric_payload_sort_key_from_value_def
      as_f64_def Let_def split: option.splits)+

lemma remove_scalar_posts:
  "posts (equality (remove_scalar ext f v pid ix)) f' k = posts (equality ix) f' k - (if f' = f \<and> k \<in> eq_keys ext v then {pid} else {})"
  "posts (numeric (remove_scalar ext f v pid ix)) f' k' = posts (numeric ix) f' k' - (if f' = f \<and> k' \<in> num_keys ext v then {pid} else {})"
  "posts (text_terms (remove_scalar ext f v pid ix)) f' k = posts (text_terms ix) f' k - (if f' = f \<and> k \<in> text_keys ext v then {pid} else {})"
  by (cases v; auto simp: remove_scalar_def key_defs payload_index_key_def as_str_def numeric_payload_sort_key_from_value_def
      as_f64_def Let_def split: option.splits)+

lemma fold_concat_map:
  assumes "\<And>x s. x \<in> set xs \<Longrightarrow> g x s = fold h (w x) s"
  shows "fold g xs s = fold h (concat (map w xs)) s"
  using assms by (induction xs arbitrary: s) simp_all

lemma insert_payload_value_flat:
  "insert_payload_value ext F v pid ix = fold (\<lambda>(f, x). insert_scalar ext f x pid) (flat F v) ix"
  by (induction ext F v pid ix rule: insert_payload_value.induct) (simp_all, (rule fold_concat_map, blast)+)

lemma remove_payload_value_flat:
  "remove_payload_value ext F v pid ix = fold (\<lambda>(f, x). remove_scalar ext f x pid) (flat F v) ix"
  by (induction ext F v pid ix rule: remove_payload_value.induct) (simp_all, (rule fold_concat_map, blast)+)

lemma insert_payload_point_entries:
  "insert_payload_point ext pid payload ix = fold (\<lambda>(f, x). insert_scalar ext f x pid) (entries payload) ix"
  by (cases payload) (simp_all add: insert_payload_point_def entries_def,
      rule fold_concat_map, rule insert_payload_value_flat)

lemma remove_payload_point_entries:
  "remove_payload_point ext pid payload ix = fold (\<lambda>(f, x). remove_scalar ext f x pid) (entries payload) ix"
  by (cases payload) (simp_all add: remove_payload_point_def entries_def,
      rule fold_concat_map, rule remove_payload_value_flat)

text \<open>The points whose payload has an entry at a field with a key.\<close>

definition files :: "('n Value \<Rightarrow> 'k set) \<Rightarrow> (ustr \<times> 'n Value) list \<Rightarrow> ustr \<Rightarrow> 'k \<Rightarrow> bool" where
  "files keys es f k \<longleftrightarrow> (\<exists>v. (f, v) \<in> set es \<and> k \<in> keys v)"

definition owners :: "('n Value \<Rightarrow> 'k set) \<Rightarrow> (point_id \<rightharpoonup> 'n Value) \<Rightarrow> ustr \<Rightarrow> 'k \<Rightarrow> point_id set" where
  "owners keys points f k = {pid. \<exists>payload. points pid = Some payload \<and> files keys (entries payload) f k}"

lemma fold_insert_posts:
  assumes "\<And>f v ix f' k. posts (sel (insert_scalar ext f v pid ix)) f' k =
      posts (sel ix) f' k \<union> (if f' = f \<and> k \<in> keys v then {pid} else {})"
  shows "posts (sel (fold (\<lambda>(f, x). insert_scalar ext f x pid) es ix)) f' k =
    posts (sel ix) f' k \<union> (if files keys es f' k then {pid} else {})"
  by (induction es arbitrary: ix) (auto simp: assms files_def split: if_splits)

lemma fold_remove_posts:
  assumes "\<And>f v ix f' k. posts (sel (remove_scalar ext f v pid ix)) f' k =
      posts (sel ix) f' k - (if f' = f \<and> k \<in> keys v then {pid} else {})"
  shows "posts (sel (fold (\<lambda>(f, x). remove_scalar ext f x pid) es ix)) f' k =
    posts (sel ix) f' k - (if files keys es f' k then {pid} else {})"
  by (induction es arbitrary: ix) (auto simp: assms files_def split: if_splits)

definition represents :: "'n json_ext \<Rightarrow> PayloadIndex \<Rightarrow> (point_id \<rightharpoonup> 'n Value) \<Rightarrow> bool" where
  "represents ext ix points \<longleftrightarrow>
     posts (equality ix) = owners (eq_keys ext) points
     \<and> posts (numeric ix) = owners (num_keys ext) points
     \<and> posts (text_terms ix) = owners (text_keys ext) points"

lemma represents_default: "represents ext index_default Map.empty"
  by (auto simp: represents_def index_default_def posts_def owners_def or_empty_def fun_eq_iff)

lemma owners_insert:
  "points pid = None \<Longrightarrow> owners keys (points(pid \<mapsto> payload)) f k =
     owners keys points f k \<union> (if files keys (entries payload) f k then {pid} else {})"
  by (auto simp: owners_def)

lemma owners_remove:
  "points pid = Some payload \<Longrightarrow> owners keys (points(pid := None)) f k =
     owners keys points f k - (if files keys (entries payload) f k then {pid} else {})"
  by (auto simp: owners_def)

lemma represents_insert:
  assumes "represents ext ix points" "points pid = None"
  shows "represents ext (insert_payload_point ext pid payload ix) (points(pid \<mapsto> payload))"
  using assms by (simp add: represents_def insert_payload_point_entries owners_insert fun_eq_iff
      fold_insert_posts [where sel = equality, OF insert_scalar_posts(1)] fold_insert_posts [where sel = numeric, OF insert_scalar_posts(2)]
      fold_insert_posts [where sel = text_terms, OF insert_scalar_posts(3)])

lemma represents_remove:
  assumes "represents ext ix points" "points pid = Some payload"
  shows "represents ext (remove_payload_point ext pid payload ix) (points(pid := None))"
  using assms by (simp add: represents_def remove_payload_point_entries owners_remove fun_eq_iff
      fold_remove_posts [where sel = equality, OF remove_scalar_posts(1)] fold_remove_posts [where sel = numeric, OF remove_scalar_posts(2)]
      fold_remove_posts [where sel = text_terms, OF remove_scalar_posts(3)])

text \<open>A run of the index: points are inserted under fresh ids and removed with the payload they have.\<close>

inductive index_step :: "'n json_ext \<Rightarrow> PayloadIndex \<times> (point_id \<rightharpoonup> 'n Value) \<Rightarrow> PayloadIndex \<times> (point_id \<rightharpoonup> 'n Value) \<Rightarrow> bool"
  for ext where
  inserted: "points pid = None \<Longrightarrow> index_step ext (ix, points) (insert_payload_point ext pid payload ix, points(pid \<mapsto> payload))"
| removed: "points pid = Some payload \<Longrightarrow> index_step ext (ix, points) (remove_payload_point ext pid payload ix, points(pid := None))"

interpretation payload_index: invariant_system "\<lambda>s. s = (index_default, Map.empty)" "index_step ext"
    "\<lambda>(ix, points). represents ext ix points" for ext
  by unfold_locales (auto simp: represents_default represents_insert represents_remove elim: index_step.cases)

text \<open>
  C16. The payload index is exact: after any sequence of inserts and removals, the posting of a field and
  a key holds exactly the ids of the live points whose payload has an entry with that key at that
  field, for the equality, the numeric and the text postings.
\<close>

theorem payload_index_exact:
  assumes "(index_step ext)\<^sup>*\<^sup>* (index_default, Map.empty) (ix, points)"
  shows "posts (equality ix) f k = owners (eq_keys ext) points f k
    \<and> posts (numeric ix) f n = owners (num_keys ext) points f n
    \<and> posts (text_terms ix) f k = owners (text_keys ext) points f k"
  using payload_index.inv_reachable [OF refl assms] by (simp add: represents_def)

section \<open>Candidates cover the filter\<close>

definition NEG_ZERO :: u64 where "NEG_ZERO = push_bit 63 1"

definition plain_f64 :: "u64 \<Rightarrow> bool" where
  "plain_f64 x \<longleftrightarrow> f64_finite x \<and> x \<noteq> NEG_ZERO"

definition plain_number :: "'n json_ext \<Rightarrow> 'n \<Rightarrow> bool" where
  "plain_number ext n \<longleftrightarrow> (\<forall>x. num_f64 ext n = Some x \<longrightarrow> plain_f64 x)"

fun plain_numbers :: "'n json_ext \<Rightarrow> 'n Value \<Rightarrow> bool" where
  "plain_numbers ext (JArray vs) = list_all (plain_numbers ext) vs"
| "plain_numbers ext (JObject kvs) = list_all (\<lambda>kv. plain_numbers ext (snd kv)) kvs"
| "plain_numbers ext (JNumber n) = plain_number ext n"
| "plain_numbers ext _ = True"

text \<open>Equal numbers other than the two zeros have the same text.\<close>

definition numbers_print :: "'n json_ext \<Rightarrow> bool" where
  "numbers_print ext \<longleftrightarrow> (\<forall>m n. num_eq ext m n \<longrightarrow> plain_number ext m \<longrightarrow> plain_number ext n \<longrightarrow> num_text ext m = num_text ext n)"

lemma sort_key_ordered:
  assumes "plain_f64 x"
  shows "numeric_payload_sort_key x = Some (ordered_f64 x)"
proof -
  have "x OR push_bit 63 1 = x XOR push_bit 63 1" if "x AND push_bit 63 1 = 0"
    using that by (auto simp: bit_eq_iff bit_or_iff bit_xor_iff bit_and_iff)
  moreover have "x = 0" if "f64_num x = 0"
  proof -
    have *: "n = 0 \<or> n = m" if "n mod m = 0" "n < 2 * m" for n m :: nat
    proof -
      from that(1) obtain k where k: "n = m * k" by (auto simp: mod_eq_0_iff_dvd)
      have "k < 2"
      proof (rule ccontr)
        assume "\<not> k < 2"
        then have "m * 2 \<le> m * k" by simp
        with that(2) k show False by linarith
      qed
      then show ?thesis using k by (auto simp: less_2_cases_iff)
    qed
    have "unat x mod 2 ^ 63 = 0" using that by (auto simp: f64_num_def Let_def mag_units_eq_0 split: if_splits)
    then have "unat x = 0 \<or> unat x = 2 ^ 63" using unsigned_less [of x] by (intro *) simp_all
    moreover have "unat NEG_ZERO = 2 ^ 63" by (simp add: NEG_ZERO_def)
    moreover have "unat x \<noteq> unat NEG_ZERO" using assms by (simp add: plain_f64_def word_unat_eq_iff)
    ultimately show ?thesis by (simp add: word_unat_eq_iff)
  qed
  ultimately show ?thesis using assms
    by (auto simp: numeric_payload_sort_key_def ordered_f64_def plain_f64_def Let_def)
qed

lemma ordered_less: "ordered_f64 a < ordered_f64 b \<longleftrightarrow> f64_num a < f64_num b"
  by (simp add: word_less_nat_alt order_f64)

lemma ordered_le: "ordered_f64 a \<le> ordered_f64 b \<longleftrightarrow> f64_num a \<le> f64_num b"
  by (simp add: not_less [symmetric] ordered_less)

definition plain_option :: "u64 option \<Rightarrow> bool" where
  "plain_option x = none_or plain_f64 x"

definition plain_range :: "IndexedNumericRangeTerm \<Rightarrow> bool" where
  "plain_range r \<longleftrightarrow> plain_option (range_gt r) \<and> plain_option (range_gte r) \<and> plain_option (range_lt r) \<and> plain_option (range_lte r)"

lemma bounds_cover:
  assumes "range_matches r x" "plain_range r" "numeric_payload_range_bounds r = (lower, upper)"
  shows "lower_ok lower (ordered_f64 x) \<and> upper_ok upper (ordered_f64 x)"
  using assms
  by (auto simp: numeric_payload_range_bounds_def range_matches_def plain_range_def plain_option_def none_or_def key_bound_def
      sort_key_ordered lower_ok_def upper_ok_def ordered_less ordered_le f64_lt_def f64_le_def split: option.splits if_splits)

definition plain_predicate :: "'n json_ext \<Rightarrow> 'n IndexedFilterPredicate \<Rightarrow> bool" where
  "plain_predicate ext p =
     (case p of Equality t \<Rightarrow> \<forall>w \<in> set (term_values t). plain_numbers ext w | NumericRange r \<Rightarrow> plain_range r | Text t \<Rightarrow> required_terms t \<noteq> [])"

lemma plain_prefix [simp]: "plain_predicate ext (prefix_indexed_predicate_field F p) = plain_predicate ext p"
  by (cases p) (simp_all add: plain_predicate_def prefix_indexed_predicate_field_def plain_range_def)

lemma as_f64_plain: "as_f64 ext v = Some x \<Longrightarrow> plain_numbers ext v \<Longrightarrow> plain_f64 x"
  by (cases v) (auto simp: as_f64_def plain_number_def)

lemma range_loop_plain:
  "range_loop ext condition r = Some r' \<Longrightarrow> \<forall>ob \<in> set condition. plain_numbers ext (snd ob) \<Longrightarrow> plain_range r \<Longrightarrow> plain_range r'"
proof (induction ext condition r rule: range_loop.induct)
  case (2 ext op bound rest r)
  from 2(5) obtain b where b: "as_f64 ext bound = Some b" by (auto split: option.splits)
  with 2(6) have pb: "plain_f64 b" by (auto intro: as_f64_plain)
  note IH = 2(1-4) and prems = 2(5-7)
  consider "op = str ''gt''" | "op = str ''gte''" | "op = str ''lt''" | "op = str ''lte''"
    using 2(5) b by (auto split: if_splits)
  then show ?case
  proof cases
    case 1
    with IH(1) [OF b] prems b pb show ?thesis by (simp add: plain_range_def plain_option_def none_or_def)
  next
    case 2
    with IH(2) [OF b] prems b pb show ?thesis by (simp add: plain_range_def plain_option_def none_or_def)
  next
    case 3
    with IH(3) [OF b] prems b pb show ?thesis by (simp add: plain_range_def plain_option_def none_or_def)
  next
    case 4
    with IH(4) [OF b] prems b pb show ?thesis by (simp add: plain_range_def plain_option_def none_or_def)
  qed
qed simp

lemma plain_nested: "plain_numbers ext e \<Longrightarrow> plain_numbers ext (nested_filter e)"
  by (cases e) (auto simp: nested_filter_def get_def list_all_iff dest!: map_of_SomeD split: option.split)

lemma range_condition_plain:
  "range_condition ext F condition = Some ps \<Longrightarrow> \<forall>ob \<in> set condition. plain_numbers ext (snd ob) \<Longrightarrow> p \<in> set ps \<Longrightarrow> plain_predicate ext p"
  by (auto simp: range_condition_def plain_predicate_def plain_range_def plain_option_def none_or_def dest!: range_loop_plain)

lemma indexed_condition_plain:
  "indexed_condition ext field expected = Some ps \<Longrightarrow> plain_numbers ext expected \<Longrightarrow> p \<in> set ps \<Longrightarrow> plain_predicate ext p"
  and indexed_nested_plain:
  "indexed_nested_conditions ext field expected = Some ps \<Longrightarrow> plain_numbers ext expected \<Longrightarrow> p \<in> set ps \<Longrightarrow> plain_predicate ext p"
proof (induction ext field expected and ext field expected arbitrary: ps p and ps p
    rule: indexed_condition_indexed_nested_conditions.induct)
  case (1 ext field expected)
  show ?case
  proof (cases expected)
    case (JObject condition)
    have range: "range_condition ext F condition = Some ps \<Longrightarrow> plain_predicate ext p" for F
      using 1(3,4) by (auto simp: JObject list_all_iff intro: range_condition_plain)
    show ?thesis
    proof (cases "\<exists>op bound. condition = [(op, bound)]")
      case False
      then show ?thesis
        using 1(2) range by (auto simp: indexed_condition.simps Let_def JObject split: list.splits prod.splits)
    next
      case True
      then obtain op bound where ob: "condition = [(op, bound)]" by blast
      note i = 1(2) [unfolded indexed_condition.simps JObject ob Let_def, simplified]
      have b: "plain_numbers ext bound" using 1(3) by (simp add: JObject ob)
      consider "op = str ''eq''" "is_indexable_value bound" | "op = str ''in''" | "op = str ''nested''" | "op = str ''text''"
        | "range_condition ext (normalize_index_field field) condition = Some ps"
        using i ob by (auto split: if_splits)
      then show ?thesis
      proof cases
        case 1
        with i b \<open>p \<in> set ps\<close> show ?thesis by (auto simp: equality_term_def plain_predicate_def)
      next
        case 2
        with i obtain vs where "bound = JArray vs" "equality_term (normalize_index_field field) vs = Some ps"
          by (cases bound) (auto simp: as_array_def split: if_splits)
        with b \<open>p \<in> set ps\<close> show ?thesis by (auto simp: equality_term_def plain_predicate_def list_all_iff)
      next
        case 3
        with i have "indexed_nested_conditions ext (normalize_index_field field) bound = Some ps" by simp
        then show ?thesis by (rule 1(1) [OF refl JObject ob refl, rotated -3]) (use 3 b \<open>p \<in> set ps\<close> in simp_all)
      next
        case 4
        with i \<open>p \<in> set ps\<close> show ?thesis by (auto simp: plain_predicate_def Let_def split: if_splits)
      next
        case 5
        then show ?thesis by (rule range)
      qed
    qed
  qed (use 1(2-4) in \<open>auto simp: indexed_condition.simps Let_def equality_term_def plain_predicate_def is_indexable_value_def\<close>)
next
  case (2 ext field expected)
  from 2(2) obtain conditions where c: "nested_filter expected = JObject conditions"
    by (auto simp: indexed_nested_conditions.simps split: Value.splits)
  with plain_nested [OF 2(3)] have pl: "plain_numbers ext ne" if "(nf, ne) \<in> set conditions" for nf ne
    using that by (auto simp: list_all_iff)
  from 2(2,4) c obtain nf ne qs q where q: "(nf, ne) \<in> set conditions" "indexed_condition ext nf ne = Some qs" "q \<in> set qs"
      "p = prefix_indexed_predicate_field field q"
    by (auto simp: indexed_nested_conditions.simps split: option.splits) metis
  show ?case using 2(1) [OF c q(1) refl q(2) pl [OF q(1)] q(3)] by (simp add: q(4))
qed

section \<open>The candidates contain every match\<close>

lemma fold_union_member:
  "x \<in> fold (\<lambda>v ids. case key v of None \<Rightarrow> ids | Some k \<Rightarrow> ids \<union> g k) vs s \<longleftrightarrow> x \<in> s \<or> (\<exists>v \<in> set vs. \<exists>k. key v = Some k \<and> x \<in> g k)"
  by (induction vs arbitrary: s) (auto split: option.splits)

lemma equality_candidates_mem:
  "pid \<in> equality_payload_candidates ext ix t \<longleftrightarrow>
     (\<exists>w \<in> set (term_values t). \<exists>k. payload_index_key ext w = Some k \<and> pid \<in> posts (equality ix) (term_field t) k)"
  by (cases "map_of (equality ix) (term_field t)")
    (auto simp: equality_payload_candidates_def fold_union_member posts_def or_empty_def)

lemma fold_range_mono: "s \<subseteq> fold (\<lambda>(k, ids) acc. if P k then acc \<union> ids else acc) vs s"
proof (induction vs arbitrary: s)
  case (Cons kv vs)
  let ?s = "case kv of (k, ids) \<Rightarrow> if P k then s \<union> ids else s"
  have "s \<subseteq> ?s" by (auto split: prod.split)
  also note Cons.IH [of ?s]
  finally show ?case by (simp add: case_prod_beta)
qed simp

lemma fold_range_member:
  assumes "(k, ids) \<in> set vs" "P k"
  shows "ids \<subseteq> fold (\<lambda>(k, ids) acc. if P k then acc \<union> ids else acc) vs s"
  using assms(1)
proof (induction vs arbitrary: s)
  case (Cons kv vs)
  show ?case
  proof (cases "kv = (k, ids)")
    case True
    then show ?thesis using assms(2) fold_range_mono [where s = "s \<union> ids" and P = P and vs = vs] by simp
  next
    case False
    with Cons.prems have "(k, ids) \<in> set vs" by simp
    then show ?thesis using Cons.IH by (simp add: case_prod_beta)
  qed
qed simp

lemma numeric_candidates_mem:
  assumes "numeric_range_payload_candidates ix t = Inr ids" "numeric_payload_range_bounds t = (lower, upper)"
    and "lower_ok lower k" "upper_ok upper k" "pid \<in> posts (numeric ix) (range_field t) k"
  shows "pid \<in> ids"
proof -
  from assms(5) obtain vs s where vs: "map_of (numeric ix) (range_field t) = Some vs" "map_of vs k = Some s" "pid \<in> s"
    by (auto simp: posts_def or_empty_def split: option.splits)
  have ids: "ids = fold (\<lambda>(k, ids) acc. if lower_ok lower k \<and> upper_ok upper k then acc \<union> ids else acc) vs {}"
    using assms(1,2) vs(1) by (simp add: numeric_range_payload_candidates_def split: if_splits)
  show ?thesis unfolding ids
    using fold_range_member [OF map_of_SomeD [OF vs(2)], of "\<lambda>k. lower_ok lower k \<and> upper_ok upper k"] assms(3,4) vs(3) by blast
qed

lemma fold_intersect_member:
  "x \<in> or_empty (fold (\<lambda>w cs. intersect_opt cs (g w)) ws cs) \<longleftrightarrow>
     (if ws = [] then x \<in> or_empty cs else (cs = None \<or> x \<in> or_empty cs) \<and> (\<forall>w \<in> set ws. x \<in> g w))"
  by (induction ws arbitrary: cs) (auto simp: intersect_opt_def or_empty_def split: option.splits)

lemma text_candidates_mem:
  assumes "required_terms t \<noteq> []" "\<And>w. w \<in> set (required_terms t) \<Longrightarrow> pid \<in> posts (text_terms ix) (text_field t) w"
  shows "pid \<in> text_payload_candidates ix t"
proof -
  obtain w where "w \<in> set (required_terms t)" using assms(1) by (cases "required_terms t") auto
  with assms(2) obtain vs where "map_of (text_terms ix) (text_field t) = Some vs"
    by (fastforce simp: posts_def or_empty_def split: option.splits)
  with assms show ?thesis by (simp add: text_payload_candidates_def fold_intersect_member posts_def)
qed

lemma foldE_intersect:
  assumes "foldE (\<lambda>cs p. bindE (g p) (\<lambda>ids. Inr (intersect_opt cs ids))) cs ps = Inr (Some res)"
    and "\<And>p ids. p \<in> set ps \<Longrightarrow> g p = Inr ids \<Longrightarrow> x \<in> ids" "cs = None \<or> x \<in> or_empty cs"
  shows "x \<in> res"
  using assms
proof (induction ps arbitrary: cs)
  case (Cons p ps)
  from Cons.prems(1) obtain ids where ids: "g p = Inr ids"
    "foldE (\<lambda>cs p. bindE (g p) (\<lambda>ids. Inr (intersect_opt cs ids))) (intersect_opt cs ids) ps = Inr (Some res)"
    by (auto simp: bindE_eq_Inr)
  have "x \<in> ids" using Cons.prems(2) ids(1) by auto
  then show ?case using Cons.IH [OF ids(2)] Cons.prems(2,3)
    by (auto simp: intersect_opt_def or_empty_def split: option.splits)
qed (auto simp: or_empty_def)

lemma entries_plain: "(f, v) \<in> set (flat F x) \<Longrightarrow> plain_numbers ext x \<Longrightarrow> plain_numbers ext v"
  by (induction F x rule: flat.induct) (fastforce simp: list_all_iff)+

lemma payload_entries_plain: "(f, v) \<in> set (entries payload) \<Longrightarrow> plain_numbers ext payload \<Longrightarrow> plain_numbers ext v"
  by (cases payload) (auto simp: entries_def list_all_iff intro: entries_plain)

lemma value_eq_key:
  assumes "value_eq ext v w \<or> value_eq ext w v" "plain_numbers ext v" "plain_numbers ext w" "numbers_print ext"
    and "payload_index_key ext w = Some k"
  shows "payload_index_key ext v = Some k"
  using assms by (cases v; cases w) (auto simp: payload_index_key_def numbers_print_def)

lemma value_eq_indexed: "value_eq ext v w \<or> value_eq ext w v \<Longrightarrow> payload_index_key ext v \<noteq> None \<Longrightarrow> payload_index_key ext w \<noteq> None"
  by (cases v; cases w) (auto simp: payload_index_key_def)

lemma flat_indexed: "(f, v) \<in> set (flat F x) \<Longrightarrow> payload_index_key ext v \<noteq> None"
  by (induction F x rule: flat.induct) (auto simp: payload_index_key_def)

lemma entries_indexed: "(f, v) \<in> set (entries payload) \<Longrightarrow> payload_index_key ext v \<noteq> None"
  by (cases payload) (auto simp: entries_def dest: flat_indexed)

lemma predicate_candidate:
  assumes rep: "represents ext ix points" and pid: "points pid = Some payload"
    and p: "predicate_holds ext (set (entries payload)) p" "plain_predicate ext p"
    and pl: "plain_numbers ext payload" "numbers_print ext" and ids: "predicate_candidates ext ix p = Inr ids"
  shows "pid \<in> ids"
proof (cases p)
  case (Equality t)
  with p(1) obtain v w where vw: "(term_field t, v) \<in> set (entries payload)" "w \<in> set (term_values t)"
      "value_eq ext v w \<or> value_eq ext w v" by (auto simp: predicate_holds_def)
  from value_eq_indexed [OF vw(3) entries_indexed [OF vw(1)]] obtain k where k: "payload_index_key ext w = Some k" by blast
  have "plain_numbers ext w" using p(2) vw(2) by (auto simp: Equality plain_predicate_def)
  from value_eq_key [OF vw(3) payload_entries_plain [OF vw(1) pl(1)] this pl(2) k]
  have "pid \<in> posts (equality ix) (term_field t) k"
    using rep pid vw(1) by (auto simp: represents_def owners_def files_def eq_keys_def)
  with ids vw(2) k show ?thesis by (auto simp: Equality predicate_candidates_def equality_candidates_mem)
next
  case (NumericRange r)
  with p(1) obtain v x where vx: "(range_field r, v) \<in> set (entries payload)" "as_f64 ext v = Some x" "range_matches r x"
    by (auto simp: predicate_holds_def)
  obtain lower upper where b: "numeric_payload_range_bounds r = (lower, upper)" by fastforce
  have "plain_f64 x" using as_f64_plain [OF vx(2) payload_entries_plain [OF vx(1) pl(1)]] .
  with rep pid vx have "pid \<in> posts (numeric ix) (range_field r) (ordered_f64 x)"
    by (auto simp: represents_def owners_def files_def num_keys_def numeric_payload_sort_key_from_value_def sort_key_ordered)
  with bounds_cover [OF vx(3) _ b] p(2) ids show ?thesis
    by (auto simp: NumericRange predicate_candidates_def plain_predicate_def intro: numeric_candidates_mem [OF _ b])
next
  case (Text t)
  with p(1) obtain s where s: "(text_field t, JString s) \<in> set (entries payload)" "set (required_terms t) \<subseteq> set (tokenize ext s)"
    by (auto simp: predicate_holds_def)
  have "pid \<in> posts (text_terms ix) (text_field t) w" if "w \<in> set (required_terms t)" for w
    using rep pid s that by (fastforce simp: represents_def owners_def files_def text_keys_def as_str_def)
  then have "pid \<in> text_payload_candidates ix t"
    using p(2) by (intro text_candidates_mem) (auto simp: Text plain_predicate_def)
  with ids show ?thesis by (simp add: Text predicate_candidates_def)
qed

lemma represents_cover:
  assumes rep: "represents ext ix points"
    and "payload_filter_candidates ext ix (Some f) = Inr (Some ids)"
    and "points pid = Some payload" and "filter_matches ext f payload"
    and "no_empty_object f" and "plain_numbers ext f"
    and "\<not> is_array payload" and "clean_keys payload" and "plain_numbers ext payload" and "numbers_print ext"
  shows "pid \<in> ids"
proof -
  from assms(2) obtain conditions ps where f: "f = JObject conditions" and ps: "indexed_predicates ext f = Some ps"
    and fold: "foldE (\<lambda>cs p. bindE (predicate_candidates ext ix p) (\<lambda>ids. Inr (intersect_opt cs ids))) None ps = Inr (Some ids)"
    by (auto simp: payload_filter_candidates_def indexed_predicates_def split: option.splits if_splits Value.splits)
  show ?thesis
  proof (rule foldE_intersect [OF fold])
    fix p s assume p: "p \<in> set ps" "predicate_candidates ext ix p = Inr s"
    from ps f have "indexed_loop ext conditions = Some ps" by (simp add: indexed_predicates_def)
    from indexed_loop_member [OF this p(1)] obtain field expected qs where
      q: "(field, expected) \<in> set conditions" "indexed_condition ext field expected = Some qs" "p \<in> set qs" by blast
    have "plain_numbers ext expected" using assms(6) q(1) by (auto simp: f list_all_iff)
    with q show "pid \<in> s"
      using predicates_cover [OF ps assms(4,5,8,7) p(1)]
      by (intro predicate_candidate [OF rep assms(3) _ _ assms(9,10) p(2)]) (auto intro: indexed_condition_plain)
  qed simp
qed


section \<open>Examples\<close>

definition one_point :: "'n json_ext \<Rightarrow> 'n Value \<Rightarrow> PayloadIndex" where
  "one_point ext payload = insert_payload_point ext (str ''p'') payload index_default"

lemma one_point_reachable:
  "(index_step ext)\<^sup>*\<^sup>* (index_default, Map.empty) (one_point ext payload, [str ''p'' \<mapsto> payload])"
  unfolding one_point_def by (rule r_into_rtranclp) (rule inserted, simp)

theorem payload_index_exact_witness:
  "(index_step nat_ext)\<^sup>*\<^sup>* (index_default, Map.empty)
     (one_point nat_ext (JObject [(str ''a'', JString (str ''x''))]), [str ''p'' \<mapsto> JObject [(str ''a'', JString (str ''x''))]]) \<and>
   posts (equality (one_point nat_ext (JObject [(str ''a'', JString (str ''x''))]))) (str ''a'') (str ''string:x'') = {str ''p''}"
  using payload_index_exact [OF one_point_reachable [of nat_ext "JObject [(str ''a'', JString (str ''x''))]"],
      of "str ''a''" "str ''string:x''"] one_point_reachable
  by (auto simp: owners_def files_def eq_keys_def entries_def payload_index_key_def str_def split: if_splits)

lemmas index_eval = payload_filter_candidates_def predicate_candidates_def equality_payload_candidates_def
  numeric_range_payload_candidates_def numeric_payload_range_bounds_def key_bound_def numeric_payload_sort_key_def
  range_panics_def range_condition_def one_point_def insert_payload_point_def index_default_def insert_scalar_def insert_posting_def
  payload_index_key_def as_str_def numeric_payload_sort_key_from_value_def as_f64_def or_empty_def intersect_opt_def
  f64_finite_def f64_le_def f64_lt_def f64_nan_def lower_ok_def upper_ok_def compare_numbers_def


text \<open>Numbers for examples that are doubles, by their bits.\<close>

definition bits_ext :: "u64 json_ext" where
  "bits_ext = \<lparr>num_eq = (=), num_f64 = Some, num_text = (\<lambda>n. [unat n]), alphanumeric = (\<lambda>c. 97 \<le> c \<and> c \<le> 122)\<rparr>"

text \<open>A client's filter with reversed bounds, above 10 and below 5, panics once the field holds a number.\<close>

lemma reversed_range_panics:
  "payload_filter_candidates bits_ext (one_point bits_ext (JObject [(str ''price'', JNumber 0x401c000000000000)]))
     (Some (JObject [(str ''price'', JObject [(str ''gt'', JNumber 0x4024000000000000), (str ''lt'', JNumber 0x4014000000000000)])]))
   = Inl ()"
  by (simp add: filter_eval index_eval bits_ext_def)

text \<open>A condition without operators matches every value, but is read as a numeric range by the index.\<close>

lemma empty_condition_lost:
  "let f = JObject [(str ''name'', JObject [])]; payload = JObject [(str ''name'', JString (str ''x''))]
   in filter_matches nat_ext f payload \<and>
      payload_filter_candidates nat_ext (one_point nat_ext payload) (Some f) = Inr (Some {})"
  by (simp add: filter_eval index_eval nat_ext_def)

text \<open>A payload key that ends in the array marker is matched as written, but looked up without the marker.\<close>

lemma marker_key_lost:
  "let f = JObject [(str ''tags[]'', JString (str ''x''))]; payload = JObject [(str ''tags[]'', JString (str ''x''))]
   in filter_matches nat_ext f payload \<and>
      payload_filter_candidates nat_ext (one_point nat_ext payload) (Some f) = Inr (Some {})"
  by (simp add: filter_eval index_eval nat_ext_def)

text \<open>The negative zero is at least zero, but is filed below it.\<close>

lemma negative_zero_lost:
  "let f = JObject [(str ''x'', JObject [(str ''gte'', JNumber 0)])]; payload = JObject [(str ''x'', JNumber 0x8000000000000000)]
   in filter_matches bits_ext f payload \<and>
      payload_filter_candidates bits_ext (one_point bits_ext payload) (Some f) = Inr (Some {})"
  by (simp add: filter_eval index_eval bits_ext_def f64_num_def mag_units_def)

text \<open>A payload that is an array is searched by the filter, but not indexed.\<close>

lemma array_payload_lost:
  "let f = JObject [(str ''a'', JString (str ''x''))]; payload = JArray [JObject [(str ''a'', JString (str ''x''))]]
   in filter_matches nat_ext f payload \<and>
      payload_filter_candidates nat_ext (one_point nat_ext payload) (Some f) = Inr (Some {})"
  by (simp add: filter_eval index_eval nat_ext_def)

end
