(* ===== verification/Collection_Reads.thy ===== *)
theory Collection_Reads
  imports Tenant_Scope Payload_Index
begin

text \<open>
  Reading a collection page by page, after \<open>count_unguarded\<close> and \<open>scroll_unguarded\<close> of
  \<open>chirondb-core/src/db.rs\<close>, and the tenant migration of \<open>chirondb-server/src/bin/gaussctl.rs\<close>, which
  scrolls through a collection and stamps the points without a tenant.

  A collection is the list of its live points, id and payload, with its payload index; sealed segments,
  whose postings are ordinals, are left out. The migration is a loop against a server, so it is a
  partial function, and that it ends is a theorem.
\<close>

datatype read_error = Refused "tenant_msg GaussError" | Complexity filter_msg | Range_panic

type_synonym 'n live = "(ustr \<times> 'n Value) list"

definition passes :: "'n json_ext \<Rightarrow> 'n Value option \<Rightarrow> 'n Value \<Rightarrow> bool" where
  "passes ext f payload = (case f of None \<Rightarrow> True | Some v \<Rightarrow> filter_matches ext v payload)"

definition validate_filter_complexity :: "'n Value option \<Rightarrow> read_error + unit" where
  "validate_filter_complexity f = map_err Complexity (case f of None \<Rightarrow> Inr () | Some v \<Rightarrow> validate_complexity v)"

definition payload_candidates :: "'n json_ext \<Rightarrow> PayloadIndex \<Rightarrow> 'n Value option \<Rightarrow> read_error + point_id set option" where
  "payload_candidates ext ix f = map_err (\<lambda>_. Range_panic) (payload_filter_candidates ext ix f)"

definition read_source :: "point_id set option \<Rightarrow> 'n live \<Rightarrow> 'n live" where
  "read_source candidates live = (case candidates of None \<Rightarrow> live | Some ids \<Rightarrow> filter (\<lambda>p. fst p \<in> ids) live)"

definition count_unguarded :: "'n json_ext \<Rightarrow> PayloadIndex \<Rightarrow> 'n live \<Rightarrow> 'n Value option \<Rightarrow> read_error + nat" where
  "count_unguarded ext ix live f =
     bindE (validate_filter_complexity f) (\<lambda>_.
     bindE (payload_candidates ext ix f) (\<lambda>candidates.
     Inr (fold (\<lambda>p n. if passes ext f (snd p) then n + 1 else n) (read_source candidates live) 0)))"

definition scroll_unguarded ::
  "'n json_ext \<Rightarrow> PayloadIndex \<Rightarrow> 'n live \<Rightarrow> ustr option \<Rightarrow> nat \<Rightarrow> 'n Value option \<Rightarrow> read_error + 'n live \<times> ustr option" where
  "scroll_unguarded ext ix live offset limit f =
     bindE (validate_filter_complexity f) (\<lambda>_.
     bindE (payload_candidates ext ix f) (\<lambda>candidates.
     let points = sort_key fst (filter (\<lambda>p. passes ext f (snd p)) (read_source candidates live));
         start_pos = (case offset of None \<Rightarrow> 0 | Some cursor \<Rightarrow> length (takeWhile (\<lambda>p. \<not> cursor < fst p) points));
         page = take limit (drop start_pos points);
         has_more = start_pos + length page < length points in
     Inr (page, if has_more then (if page = [] then None else Some (fst (last page))) else None)))"

definition scroll_scoped ::
  "'n json_ext \<Rightarrow> TenantScope \<Rightarrow> TenantEnforcement \<Rightarrow> PayloadIndex \<Rightarrow> 'n live \<Rightarrow> ustr option \<Rightarrow> nat \<Rightarrow> 'n Value option
     \<Rightarrow> read_error + 'n live \<times> ustr option" where
  "scroll_scoped ext s enforcement ix live offset limit f =
     bindE (map_err Refused (snd (scope_filter s enforcement f))) (\<lambda>f.
     scroll_unguarded ext ix live offset limit f)"

definition count_scoped ::
  "'n json_ext \<Rightarrow> TenantScope \<Rightarrow> TenantEnforcement \<Rightarrow> PayloadIndex \<Rightarrow> 'n live \<Rightarrow> 'n Value option \<Rightarrow> read_error + nat" where
  "count_scoped ext s enforcement ix live f =
     bindE (map_err Refused (snd (scope_filter s enforcement f))) (\<lambda>f. count_unguarded ext ix live f)"

section \<open>The tenant migration\<close>

record tallies =
  scanned :: nat
  untenanted :: nat
  stamped :: nat

definition backfill_point ::
  "'n json_ext \<Rightarrow> TenantScope \<Rightarrow> TenantEnforcement \<Rightarrow> ustr option \<Rightarrow> 'n live \<times> tallies \<Rightarrow> ustr \<times> 'n Value
     \<Rightarrow> read_error + 'n live \<times> tallies" where
  "backfill_point ext s enforcement tenant st p =
     (let live = fst st; n = (snd st)\<lparr>scanned := scanned (snd st) + 1\<rparr> in
      if get (snd p) TENANT_FIELD \<noteq> None then Inr (live, n)
      else let n = n\<lparr>untenanted := untenanted n + 1\<rparr> in
        case tenant of None \<Rightarrow> Inr (live, n)
        | Some t \<Rightarrow>
            bindE (map_err Refused (set_payload_candidate ext s enforcement (map_of live) (fst p) (JObject [(TENANT_FIELD, JString t)]) True)) (\<lambda>payload.
            Inr (btree_insert (fst p) payload live, n\<lparr>stamped := stamped n + 1\<rparr>)))"

partial_function (option) backfill_loop ::
  "'n json_ext \<Rightarrow> TenantScope \<Rightarrow> TenantEnforcement \<Rightarrow> PayloadIndex \<Rightarrow> ustr option \<Rightarrow> nat \<Rightarrow> 'n live \<times> tallies \<Rightarrow> ustr option
     \<Rightarrow> (read_error + 'n live \<times> tallies) option" where
  "backfill_loop ext s enforcement ix tenant batch st offset =
     (case scroll_scoped ext s enforcement ix (fst st) offset batch None of
        Inl e \<Rightarrow> Some (Inl e)
      | Inr page_next \<Rightarrow>
          if fst page_next = [] then Some (Inr st)
          else case foldE (backfill_point ext s enforcement tenant) st (fst page_next) of
            Inl e \<Rightarrow> Some (Inl e)
          | Inr st' \<Rightarrow>
              (case snd page_next of
                 None \<Rightarrow> Some (Inr st')
               | Some next \<Rightarrow> backfill_loop ext s enforcement ix tenant batch st' (Some next)))"

record 'n backfill_report =
  rep_scanned :: nat
  rep_untenanted :: nat
  rep_stamped :: nat
  remaining_untenanted :: nat
  ready_for_enforcement :: bool
  rep_live :: "'n live"

definition tenant_backfill ::
  "'n json_ext \<Rightarrow> TenantScope \<Rightarrow> TenantEnforcement \<Rightarrow> PayloadIndex \<Rightarrow> ustr option \<Rightarrow> nat \<Rightarrow> 'n live \<Rightarrow> (read_error + 'n backfill_report) option" where
  "tenant_backfill ext s enforcement ix tenant batch live =
     map_option (\<lambda>r. bindE r (\<lambda>(live', n). Inr
        \<lparr>rep_scanned = scanned n, rep_untenanted = untenanted n, rep_stamped = stamped n,
         remaining_untenanted = untenanted n - stamped n, ready_for_enforcement = (untenanted n - stamped n = 0),
         rep_live = live'\<rparr>))
       (backfill_loop ext s enforcement ix tenant batch (live, \<lparr>scanned = 0, untenanted = 0, stamped = 0\<rparr>) None)"

section \<open>Reads through the index\<close>

text \<open>The points of a collection a filter matches, by a scan of all points, in the order of their ids.\<close>

definition matching :: "'n json_ext \<Rightarrow> 'n live \<Rightarrow> 'n Value option \<Rightarrow> 'n live" where
  "matching ext live f = sort_key fst (filter (\<lambda>p. passes ext f (snd p)) live)"

definition indexable :: "'n json_ext \<Rightarrow> 'n Value option \<Rightarrow> 'n live \<Rightarrow> bool" where
  "indexable ext f live \<longleftrightarrow>
     (\<forall>v. f = Some v \<longrightarrow> no_empty_object v \<and> plain_numbers ext v) \<and> numbers_print ext
   \<and> (\<forall>(_, p) \<in> set live. \<not> is_array p \<and> clean_keys p \<and> plain_numbers ext p)"

lemma passes_source:
  assumes "represents ext ix (map_of live)" "distinct (map fst live)" "indexable ext f live" "payload_candidates ext ix f = Inr candidates"
  shows "filter (\<lambda>p. passes ext f (snd p)) (read_source candidates live) = filter (\<lambda>p. passes ext f (snd p)) live"
proof (cases candidates)
  case (Some ids)
  then obtain v where v: "f = Some v" "payload_filter_candidates ext ix (Some v) = Inr (Some ids)"
    using assms(4) by (cases f) (auto simp: payload_candidates_def payload_filter_candidates_def res_simps)
  have "fst p \<in> ids" if "p \<in> set live" "filter_matches ext v (snd p)" for p
  proof -
    have "map_of live (fst p) = Some (snd p)" using that(1) assms(2) by simp
    then show ?thesis
      using represents_cover [OF assms(1) v(2) _ that(2)] assms(3) that(1) by (force simp: indexable_def v(1))
  qed
  then have "filter (\<lambda>p. passes ext f (snd p) \<and> fst p \<in> ids) live = filter (\<lambda>p. passes ext f (snd p)) live"
    by (intro filter_cong) (auto simp: passes_def v(1))
  then show ?thesis by (simp add: read_source_def Some conj_commute)
qed (simp add: read_source_def)

lemma count_fold: "fold (\<lambda>p n. if P p then n + 1 else n) xs (k :: nat) = k + length (filter P xs)"
  by (induction xs arbitrary: k) auto



section \<open>The migration ends\<close>

text \<open>A collection with the keys \<open>ks\<close>, listed in key order.\<close>

definition listing :: "(ustr \<rightharpoonup> 'n Value) \<Rightarrow> ustr list \<Rightarrow> 'n live" where
  "listing m ks = map (\<lambda>i. (i, the (m i))) ks"

definition stamped_payload :: "ustr option \<Rightarrow> 'n Value \<Rightarrow> 'n Value" where
  "stamped_payload tenant p =
     (if get p TENANT_FIELD \<noteq> None then p
      else case tenant of None \<Rightarrow> p | Some t \<Rightarrow> merged_payload True p (JObject [(TENANT_FIELD, JString t)]))"

lemma stamped_payload_None: "stamped_payload None p = p"
  by (simp add: stamped_payload_def)

lemma stamped_payload_Some: "\<exists>v. get (stamped_payload (Some t) p) TENANT_FIELD = Some v"
  by (cases p) (auto simp: stamped_payload_def merged_payload_def get_def)

definition stamp_keys :: "ustr option \<Rightarrow> ustr set \<Rightarrow> (ustr \<rightharpoonup> 'n Value) \<Rightarrow> (ustr \<rightharpoonup> 'n Value)" where
  "stamp_keys tenant ks m = (\<lambda>i. if i \<in> ks then map_option (stamped_payload tenant) (m i) else m i)"

definition without_tenant :: "(ustr \<rightharpoonup> 'n Value) \<Rightarrow> ustr list \<Rightarrow> nat" where
  "without_tenant m ks = length (filter (\<lambda>i. get (the (m i)) TENANT_FIELD = None) ks)"

lemma listing_simps [simp]: "map fst (listing m ks) = ks" "length (listing m ks) = length ks"
  by (simp_all add: listing_def o_def)

lemma map_of_listing_at: "map_of (listing m ks) i = (if i \<in> set ks then Some (the (m i)) else None)"
  by (induction ks) (auto simp: listing_def)

lemma map_of_listing: "set ks = dom m \<Longrightarrow> map_of (listing m ks) = m"
proof
  fix i assume k: "set ks = dom m"
  have "map_of (listing m ks) i = (if i \<in> set ks then Some (the (m i)) else None)" by (rule map_of_listing_at)
  then show "map_of (listing m ks) i = m i" using k by auto
qed

lemma listing_insert:
  "sorted_wrt (<) ks \<Longrightarrow> i \<in> set ks \<Longrightarrow> btree_insert i v (listing m ks) = listing (m(i \<mapsto> v)) ks"
proof (induction ks)
  case (Cons k ks)
  have "\<forall>j \<in> set ks. k < j" using Cons.prems by simp
  then have "k \<notin> set ks" by blast
  then have "listing (m(k \<mapsto> v)) ks = listing m ks" by (auto simp: listing_def)
  then show ?case using Cons by (auto simp: listing_def)
qed simp

lemma set_payload_Disabled:
  "points i = Some p \<Longrightarrow> set_payload_candidate ext s Disabled points i payload merge = Inr (merged_payload merge p payload)"
  by (simp add: set_payload_candidate_def stamp_payload_def authorize_replacement_def may_write_payload_def)

definition tally :: "ustr option \<Rightarrow> (ustr \<rightharpoonup> 'n Value) \<Rightarrow> ustr list \<Rightarrow> tallies \<Rightarrow> tallies" where
  "tally tenant m is n =
     n\<lparr>scanned := scanned n + length is, untenanted := untenanted n + without_tenant m is,
       stamped := stamped n + (if tenant = None then 0 else without_tenant m is)\<rparr>"

lemma backfill_point_Disabled:
  assumes "sorted_wrt (<) ks" "set ks = dom m" "m i = Some p"
  shows "backfill_point ext s Disabled tenant (listing m ks, n) (i, p) = Inr (listing (stamp_keys tenant {i} m) ks, tally tenant m [i] n)"
proof -
  have i: "i \<in> set ks" using assms(2,3) by auto
  have "stamp_keys tenant {i} m = m(i \<mapsto> stamped_payload tenant p)" using assms(3) by (auto simp: stamp_keys_def)
  moreover have "m(i \<mapsto> p) = m" using assms(3) by auto
  ultimately show ?thesis using assms(3) i
    by (cases tenant) (auto simp: backfill_point_def Let_def set_payload_Disabled map_of_listing [OF assms(2)] listing_insert [OF assms(1)]
        stamped_payload_def tally_def without_tenant_def)
qed

lemma stamp_keys_insert: "stamp_keys tenant (insert i ks) m = stamp_keys tenant ks (stamp_keys tenant {i} m)" if "i \<notin> ks"
  using that by (auto simp: stamp_keys_def)

lemma dom_stamp_keys [simp]: "dom (stamp_keys tenant ks m) = dom m"
  by (auto simp: stamp_keys_def split: if_splits)

lemma tally_Cons: "i \<notin> set is \<Longrightarrow> tally tenant (stamp_keys tenant {i} m) is (tally tenant m [i] n) = tally tenant m (i # is) n"
proof -
  assume "i \<notin> set is"
  then have "without_tenant (stamp_keys tenant {i} m) is = without_tenant m is"
    unfolding without_tenant_def by (intro arg_cong [where f = length] filter_cong) (auto simp: stamp_keys_def)
  then show ?thesis by (simp add: tally_def) (simp add: without_tenant_def)
qed

lemma backfill_page:
  assumes "sorted_wrt (<) ks" "set ks = dom m" "distinct is" "set is \<subseteq> set ks"
  shows "foldE (backfill_point ext s Disabled tenant) (listing m ks, n) (listing m is) =
     Inr (listing (stamp_keys tenant (set is) m) ks, tally tenant m is n)"
  using assms
proof (induction "is" arbitrary: m n)
  case Nil
  then show ?case by (simp add: listing_def stamp_keys_def tally_def without_tenant_def)
next
  case (Cons i "is")
  have "i \<in> dom m" using Cons.prems(2,4) by auto
  then obtain p where p: "m i = Some p" by auto
  have same: "listing m is = listing (stamp_keys tenant {i} m) is" using Cons.prems(3) by (auto simp: listing_def stamp_keys_def)
  let ?m = "stamp_keys tenant {i} m"
  have i: "i \<notin> set is" using Cons.prems(3) by simp
  have hd: "listing m (i # is) = (i, p) # listing ?m is" using p same by (simp add: listing_def)
  note point = backfill_point_Disabled [OF Cons.prems(1,2) p, of ext s tenant n]
  have "foldE (backfill_point ext s Disabled tenant) (listing ?m ks, tally tenant m [i] n) (listing ?m is) =
      Inr (listing (stamp_keys tenant (set is) ?m) ks, tally tenant ?m is (tally tenant m [i] n))"
    using Cons.prems by (intro Cons.IH) auto
  then show ?case unfolding hd foldE.simps point bindE_Inr by (simp only: tally_Cons [OF i] list.set(2) stamp_keys_insert [OF i])
qed

lemma scroll_listing:
  assumes "sorted_wrt (<) ks" "set ks = dom m" "k \<le> length ks"
  shows "scroll_scoped ext s Disabled ix (listing m ks) (if k = 0 then None else Some (ks ! (k - 1))) limit None =
     Inr (listing m (take limit (drop k ks)), if k + limit < length ks \<and> 0 < limit then Some (ks ! (k + limit - 1)) else None)"
proof -
  have sorted: "sort_key fst (listing m ks) = listing m ks"
    using sorted_wrt_mono_rel [of ks "(<)" "(\<le>)"] assms(1) by (intro sort_key_id_if_sorted) (simp add: less_imp_le)
  have start: "length (takeWhile (\<lambda>p. \<not> ks ! (k - 1) < fst p) (listing m ks)) = k" if "0 < k"
  proof -
    have "takeWhile (\<lambda>i. \<not> ks ! (k - 1) < i) ks = take k ks"
    proof (rule takeWhile_eq_take_P_nth)
      show "\<not> ks ! (k - 1) < ks ! j" if "j < k" "j < length ks" for j
      proof (cases "j = k - 1")
        case False
        then have "j < k - 1" "k - 1 < length ks" using that assms(3) by auto
        then have "ks ! j < ks ! (k - 1)" by (rule sorted_wrt_nth_less [OF assms(1)])
        then show ?thesis by simp
      qed simp
      show "\<not> \<not> ks ! (k - 1) < ks ! k" if "k < length ks"
        using that \<open>0 < k\<close> sorted_wrt_nth_less [OF assms(1), of "k - 1" k] by simp
    qed
    then have "map fst (takeWhile (\<lambda>p. \<not> ks ! (k - 1) < fst p) (listing m ks)) = take k ks"
      using takeWhile_map [of "\<lambda>i. \<not> ks ! (k - 1) < i" fst "listing m ks"] by (simp add: o_def)
    then have "length (takeWhile (\<lambda>p. \<not> ks ! (k - 1) < fst p) (listing m ks)) = length (take k ks)" by (metis length_map)
    then show ?thesis using assms(3) by simp
  qed
  have page: "take limit (drop k (listing m ks)) = listing m (take limit (drop k ks))" by (simp add: listing_def take_map drop_map)
  have last: "fst (last (listing m (take limit (drop k ks)))) = ks ! (k + limit - 1)" if "k + limit < length ks" "0 < limit"
    using that by (simp add: listing_def last_map last_conv_nth)
  have ne: "listing m (take limit (drop k ks)) = [] \<longleftrightarrow> limit = 0 \<or> length ks \<le> k" by (simp add: listing_def)
  have start2: "(case if k = 0 then None else Some (ks ! (k - 1)) of None \<Rightarrow> 0
      | Some cursor \<Rightarrow> length (takeWhile (\<lambda>p. \<not> cursor < fst p) (listing m ks))) = k" using start by simp
  have none: "snd (scope_filter s Disabled None) = Inr None" "validate_filter_complexity None = Inr ()" "payload_candidates ext ix None = Inr None"
      "read_source None l = l" "filter (\<lambda>p. passes ext None (snd p)) l = l" for l :: "'a live"
    by (simp_all add: scope_filter_def validate_filter_complexity_def payload_candidates_def payload_filter_candidates_def read_source_def passes_def)
  have "scroll_scoped ext s Disabled ix (listing m ks) (if k = 0 then None else Some (ks ! (k - 1))) limit None =
      Inr (listing m (take limit (drop k ks)),
        if k + length (listing m (take limit (drop k ks))) < length (listing m ks)
        then (if listing m (take limit (drop k ks)) = [] then None else Some (fst (last (listing m (take limit (drop k ks)))))) else None)"
    unfolding scroll_scoped_def scroll_unguarded_def none map_err_simps bindE_Inr Let_def sorted start2 page ..
  then show ?thesis using last assms(3) by (auto simp: ne)
qed

lemma tally_append:
  assumes "distinct (is @ js)"
  shows "tally tenant (stamp_keys tenant (set is) m) js (tally tenant m is n) = tally tenant m (is @ js) n"
proof -
  have "without_tenant (stamp_keys tenant (set is) m) js = without_tenant m js"
    unfolding without_tenant_def using assms by (intro arg_cong [where f = length] filter_cong) (auto simp: stamp_keys_def)
  then show ?thesis by (simp add: tally_def without_tenant_def)
qed

lemma stamp_keys_Un: "A \<inter> B = {} \<Longrightarrow> stamp_keys tenant B (stamp_keys tenant A m) = stamp_keys tenant (A \<union> B) m"
  by (auto simp: stamp_keys_def fun_eq_iff)

lemma backfill_loop_Disabled:
  assumes "sorted_wrt (<) ks" "set ks = dom m" "k \<le> length ks" "0 < batch"
  shows "backfill_loop ext s Disabled ix tenant batch (listing m ks, n) (if k = 0 then None else Some (ks ! (k - 1))) =
     Some (Inr (listing (stamp_keys tenant (set (drop k ks)) m) ks, tally tenant m (drop k ks) n))"
  using assms(2,3)
proof (induction "length ks - k" arbitrary: k m n rule: less_induct)
  case less
  let ?is = "take batch (drop k ks)"
  have d: "distinct ks" by (rule sorted_distinct_keys [OF assms(1)])
  have page: "foldE (backfill_point ext s Disabled tenant) (listing m ks, n) (listing m ?is) =
      Inr (listing (stamp_keys tenant (set ?is) m) ks, tally tenant m ?is n)"
    by (rule backfill_page [OF assms(1) less.prems(1)]) (use d in \<open>auto dest!: in_set_takeD in_set_dropD\<close>)
  let ?off = "if k = 0 then None else Some (ks ! (k - 1))"
  have step: "backfill_loop ext s Disabled ix tenant batch (listing m ks, n) ?off =
      (if listing m ?is = [] then Some (Inr (listing m ks, n))
       else if k + batch < length ks \<and> 0 < batch
       then backfill_loop ext s Disabled ix tenant batch (listing (stamp_keys tenant (set ?is) m) ks, tally tenant m ?is n) (Some (ks ! (k + batch - 1)))
       else Some (Inr (listing (stamp_keys tenant (set ?is) m) ks, tally tenant m ?is n)))"
    by (subst backfill_loop.simps) (simp only: fst_conv snd_conv scroll_listing [OF assms(1) less.prems] sum.case page option.case simp_thms split: if_split, blast)
  show ?case
  proof (cases "k + batch < length ks")
    case False
    then have "?is = drop k ks" by simp
    moreover have "stamp_keys tenant {} m = m" "tally tenant m [] n = n" by (simp_all add: stamp_keys_def tally_def without_tenant_def)
    ultimately show ?thesis using False by (subst step) (auto simp: listing_def)
  next
    case True
    have parts: "drop k ks = ?is @ drop (k + batch) ks" by (metis append_take_drop_id drop_drop add.commute)
    have setp: "set (drop k ks) = set ?is \<union> set (drop (k + batch) ks)" by (metis parts set_append)
    have dis: "distinct (?is @ drop (k + batch) ks)" using d parts by (metis distinct_drop)
    have "backfill_loop ext s Disabled ix tenant batch (listing (stamp_keys tenant (set ?is) m) ks, tally tenant m ?is n)
        (if k + batch = 0 then None else Some (ks ! (k + batch - 1))) =
      Some (Inr (listing (stamp_keys tenant (set (drop (k + batch) ks)) (stamp_keys tenant (set ?is) m)) ks,
        tally tenant (stamp_keys tenant (set ?is) m) (drop (k + batch) ks) (tally tenant m ?is n)))"
      using less.prems True assms(4) by (intro less.hyps) auto
    moreover have "stamp_keys tenant (set (drop (k + batch) ks)) (stamp_keys tenant (set ?is) m) = stamp_keys tenant (set (drop k ks)) m"
      using dis by (subst stamp_keys_Un) (auto simp: setp Un_commute)
    moreover have "listing m ?is \<noteq> []" using True assms(4) by (simp add: listing_def)
    ultimately show ?thesis using True assms(4) by (subst step) (simp add: tally_append [OF dis] parts [symmetric])
  qed
qed



end
