(* ===== verification/Graph_Resolver.thy ===== *)
theory Graph_Resolver
  imports Graph_Types
begin

text \<open>
  The point-incarnation resolver of \<open>chirondb-core/src/graph_resolver.rs\<close>: which node id a public
  point id currently has, and which node ids are retired for good. The two hash maps and the set
  are maps and a set; the invariant says the maps are inverse and no retired id is live.
\<close>

record PointIncarnationResolver =
  live_by_point :: "ustr \<rightharpoonup> nid"
  live_by_nid :: "nid \<rightharpoonup> ustr"
  retired :: "nid set"

datatype resolver_msg =
    Bad_retired_checkpoint | Bad_live_checkpoint | Unassigned_nid | Retired_nid | Point_changes_nid
  | Nid_has_two_points

definition resolver_default :: PointIncarnationResolver where
  "resolver_default = \<lparr>live_by_point = Map.empty, live_by_nid = Map.empty, retired = {}\<rparr>"

definition live_nid :: "PointIncarnationResolver \<Rightarrow> ustr \<Rightarrow> nid option" where
  "live_nid r p = live_by_point r p"

definition live_point_id :: "PointIncarnationResolver \<Rightarrow> nid \<Rightarrow> ustr option" where
  "live_point_id r n = live_by_nid r n"

definition is_retired :: "PointIncarnationResolver \<Rightarrow> nid \<Rightarrow> bool" where
  "is_retired r n \<longleftrightarrow> n \<in> retired r"

definition bind_live ::
  "PointIncarnationResolver \<Rightarrow> ustr \<Rightarrow> nid \<Rightarrow> (resolver_msg, PointIncarnationResolver) result" where
  "bind_live r p n =
     (if \<not> nid_is_assigned n then Inl (InvalidRequest Unassigned_nid)
      else if n \<in> retired r then Inl (InvalidRequest Retired_nid)
      else case live_by_point r p of
        Some existing \<Rightarrow>
          if existing = n then Inr r else Inl (InvalidRequest Point_changes_nid)
      | None \<Rightarrow>
          if live_by_nid r n \<noteq> None then Inl (InvalidRequest Nid_has_two_points)
          else Inr (r\<lparr>live_by_nid := (live_by_nid r)(n \<mapsto> p),
                      live_by_point := (live_by_point r)(p \<mapsto> n)\<rparr>))"

definition retire :: "PointIncarnationResolver \<Rightarrow> ustr \<Rightarrow> PointIncarnationResolver \<times> nid option" where
  "retire r p =
     (case live_by_point r p of
        None \<Rightarrow> (r, None)
      | Some n \<Rightarrow>
          (r\<lparr>live_by_point := (live_by_point r)(p := None), live_by_nid := (live_by_nid r)(n := None),
             retired := insert n (retired r)\<rparr>, Some n))"

definition checkpoint_retired ::
  "PointIncarnationResolver \<Rightarrow> nid \<Rightarrow> (resolver_msg, PointIncarnationResolver) result" where
  "checkpoint_retired r n =
     (if nid_from_parts (nid_epoch n) (nid_counter n) \<noteq> Some n \<or> n \<in> retired r
      then Inl (InvalidRequest Bad_retired_checkpoint)
      else Inr (r\<lparr>retired := insert n (retired r)\<rparr>))"

definition checkpoint_live ::
  "PointIncarnationResolver \<Rightarrow> ustr \<times> nid \<Rightarrow> (resolver_msg, PointIncarnationResolver) result" where
  "checkpoint_live r b =
     (case b of (p, n) \<Rightarrow>
       if p = [] \<or> utf8_len p > 1024 \<or> nid_from_parts (nid_epoch n) (nid_counter n) \<noteq> Some n
          \<or> live_by_point r p \<noteq> None
       then Inl (InvalidRequest Bad_live_checkpoint)
       else bind_live r p n)"

definition from_checkpoint ::
  "(ustr \<times> nid) list \<Rightarrow> nid list \<Rightarrow> (resolver_msg, PointIncarnationResolver) result" where
  "from_checkpoint live ret =
     bindE (foldE checkpoint_retired resolver_default ret) (\<lambda>r. foldE checkpoint_live r live)"

section \<open>One-to-one and never revived\<close>

definition resolver_wf :: "PointIncarnationResolver \<Rightarrow> bool" where
  "resolver_wf r \<longleftrightarrow>
     (\<forall>p n. live_by_point r p = Some n \<longleftrightarrow> live_by_nid r n = Some p)
     \<and> (\<forall>n \<in> retired r. live_by_nid r n = None) \<and> live_by_nid r 0 = None"

text \<open>The calls a collection makes on its resolver.\<close>

inductive resolver_step :: "PointIncarnationResolver \<Rightarrow> PointIncarnationResolver \<Rightarrow> bool" where
  Bind: "bind_live r p n = Inr r' \<Longrightarrow> resolver_step r r'"
| Retire: "retire r p = (r', res) \<Longrightarrow> resolver_step r r'"

lemma bind_live_wf: "resolver_wf r \<Longrightarrow> bind_live r p n = Inr r' \<Longrightarrow> resolver_wf r'"
  by (auto simp: bind_live_def resolver_wf_def nid_is_assigned_def split: if_splits option.splits)
    (metis option.distinct(1))

lemma retire_wf: "resolver_wf r \<Longrightarrow> resolver_wf (fst (retire r p))"
  by (auto simp: retire_def resolver_wf_def split: option.splits) (metis option.inject)

lemma bind_live_retired: "bind_live r p n = Inr r' \<Longrightarrow> retired r' = retired r"
  by (auto simp: bind_live_def split: if_splits option.splits)

lemma retire_retired: "retired r \<subseteq> retired (fst (retire r p))"
  by (auto simp: retire_def split: option.splits)

lemma resolver_step_wf: "resolver_wf r \<Longrightarrow> resolver_step r r' \<Longrightarrow> resolver_wf r'"
  by (erule resolver_step.cases) (metis bind_live_wf, metis retire_wf fst_conv)

lemma resolver_step_retired: "resolver_step r r' \<Longrightarrow> retired r \<subseteq> retired r'"
  by (erule resolver_step.cases) (metis bind_live_retired subset_refl, metis retire_retired fst_conv)

definition resolver_restored :: "PointIncarnationResolver \<Rightarrow> bool" where
  "resolver_restored r \<longleftrightarrow> (\<exists>live ret. from_checkpoint live ret = Inr r)"

lemma from_checkpoint_wf:
  assumes "from_checkpoint live ret = Inr r"
  shows "resolver_wf r"
proof -
  from assms obtain r0 where r0: "foldE checkpoint_retired resolver_default ret = Inr r0"
    and r: "foldE checkpoint_live r0 live = Inr r"
    by (auto simp: from_checkpoint_def res_simps)
  have "live_by_point r0 = Map.empty \<and> live_by_nid r0 = Map.empty"
    by (rule foldE_invariant [OF r0]) (auto simp: resolver_default_def checkpoint_retired_def split: if_splits)
  then have "resolver_wf r0" by (simp add: resolver_wf_def)
  then show ?thesis
    by (rule foldE_invariant [OF r]) (auto simp: checkpoint_live_def split: if_splits intro: bind_live_wf)
qed

interpretation resolver: invariant_system resolver_restored resolver_step resolver_wf
  by unfold_locales (auto simp: resolver_restored_def intro: from_checkpoint_wf resolver_step_wf)



end
