(* ===== verification/Mutable_Graph.thy ===== *)
theory Mutable_Graph
  imports Graph_Traversal Graph_Resolver
begin

text \<open>
  The mutable graph of a collection, after \<open>chirondb-core/src/mutable_graph.rs\<close> and its modules
  \<open>adjacency\<close>, \<open>ledger\<close>, \<open>properties\<close> and \<open>seal\<close>: the catalog of edge types, the unsealed edges with
  their adjacency rows and property documents, tombstones, and the pinned readers of the sealed
  generation, which are given by what they return. Ordered maps that the code iterates are
  association lists read in key order; the other maps and the bitmaps are functions and sets.

  A panic of the infallible application pass is an error on the left.
\<close>

definition DEFAULT_GRAPH_NAMESPACE :: ustr where "DEFAULT_GRAPH_NAMESPACE = str ''@chiron:default''"

datatype 'e graph_msg =
    Reserved_type_id | Catalog_name_length | Type_remapped | Name_identifies_two_types | Type_space_exhausted
  | Edge_mutated_twice nat | Invalid_edge_id nat | Edge_id_exists nat | Type_not_configured | Endpoint_not_live
  | Tenant_local_endpoints nat | Cross_tenant_endpoints nat | Properties_not_object nat | Properties_too_large
  | Edge_not_live | No_property_row | Adjacency_without_topology | Conflicting_endpoints
  | Session_exists | Session_missing | Session_not_open | Pending_missing nat | Already_bound nat
  | Other_session nat | Bind_not_assigned nat | Source_immutable nat | Target_immutable nat
  | Endpoint_not_recorded nat | Endpoints_remain "ustr set" | Session_not_visible | Idempotency_bound
  | Sealed 'e

type_synonym ('e, 'a) gresult = "('e graph_msg, 'a) result"

section \<open>Edge types\<close>

record EdgeTypeDefinition =
  et_type_id :: type_id
  et_name :: ustr
  et_weight_property :: "ustr option"

record GraphTypeCatalog =
  by_id :: "(type_id \<times> EdgeTypeDefinition) list"
  by_name :: "ustr \<rightharpoonup> type_id"

definition catalog_default :: GraphTypeCatalog where
  "catalog_default = \<lparr>by_id = [], by_name = Map.empty\<rparr>"

definition validate_type_id :: "type_id \<Rightarrow> ('e, unit) gresult" where
  "validate_type_id i = (if i = 0 then Inl (InvalidRequest Reserved_type_id) else Inr ())"

definition validate_catalog_name :: "ustr \<Rightarrow> ('e, unit) gresult" where
  "validate_catalog_name v =
     (if v = [] \<or> utf8_len v > MAX_GRAPH_CATALOG_NAME_BYTES then Inl (InvalidRequest Catalog_name_length) else Inr ())"

definition configure ::
  "GraphTypeCatalog \<Rightarrow> type_id \<Rightarrow> ustr \<Rightarrow> ustr option \<Rightarrow> ('e, GraphTypeCatalog) gresult" where
  "configure c type_id name weight_property =
     bindE (validate_type_id type_id) (\<lambda>_.
     bindE (validate_catalog_name name) (\<lambda>_.
     bindE (case weight_property of None \<Rightarrow> Inr () | Some w \<Rightarrow> validate_catalog_name w) (\<lambda>_.
     if (case map_of (by_id c) type_id of None \<Rightarrow> False | Some existing \<Rightarrow> et_name existing \<noteq> name)
     then Inl (InvalidRequest Type_remapped)
     else if (case by_name c name of None \<Rightarrow> False | Some existing \<Rightarrow> existing \<noteq> type_id)
     then Inl (InvalidRequest Name_identifies_two_types)
     else Inr \<lparr>by_id = btree_insert type_id \<lparr>et_type_id = type_id, et_name = name, et_weight_property = weight_property\<rparr> (by_id c),
               by_name = (by_name c)(name \<mapsto> type_id)\<rparr>)))"

definition catalog_get :: "GraphTypeCatalog \<Rightarrow> type_id \<Rightarrow> EdgeTypeDefinition option" where
  "catalog_get c type_id = map_of (by_id c) type_id"

definition resolve_name :: "GraphTypeCatalog \<Rightarrow> ustr \<Rightarrow> type_id option" where
  "resolve_name c name = by_name c name"

definition next_type_id :: "GraphTypeCatalog \<Rightarrow> ('e, type_id) gresult" where
  "next_type_id c =
     (let next = (if by_id c = [] then 1
                  else let last = Max (set (map fst (by_id c))) in if last = - 1 then last else last + 1) in
      if next = 0 \<or> map_of (by_id c) next \<noteq> None
      then Inl (Graph (graph_error_new AllocatorExhausted Type_space_exhausted))
      else Inr next)"

text \<open>The types of a batch are configured on a copy of the catalog.\<close>

record GraphTypeConfiguration =
  tc_type_id :: type_id
  tc_name :: ustr
  tc_weight_property :: "ustr option"

definition stage_types :: "GraphTypeCatalog \<Rightarrow> GraphTypeConfiguration list \<Rightarrow> ('e, GraphTypeCatalog) gresult" where
  "stage_types types configurations =
     foldE (\<lambda>staged c. configure staged (tc_type_id c) (tc_name c) (tc_weight_property c)) types configurations"

section \<open>Edges and adjacency\<close>

record 'p GraphEdge =
  ge_edge_id :: edge_id
  ge_source :: nid
  ge_target :: nid
  ge_type_id :: type_id
  ge_namespace :: GraphNamespace
  ge_properties :: 'p

type_synonym StoredEdge = "unit GraphEdge"
type_synonym 'n MutableEdge = "'n Value GraphEdge"

record NamespaceAdjacency =
  adj_outgoing :: "nid \<rightharpoonup> edge_id list"
  adj_incoming :: "nid \<rightharpoonup> edge_id list"

definition adjacency_default :: NamespaceAdjacency where
  "adjacency_default = \<lparr>adj_outgoing = Map.empty, adj_incoming = Map.empty\<rparr>"

definition row :: "(nid \<rightharpoonup> edge_id list) \<Rightarrow> nid \<Rightarrow> edge_id list" where
  "row m v = (case m v of None \<Rightarrow> [] | Some ids \<Rightarrow> ids)"

definition namespace_insert :: "'p GraphEdge \<Rightarrow> NamespaceAdjacency \<Rightarrow> NamespaceAdjacency" where
  "namespace_insert e a =
     a\<lparr>adj_outgoing := (adj_outgoing a)(ge_source e \<mapsto> row (adj_outgoing a) (ge_source e) @ [ge_edge_id e]),
       adj_incoming := (adj_incoming a)(ge_target e \<mapsto> row (adj_incoming a) (ge_target e) @ [ge_edge_id e])\<rparr>"

record MutableAdjacency =
  ma_tenants :: "ustr \<rightharpoonup> NamespaceAdjacency"
  ma_admin_cross_tenant :: NamespaceAdjacency

definition mutable_adjacency_default :: MutableAdjacency where
  "mutable_adjacency_default = \<lparr>ma_tenants = Map.empty, ma_admin_cross_tenant = adjacency_default\<rparr>"

definition adjacency_insert :: "'p GraphEdge \<Rightarrow> MutableAdjacency \<Rightarrow> MutableAdjacency" where
  "adjacency_insert e m =
     (case ge_namespace e of
        Tenant tenant \<Rightarrow>
          m\<lparr>ma_tenants := (ma_tenants m)(tenant \<mapsto> namespace_insert e
               (case ma_tenants m tenant of None \<Rightarrow> adjacency_default | Some a \<Rightarrow> a))\<rparr>
      | AdminCrossTenant \<Rightarrow> m\<lparr>ma_admin_cross_tenant := namespace_insert e (ma_admin_cross_tenant m)\<rparr>)"

definition adjacency_namespace :: "MutableAdjacency \<Rightarrow> GraphNamespace \<Rightarrow> NamespaceAdjacency option" where
  "adjacency_namespace m ns =
     (case ns of Tenant tenant \<Rightarrow> ma_tenants m tenant | AdminCrossTenant \<Rightarrow> Some (ma_admin_cross_tenant m))"

section \<open>The state\<close>

datatype DeferredSessionStatus = Open_session | Committed | Aborted

record GraphSessionOwner =
  so_principal :: ustr
  so_tenant :: "ustr option"

record DeferredSession =
  ds_opening_lsn :: nat
  ds_status :: DeferredSessionStatus
  ds_owner :: "GraphSessionOwner option"

record 'n PendingEdge =
  pe_session_id :: ustr
  pe_opening_lsn :: nat
  pe_edge_id :: edge_id
  pe_source_point_id :: ustr
  pe_target_point_id :: ustr
  pe_source_nid :: "nid option"
  pe_target_nid :: "nid option"
  pe_type_id :: type_id
  pe_namespace :: GraphNamespace
  pe_properties :: "'n Value"

datatype GraphDeferredEndpoint = Source | Target

record GraphIdempotencyState =
  id_key :: ustr
  id_request_sha256 :: "byte list"
  id_created_at_unix_ms :: nat
  id_expires_at_unix_ms :: nat
  id_edge_ids :: "edge_id list"

record PersistChanges =
  pc_ledger :: "(edge_id \<times> nat) list"
  pc_topology :: "(edge_id \<times> nat) list"
  pc_properties :: "(edge_id \<times> nat) list"

definition persist_default :: PersistChanges where
  "persist_default = \<lparr>pc_ledger = [], pc_topology = [], pc_properties = []\<rparr>"

record 'e SealedAdjacency =
  sa_edge_candidates :: "GraphNamespace \<Rightarrow> nid \<Rightarrow> bool \<Rightarrow> ('e, ('e, AdjacencyStep) gresult list) gresult"
  sa_cursor_memory_bytes :: nat
  sa_namespaces :: "GraphNamespace set"

record ('n, 'e) MutableGraphState =
  g_epoch :: graph_epoch
  g_types :: GraphTypeCatalog
  edge_ids :: "edge_id set"
  sealed_ledger :: "edge_id \<Rightarrow> ('e, bool) gresult"
  edges :: "edge_id \<rightharpoonup> StoredEdge"
  property_tail :: "edge_id \<rightharpoonup> 'n Value"
  sealed_namespaces :: "edge_id \<Rightarrow> ('e, GraphNamespace option) gresult"
  sealed_properties :: "edge_id \<Rightarrow> ('e, 'n Value option) gresult"
  live_edges :: nat
  edge_tombstones :: "edge_id set"
  adjacency :: MutableAdjacency
  sealed_adjacency :: "'e SealedAdjacency option"
  deferred_sessions :: "ustr \<rightharpoonup> DeferredSession"
  pending_edges :: "(edge_id \<times> 'n PendingEdge) list"
  pending_by_endpoint :: "ustr \<times> ustr \<times> nat \<rightharpoonup> (edge_id \<times> GraphDeferredEndpoint) list"
  idempotency :: "ustr \<rightharpoonup> GraphIdempotencyState"
  persist_changes :: PersistChanges

definition mutable_new :: "graph_epoch \<Rightarrow> ('n, 'e) MutableGraphState" where
  "mutable_new epoch =
     \<lparr>g_epoch = epoch, g_types = catalog_default, edge_ids = {}, sealed_ledger = (\<lambda>_. Inr False), edges = Map.empty,
      property_tail = Map.empty, sealed_namespaces = (\<lambda>_. Inr None), sealed_properties = (\<lambda>_. Inr None), live_edges = 0,
      edge_tombstones = {}, adjacency = mutable_adjacency_default, sealed_adjacency = None, deferred_sessions = Map.empty,
      pending_edges = [], pending_by_endpoint = Map.empty, idempotency = Map.empty, persist_changes = persist_default\<rparr>"

section \<open>Reads\<close>

definition edge_visible :: "('n, 'e) MutableGraphState \<Rightarrow> edge_id \<Rightarrow> bool" where
  "edge_visible g i \<longleftrightarrow> i \<notin> edge_tombstones g"

definition edge_namespace :: "('n, 'e) MutableGraphState \<Rightarrow> edge_id \<Rightarrow> ('e, GraphNamespace option) gresult" where
  "edge_namespace g i =
     (if \<not> edge_visible g i then Inr None
      else case edges g i of Some e \<Rightarrow> Inr (Some (ge_namespace e)) | None \<Rightarrow> sealed_namespaces g i)"

definition has_live_edge :: "('n, 'e) MutableGraphState \<Rightarrow> edge_id \<Rightarrow> ('e, bool) gresult" where
  "has_live_edge g i = bindE (edge_namespace g i) (\<lambda>ns. Inr (ns \<noteq> None))"

definition contains_edge_id :: "('n, 'e) MutableGraphState \<Rightarrow> edge_id \<Rightarrow> ('e, bool) gresult" where
  "contains_edge_id g i = (if i \<in> edge_ids g then Inr True else sealed_ledger g i)"

definition stored_properties :: "('n, 'e) MutableGraphState \<Rightarrow> edge_id \<Rightarrow> ('e, 'n Value) gresult" where
  "stored_properties g i =
     (case property_tail g i of Some p \<Rightarrow> Inr p
      | None \<Rightarrow> bindE (sealed_properties g i) (ok_or (InvalidRequest No_property_row)))"

definition edge_properties :: "('n, 'e) MutableGraphState \<Rightarrow> edge_id \<Rightarrow> ('e, 'n Value option) gresult" where
  "edge_properties g i =
     bindE (has_live_edge g i) (\<lambda>live.
     if \<not> live then Inr None else bindE (stored_properties g i) (\<lambda>p. Inr (Some p)))"

definition has_mutable_properties :: "('n, 'e) MutableGraphState \<Rightarrow> edge_id \<Rightarrow> bool" where
  "has_mutable_properties g i \<longleftrightarrow> property_tail g i \<noteq> None"

definition tail_rows :: "MutableAdjacency \<Rightarrow> GraphNamespace \<Rightarrow> nid \<Rightarrow> bool \<Rightarrow> edge_id list" where
  "tail_rows m ns v incoming =
     (case adjacency_namespace m ns of None \<Rightarrow> []
      | Some a \<Rightarrow> row (if incoming then adj_incoming a else adj_outgoing a) v)"

definition tail_step :: "('n, 'e) MutableGraphState \<Rightarrow> edge_id \<Rightarrow> ('e, AdjacencyStep) gresult" where
  "tail_step g i =
     bindE (ok_or (InvalidRequest Adjacency_without_topology) (edges g i)) (\<lambda>e.
     Inr (Edge \<lparr>ae_edge_id = i, ae_source = ge_source e, ae_target = ge_target e, ae_type_id = ge_type_id e, ae_local_base = None\<rparr>))"

text \<open>The iterator stops behind its first error.\<close>

fun until_error :: "('m + 'a) list \<Rightarrow> ('m + 'a) list" where
  "until_error [] = []"
| "until_error (Inl e # xs) = [Inl e]"
| "until_error (Inr x # xs) = Inr x # until_error xs"

definition edge_candidates ::
  "('n, 'e) MutableGraphState \<Rightarrow> GraphNamespace \<Rightarrow> nid \<Rightarrow> bool \<Rightarrow> ('e, ('e, AdjacencyStep) gresult list) gresult" where
  "edge_candidates g ns v incoming =
     bindE (case sealed_adjacency g of None \<Rightarrow> Inr [] | Some base \<Rightarrow> sa_edge_candidates base ns v incoming) (\<lambda>sealed.
     Inr (until_error (sealed @ map (tail_step g) (tail_rows (adjacency g) ns v incoming))))"

definition adjacency_cursor_memory_bytes :: "('n, 'e) MutableGraphState \<Rightarrow> nat" where
  "adjacency_cursor_memory_bytes g = (case sealed_adjacency g of None \<Rightarrow> 0 | Some base \<Rightarrow> sa_cursor_memory_bytes base)"

definition property_memory_bytes :: "('n, 'e) MutableGraphState \<Rightarrow> edge_id \<Rightarrow> nat" where
  "property_memory_bytes g i = (if \<not> has_mutable_properties g i then MAX_EDGE_PROPERTY_BYTES * 64 + 2 * 4096 else 0)"

definition incident_namespaces :: "('n, 'e) MutableGraphState \<Rightarrow> ustr option \<Rightarrow> GraphNamespace set" where
  "incident_namespaces g tenant =
     insert AdminCrossTenant
       (case tenant of
          Some t \<Rightarrow> {Tenant t}
        | None \<Rightarrow> Tenant ` dom (ma_tenants (adjacency g))
            \<union> (case sealed_adjacency g of None \<Rightarrow> {} | Some generation \<Rightarrow> sa_namespaces generation))"

text \<open>
  The loops over incident edges visit a hash set of namespaces; \<open>nss\<close> is the order in which they
  come. A loop ends at the first error and, when it only asks whether there is an edge, at the first
  edge that counts.
\<close>

fun scan_steps :: "(AdjacencyEdge \<Rightarrow> bool) \<Rightarrow> ('e, AdjacencyStep) gresult list \<Rightarrow> ('e, bool) gresult" where
  "scan_steps P [] = Inr False"
| "scan_steps P (Inl e # steps) = Inl e"
| "scan_steps P (Inr (Edge e) # steps) = (if P e then Inr True else scan_steps P steps)"
| "scan_steps P (Inr Checkpoint # steps) = scan_steps P steps"

fun scan_rows ::
  "('n, 'e) MutableGraphState \<Rightarrow> nid \<Rightarrow> (AdjacencyEdge \<Rightarrow> bool) \<Rightarrow> (GraphNamespace \<times> bool) list \<Rightarrow> ('e, bool) gresult" where
  "scan_rows g v P [] = Inr False"
| "scan_rows g v P ((ns, incoming) # rows) =
     bindE (edge_candidates g ns v incoming) (\<lambda>steps.
     bindE (scan_steps P steps) (\<lambda>found. if found then Inr True else scan_rows g v P rows))"

definition has_live_incident_edge_excluding ::
  "('n, 'e) MutableGraphState \<Rightarrow> GraphNamespace list \<Rightarrow> nid \<Rightarrow> edge_id set \<Rightarrow> ('e, bool) gresult" where
  "has_live_incident_edge_excluding g nss v removed =
     scan_rows g v (\<lambda>e. ae_edge_id e \<notin> removed \<and> edge_visible g (ae_edge_id e) \<and> (ae_source e = v \<or> ae_target e = v))
       (concat (map (\<lambda>ns. [(ns, False), (ns, True)]) nss))"

text \<open>The graph a traversal sees.\<close>

definition provided :: "('e, 'a) gresult \<Rightarrow> ('e graph_msg, 'a) tresult" where
  "provided = map_err (map_GaussError Provider)"

definition graph_view :: "('n, 'e) MutableGraphState \<Rightarrow> ('n, 'e graph_msg) TraversalGraph" where
  "graph_view g =
     \<lparr>tg_outgoing = (\<lambda>ns v. bindE (provided (edge_candidates g ns v False)) (\<lambda>l. Inr (map provided l))),
      tg_incoming = (\<lambda>ns v. bindE (provided (edge_candidates g ns v True)) (\<lambda>l. Inr (map provided l))),
      tg_edge_visible = edge_visible g,
      tg_edge_properties = (\<lambda>i. provided (edge_properties g i)),
      tg_cursor_memory_bytes = adjacency_cursor_memory_bytes g,
      tg_property_memory_bytes = property_memory_bytes g,
      tg_local_reference_superseded = (\<lambda>_ _. False)\<rparr>"

section \<open>Edge mutations\<close>

record 'n RelateMutation =
  rm_edge_id :: edge_id
  rm_source :: nid
  rm_target :: nid
  rm_type_id :: type_id
  rm_namespace :: GraphNamespace
  rm_properties :: "'n Value"

record 'n EdgePropertyMutation =
  pm_edge_id :: edge_id
  pm_mode :: EdgePropertyMode
  pm_properties :: "'n Value"

datatype 'n EdgeMutation = Relate "'n RelateMutation" | Unrelate edge_id | Properties "'n EdgePropertyMutation"

fun mutation_edge_id :: "'n EdgeMutation \<Rightarrow> edge_id" where
  "mutation_edge_id (Relate r) = rm_edge_id r"
| "mutation_edge_id (Unrelate i) = i"
| "mutation_edge_id (Properties p) = pm_edge_id p"

definition edge_not_found :: "nat \<Rightarrow> 'e graph_msg GaussError" where
  "edge_not_found item = Graph (with_item_index item (graph_error_new EdgeNotFound Edge_not_live))"

definition validate_edge_id :: "edge_id \<Rightarrow> nat \<Rightarrow> ('e, unit) gresult" where
  "validate_edge_id i item =
     (if edge_from_parts (edge_epoch i) (edge_counter i) \<noteq> Some i then Inl (InvalidRequest (Invalid_edge_id item)) else Inr ())"

text \<open>The first argument is the length of the JSON text of a value.\<close>

definition validate_property_document :: "('n Value \<Rightarrow> nat) \<Rightarrow> 'n Value \<Rightarrow> nat \<Rightarrow> ('e, unit) gresult" where
  "validate_property_document json_len p item =
     (case p of
        JObject _ \<Rightarrow>
          if json_len p > MAX_EDGE_PROPERTY_BYTES
          then Inl (Graph (with_item_index item (graph_error_new PropertyTooLarge Properties_too_large))) else Inr ()
      | _ \<Rightarrow> Inl (InvalidRequest (Properties_not_object item)))"

definition tenant_or_default :: "ustr option \<Rightarrow> ustr" where
  "tenant_or_default t = (case t of None \<Rightarrow> DEFAULT_GRAPH_NAMESPACE | Some t \<Rightarrow> t)"

definition validate_relate ::
  "('n Value \<Rightarrow> nat) \<Rightarrow> ('n, 'e) MutableGraphState \<Rightarrow> PointIncarnationResolver \<Rightarrow> 'n RelateMutation
     \<Rightarrow> (nid \<Rightarrow> ustr option) \<Rightarrow> GraphTypeCatalog \<Rightarrow> bool \<Rightarrow> nat \<Rightarrow> ('e, unit) gresult" where
  "validate_relate json_len g resolver r tenant_for_nid types promoting_pending item =
     bindE (validate_edge_id (rm_edge_id r) item) (\<lambda>_.
     bindE (if promoting_pending then Inr False else contains_edge_id g (rm_edge_id r)) (\<lambda>known.
     if known then Inl (InvalidRequest (Edge_id_exists item))
     else if catalog_get types (rm_type_id r) = None
     then Inl (Graph (with_item_index item (graph_error_new TypeNotFound Type_not_configured)))
     else if live_point_id resolver (rm_source r) = None \<or> live_point_id resolver (rm_target r) = None
     then Inl (Graph (with_item_index item (graph_error_new EndpointNotFound Endpoint_not_live)))
     else
     let source_tenant = tenant_for_nid (rm_source r); target_tenant = tenant_for_nid (rm_target r) in
     bindE (case rm_namespace r of
         Tenant tenant \<Rightarrow>
           if tenant_or_default source_tenant \<noteq> tenant \<or> tenant_or_default target_tenant \<noteq> tenant
           then Inl (InvalidRequest (Tenant_local_endpoints item)) else Inr ()
       | AdminCrossTenant \<Rightarrow>
           if source_tenant = None \<or> target_tenant = None \<or> source_tenant = target_tenant
           then Inl (InvalidRequest (Cross_tenant_endpoints item)) else Inr ()) (\<lambda>_.
     validate_property_document json_len (rm_properties r) item)))"

definition validate_mutation ::
  "('n Value \<Rightarrow> nat) \<Rightarrow> ('n, 'e) MutableGraphState \<Rightarrow> PointIncarnationResolver \<Rightarrow> (nid \<Rightarrow> ustr option)
     \<Rightarrow> GraphTypeCatalog \<Rightarrow> edge_id set \<Rightarrow> nat \<Rightarrow> 'n EdgeMutation \<Rightarrow> ('e, unit) gresult" where
  "validate_mutation json_len g resolver tenant_for_nid types promoted item m =
     (case m of
        Relate r \<Rightarrow> validate_relate json_len g resolver r tenant_for_nid types (rm_edge_id r \<in> promoted) item
      | Unrelate i \<Rightarrow>
          bindE (has_live_edge g i) (\<lambda>live. if \<not> live then Inl (edge_not_found item) else Inr ())
      | Properties p \<Rightarrow>
          bindE (has_live_edge g (pm_edge_id p)) (\<lambda>live.
          if \<not> live then Inl (edge_not_found item) else validate_property_document json_len (pm_properties p) item))"

fun validate_loop ::
  "('n Value \<Rightarrow> nat) \<Rightarrow> ('n, 'e) MutableGraphState \<Rightarrow> PointIncarnationResolver \<Rightarrow> (nid \<Rightarrow> ustr option)
     \<Rightarrow> GraphTypeCatalog \<Rightarrow> edge_id set \<Rightarrow> nat \<Rightarrow> edge_id set \<Rightarrow> 'n EdgeMutation list \<Rightarrow> ('e, unit) gresult" where
  "validate_loop json_len g resolver tenant_for_nid types promoted item seen [] = Inr ()"
| "validate_loop json_len g resolver tenant_for_nid types promoted item seen (m # ms) =
     (if mutation_edge_id m \<in> seen then Inl (InvalidRequest (Edge_mutated_twice item))
      else bindE (validate_mutation json_len g resolver tenant_for_nid types promoted item m) (\<lambda>_.
           validate_loop json_len g resolver tenant_for_nid types promoted (item + 1) (insert (mutation_edge_id m) seen) ms))"

definition validate_edge_mutations_with_types_and_promotions where
  "validate_edge_mutations_with_types_and_promotions json_len g resolver ms tenant_for_nid types promoted =
     validate_loop json_len g resolver tenant_for_nid types promoted 0 {} ms"

definition validate_edge_mutations_with_types where
  "validate_edge_mutations_with_types json_len g resolver ms tenant_for_nid types =
     validate_edge_mutations_with_types_and_promotions json_len g resolver ms tenant_for_nid types {}"

text \<open>\<open>Map::insert\<close> of every entry of a patch.\<close>

definition merge_object :: "(ustr \<times> 'n Value) list \<Rightarrow> (ustr \<times> 'n Value) list \<Rightarrow> (ustr \<times> 'n Value) list" where
  "merge_object document patch = fold (\<lambda>(k, v) d. btree_insert k v d) patch document"

datatype graph_panic = Live_edge_overflow | Live_edge_underflow | Merge_not_prepared | Not_a_document | Topology_missing

fun as_object :: "'n Value \<Rightarrow> (ustr \<times> 'n Value) list option" where
  "as_object (JObject kvs) = Some kvs"
| "as_object _ = None"

datatype 'm fallible = Returned 'm | Panicked graph_panic

definition prepare_mutation ::
  "('n Value \<Rightarrow> nat) \<Rightarrow> ('n, 'e) MutableGraphState \<Rightarrow> nat \<Rightarrow> 'n EdgeMutation
     \<Rightarrow> 'e graph_msg GaussError fallible + 'n EdgeMutation" where
  "prepare_mutation json_len g item m =
     (case m of
        Properties patch \<Rightarrow>
          bindE (if pm_mode patch = Merge
                 then bindE (map_err Returned (edge_properties g (pm_edge_id patch))) (\<lambda>document.
                      bindE (ok_or (Returned (edge_not_found item)) document) (\<lambda>document.
                      bindE (expect (Panicked Not_a_document) (as_object document)) (\<lambda>object.
                      bindE (expect (Panicked Not_a_document) (as_object (pm_properties patch))) (\<lambda>entries.
                      Inr (patch\<lparr>pm_properties := JObject (merge_object object entries), pm_mode := Replace\<rparr>)))))
                 else Inr patch) (\<lambda>prepared.
          bindE (map_err Returned (validate_property_document json_len (pm_properties prepared) item)) (\<lambda>_.
          Inr (Properties prepared)))
      | _ \<Rightarrow> Inr m)"

fun prepare_loop ::
  "('n Value \<Rightarrow> nat) \<Rightarrow> ('n, 'e) MutableGraphState \<Rightarrow> nat \<Rightarrow> 'n EdgeMutation list
     \<Rightarrow> 'e graph_msg GaussError fallible + 'n EdgeMutation list" where
  "prepare_loop json_len g item [] = Inr []"
| "prepare_loop json_len g item (m # ms) =
     bindE (prepare_mutation json_len g item m) (\<lambda>p.
     bindE (prepare_loop json_len g (item + 1) ms) (\<lambda>ps. Inr (p # ps)))"

definition prepare_property_mutations where
  "prepare_property_mutations json_len g ms = prepare_loop json_len g 0 ms"

definition apply_mutation :: "('n, 'e) MutableGraphState \<Rightarrow> 'n EdgeMutation \<Rightarrow> graph_panic + ('n, 'e) MutableGraphState" where
  "apply_mutation g m =
     (case m of
        Relate r \<Rightarrow>
          let edge = \<lparr>ge_edge_id = rm_edge_id r, ge_source = rm_source r, ge_target = rm_target r, ge_type_id = rm_type_id r,
                      ge_namespace = rm_namespace r, ge_properties = ()\<rparr> in
          bindE (expect Live_edge_overflow (checked_add (live_edges g) 1)) (\<lambda>live.
          Inr (g\<lparr>adjacency := adjacency_insert edge (adjacency g),
                 edge_ids := (if map_of (pending_edges g) (rm_edge_id r) = None then insert (rm_edge_id r) (edge_ids g) else edge_ids g),
                 edges := (edges g)(rm_edge_id r \<mapsto> edge),
                 property_tail := (property_tail g)(rm_edge_id r \<mapsto> rm_properties r),
                 live_edges := live\<rparr>))
      | Unrelate i \<Rightarrow>
          bindE (expect Live_edge_underflow (if live_edges g = 0 then None else Some (live_edges g - 1))) (\<lambda>live.
          Inr (g\<lparr>edge_tombstones := insert i (edge_tombstones g), live_edges := live\<rparr>))
      | Properties p \<Rightarrow>
          (case pm_mode p of
             Replace \<Rightarrow> Inr (g\<lparr>property_tail := (property_tail g)(pm_edge_id p \<mapsto> pm_properties p)\<rparr>)
           | Merge \<Rightarrow>
               bindE (expect Merge_not_prepared (property_tail g (pm_edge_id p))) (\<lambda>target.
               bindE (expect Not_a_document (as_object target)) (\<lambda>object.
               bindE (expect Not_a_document (as_object (pm_properties p))) (\<lambda>entries.
               Inr (g\<lparr>property_tail := (property_tail g)(pm_edge_id p \<mapsto> JObject (merge_object object entries))\<rparr>))))))"

definition apply_validated_edge_mutations where
  "apply_validated_edge_mutations g ms = foldE apply_mutation g ms"

definition apply_edge_mutations ::
  "('n Value \<Rightarrow> nat) \<Rightarrow> ('n, 'e) MutableGraphState \<Rightarrow> PointIncarnationResolver \<Rightarrow> 'n EdgeMutation list \<Rightarrow> (nid \<Rightarrow> ustr option)
     \<Rightarrow> 'e graph_msg GaussError fallible + ('n, 'e) MutableGraphState" where
  "apply_edge_mutations json_len g resolver ms tenant_for_nid =
     bindE (map_err Returned (validate_edge_mutations_with_types json_len g resolver ms tenant_for_nid (g_types g))) (\<lambda>_.
     bindE (prepare_property_mutations json_len g ms) (\<lambda>prepared.
     map_err Panicked (apply_validated_edge_mutations g prepared)))"

section \<open>The type catalog is one to one\<close>

definition catalog_wf :: "GraphTypeCatalog \<Rightarrow> bool" where
  "catalog_wf c \<longleftrightarrow>
     sorted_wrt (<) (map fst (by_id c)) \<and> map_of (by_id c) 0 = None
   \<and> (\<forall>i d. map_of (by_id c) i = Some d \<longrightarrow> et_type_id d = i \<and> by_name c (et_name d) = Some i)
   \<and> (\<forall>n i. by_name c n = Some i \<longrightarrow> (\<exists>d. map_of (by_id c) i = Some d \<and> et_name d = n))"

lemma catalog_default_wf: "catalog_wf catalog_default"
  by (simp add: catalog_wf_def catalog_default_def)

lemma configure_Inr:
  "configure c i n w = Inr c' \<longleftrightarrow>
     i \<noteq> 0 \<and> n \<noteq> [] \<and> utf8_len n \<le> 255 \<and> (\<forall>v. w = Some v \<longrightarrow> v \<noteq> [] \<and> utf8_len v \<le> 255)
   \<and> (\<forall>d. map_of (by_id c) i = Some d \<longrightarrow> et_name d = n) \<and> (\<forall>j. by_name c n = Some j \<longrightarrow> j = i)
   \<and> c' = \<lparr>by_id = btree_insert i \<lparr>et_type_id = i, et_name = n, et_weight_property = w\<rparr> (by_id c), by_name = (by_name c)(n \<mapsto> i)\<rparr>"
  unfolding configure_def validate_type_id_def validate_catalog_name_def MAX_GRAPH_CATALOG_NAME_BYTES_def
  by (cases w; cases "map_of (by_id c) i"; cases "by_name c n") (auto simp: res_simps not_less split: if_splits)

lemma configure_wf: "catalog_wf c \<Longrightarrow> configure c i n w = Inr c' \<Longrightarrow> catalog_wf c'"
proof -
  assume wf: "catalog_wf c" and "configure c i n w = Inr c'"
  then have c: "i \<noteq> 0" "\<forall>d. map_of (by_id c) i = Some d \<longrightarrow> et_name d = n" "\<forall>j. by_name c n = Some j \<longrightarrow> j = i"
    and c': "map_of (by_id c') = (map_of (by_id c))(i \<mapsto> \<lparr>et_type_id = i, et_name = n, et_weight_property = w\<rparr>)"
      "by_name c' = (by_name c)(n \<mapsto> i)" "sorted_wrt (<) (map fst (by_id c'))"
    unfolding configure_Inr catalog_wf_def by (auto simp: sorted_btree_insert)
  have w1: "et_type_id d = j" "by_name c (et_name d) = Some j" if "map_of (by_id c) j = Some d" for j d
    using wf that by (auto simp: catalog_wf_def)
  have w2: "\<exists>d. map_of (by_id c) j = Some d \<and> et_name d = m" if "by_name c m = Some j" for m j
    using wf that by (auto simp: catalog_wf_def)
  have "et_type_id d = j \<and> by_name c' (et_name d) = Some j" if d: "map_of (by_id c') j = Some d" for j d
  proof (cases "j = i")
    case True
    then show ?thesis using d by (simp add: c') auto
  next
    case False
    then have "map_of (by_id c) j = Some d" using d by (simp add: c')
    from w1 [OF this] show ?thesis using c(3) False by (auto simp: c')
  qed
  moreover have "\<exists>d. map_of (by_id c') j = Some d \<and> et_name d = m" if m: "by_name c' m = Some j" for m j
  proof (cases "m = n")
    case True
    then show ?thesis using m by (simp add: c')
  next
    case False
    then have "by_name c m = Some j" using m by (simp add: c')
    from w2 [OF this] show ?thesis using c(2) False by (auto simp: c')
  qed
  moreover have "map_of (by_id c') 0 = None" using wf c(1) by (simp add: c' catalog_wf_def)
  ultimately show ?thesis using c'(3) unfolding catalog_wf_def by blast
qed

lemma next_type_id_fresh:
  assumes "next_type_id c = Inr i"
  shows "catalog_get c i = None" "i \<noteq> 0" "\<And>j d. catalog_get c j = Some d \<Longrightarrow> j < i"
proof -
  show "catalog_get c i = None" "i \<noteq> 0"
    using assms by (auto simp: next_type_id_def catalog_get_def Let_def split: if_splits)
  fix j d assume "catalog_get c j = Some d"
  then have j: "j \<in> set (map fst (by_id c))" by (auto simp: catalog_get_def dest: map_of_SomeD intro: rev_image_eqI)
  then have le: "j \<le> Max (set (map fst (by_id c)))" by simp
  have "Max (set (map fst (by_id c))) \<in> set (map fst (by_id c))" using j by (intro Max_in) auto
  then have "map_of (by_id c) (Max (set (map fst (by_id c)))) \<noteq> None" by (simp add: map_of_eq_None_iff)
  moreover have "by_id c \<noteq> []" using j by auto
  ultimately have "Max (set (map fst (by_id c))) \<noteq> - 1" "i = Max (set (map fst (by_id c))) + 1"
    using assms by (auto simp: next_type_id_def Let_def split: if_splits)
  moreover from this(1) have "1 + Max (set (map fst (by_id c))) \<noteq> 0" by (metis add.commute eq_neg_iff_add_eq_0)
  ultimately show "j < i" using le unatSuc [of "Max (set (map fst (by_id c)))"]
    by (simp add: word_less_nat_alt word_le_nat_alt add.commute)
qed

lemma stage_types_wf:
  assumes "catalog_wf c" "(stage_types c cs :: ('e, _) gresult) = Inr c'"
  shows "catalog_wf c' \<and> (\<forall>i d. catalog_get c i = Some d \<longrightarrow> (\<exists>d'. catalog_get c' i = Some d' \<and> et_name d' = et_name d))
    \<and> (\<forall>t \<in> set cs. \<exists>d. catalog_get c' (tc_type_id t) = Some d \<and> et_name d = tc_name t)"
  using assms
proof (induction cs arbitrary: c)
  case Nil
  then show ?case by (simp add: stage_types_def)
next
  case (Cons t cs)
  from Cons.prems(2) obtain c1 where c1: "(configure c (tc_type_id t) (tc_name t) (tc_weight_property t) :: ('e, _) gresult) = Inr c1"
      "(stage_types c1 cs :: ('e, _) gresult) = Inr c'"
    by (auto simp: stage_types_def res_simps)
  note IH = Cons.IH [OF configure_wf [OF Cons.prems(1) c1(1)] c1(2)]
  have g: "catalog_get c1 = (catalog_get c)(tc_type_id t \<mapsto>
        \<lparr>et_type_id = tc_type_id t, et_name = tc_name t, et_weight_property = tc_weight_property t\<rparr>)"
    "\<forall>d. catalog_get c (tc_type_id t) = Some d \<longrightarrow> et_name d = tc_name t"
    using c1(1) by (auto simp: configure_Inr catalog_get_def fun_eq_iff)
  from IH have keep: "\<exists>d'. catalog_get c' j = Some d' \<and> et_name d' = et_name d" if "catalog_get c1 j = Some d" for j d using that by blast
  have "\<exists>d'. catalog_get c' j = Some d' \<and> et_name d' = et_name d" if "catalog_get c j = Some d" for j d
    using keep [of j] g that by (cases "j = tc_type_id t") auto
  moreover have "\<exists>d'. catalog_get c' (tc_type_id t) = Some d' \<and> et_name d' = tc_name t" using keep [of "tc_type_id t"] g by auto
  ultimately show ?case using IH by auto
qed

lemma next_type_id_exhausted:
  assumes "catalog_wf c" "next_type_id c = Inl e"
  shows "catalog_get c (- 1) \<noteq> None"
proof (rule ccontr)
  assume n: "\<not> catalog_get c (- 1) \<noteq> None"
  define M where "M = Max (set (map fst (by_id c)))"
  have ne: "by_id c \<noteq> []" using assms(2) by (auto simp: next_type_id_def Let_def split: if_splits)
  then have "M \<in> set (map fst (by_id c))" unfolding M_def by (intro Max_in) auto
  then have "map_of (by_id c) M \<noteq> None" by (simp add: map_of_eq_None_iff)
  then have M: "M \<noteq> - 1" using n by (auto simp: catalog_get_def)
  have z: "1 + M \<noteq> 0" using M by (metis add.commute eq_neg_iff_add_eq_0)
  have "map_of (by_id c) (M + 1) = None"
  proof (rule ccontr)
    assume "map_of (by_id c) (M + 1) \<noteq> None"
    then have "M + 1 \<in> set (map fst (by_id c))" by (simp add: map_of_eq_None_iff)
    then have "M + 1 \<le> M" unfolding M_def by simp
    then show False using unatSuc [OF z] by (simp add: word_le_nat_alt add.commute)
  qed
  then show False using assms(2) ne M z unfolding next_type_id_def Let_def M_def [symmetric] by (simp add: add.commute)
qed

text \<open>
  C25. However a catalog was configured, edge types and names correspond one to one: a name resolves
  to a type exactly when the type is configured with this name. No configured type was renamed
  afterwards, id 0 is never used, and the next id offered is above every configured one, unless
  the last id of the type space is taken.
\<close>

theorem type_catalog_one_to_one:
  assumes "(stage_types catalog_default cs :: ('e, _) gresult) = Inr c"
  shows "(\<forall>i n. resolve_name c n = Some i \<longleftrightarrow> (\<exists>d. catalog_get c i = Some d \<and> et_name d = n))
    \<and> (\<forall>i d. catalog_get c i = Some d \<longrightarrow> et_type_id d = i \<and> i \<noteq> 0)
    \<and> (\<forall>t \<in> set cs. resolve_name c (tc_name t) = Some (tc_type_id t))
    \<and> (case next_type_id c of Inr i \<Rightarrow> i \<noteq> 0 \<and> (\<forall>j. catalog_get c j \<noteq> None \<longrightarrow> j < i) | Inl _ \<Rightarrow> catalog_get c (- 1) \<noteq> None)"
proof -
  have f: "catalog_wf c" "\<forall>t \<in> set cs. \<exists>d. catalog_get c (tc_type_id t) = Some d \<and> et_name d = tc_name t"
    using stage_types_wf [OF catalog_default_wf assms] by blast+
  have r: "resolve_name c n = Some i \<longleftrightarrow> (\<exists>d. catalog_get c i = Some d \<and> et_name d = n)" for i n
    using f(1) by (auto simp: catalog_wf_def resolve_name_def catalog_get_def)
  have "et_type_id d = i \<and> i \<noteq> 0" if "catalog_get c i = Some d" for i d
    using f(1) that by (auto simp: catalog_wf_def catalog_get_def)
  moreover have "case next_type_id c of Inr i \<Rightarrow> i \<noteq> 0 \<and> (\<forall>j. catalog_get c j \<noteq> None \<longrightarrow> j < i) | Inl _ \<Rightarrow> catalog_get c (- 1) \<noteq> None"
    using next_type_id_fresh [of c] next_type_id_exhausted [OF f(1)] by (auto split: sum.splits)
  ultimately show ?thesis using f(2) r by blast
qed

theorem type_catalog_one_to_one_witness:
  "\<exists>c. (stage_types catalog_default
        [\<lparr>tc_type_id = 7, tc_name = str ''knows'', tc_weight_property = None\<rparr>,
         \<lparr>tc_type_id = 9, tc_name = str ''cites'', tc_weight_property = Some (str ''w'')\<rparr>] :: (unit, _) gresult) = Inr c
     \<and> resolve_name c (str ''cites'') = Some 9 \<and> (\<exists>d. catalog_get c 7 = Some d \<and> et_name d = str ''knows'')"
proof -
  obtain c where c: "(stage_types catalog_default
        [\<lparr>tc_type_id = 7, tc_name = str ''knows'', tc_weight_property = None\<rparr>,
         \<lparr>tc_type_id = 9, tc_name = str ''cites'', tc_weight_property = Some (str ''w'')\<rparr>] :: (unit, _) gresult) = Inr c"
    by (simp add: stage_types_def configure_def validate_type_id_def validate_catalog_name_def catalog_default_def res_simps str_def
        utf8_len_def MAX_GRAPH_CATALOG_NAME_BYTES_def)
  have "resolve_name c (str ''cites'') = Some 9 \<and> (\<exists>d. catalog_get c 7 = Some d \<and> et_name d = str ''knows'')"
    using type_catalog_one_to_one [OF c] by auto
  with c show ?thesis by blast
qed

end
