(* ===== verification/Edge_Mutations.thy ===== *)
theory Edge_Mutations
  imports Mutable_Graph
begin

text \<open>
  What a list of edge mutations does to the mutable graph: the invariant of the state, the effect of
  one validated mutation on every read, and the effect of a whole list, merged property documents
  included. The infallible application pass never reaches one of its panics.
\<close>

section \<open>The invariant of the mutable graph\<close>

definition live_ids :: "('n, 'e) MutableGraphState \<Rightarrow> edge_id set" where
  "live_ids g = {i. \<exists>ns. edge_namespace g i = Inr (Some ns)}"

definition documents_ok :: "('n, 'e) MutableGraphState \<Rightarrow> bool" where
  "documents_ok g \<longleftrightarrow>
     dom (edges g) \<subseteq> dom (property_tail g) \<and> (\<forall>i d. property_tail g i = Some d \<longrightarrow> as_object d \<noteq> None)
   \<and> (\<forall>i d. sealed_properties g i = Inr (Some d) \<longrightarrow> as_object d \<noteq> None)"

definition rows_ok :: "('n, 'e) MutableGraphState \<Rightarrow> bool" where
  "rows_ok g \<longleftrightarrow> (\<forall>ns v incoming.
     distinct (tail_rows (adjacency g) ns v incoming)
   \<and> set (tail_rows (adjacency g) ns v incoming) =
       {i. \<exists>e. edges g i = Some e \<and> ge_namespace e = ns \<and> (if incoming then ge_target e else ge_source e) = v})"

text \<open>Every edge, tombstone, sealed row and pending edge has its key in the ledger.\<close>

definition ledger_ok :: "('n, 'e) MutableGraphState \<Rightarrow> bool" where
  "ledger_ok g \<longleftrightarrow>
     (\<forall>i. i \<in> dom (edges g) \<or> i \<in> edge_tombstones g \<or> (\<exists>ns. sealed_namespaces g i = Inr (Some ns))
        \<or> map_of (pending_edges g) i \<noteq> None \<longrightarrow> contains_edge_id g i = Inr True)
   \<and> (\<forall>i e. edges g i = Some e \<longrightarrow> ge_edge_id e = i)"

definition graph_inv :: "('n, 'e) MutableGraphState \<Rightarrow> bool" where
  "graph_inv g \<longleftrightarrow> rows_ok g \<and> documents_ok g \<and> ledger_ok g \<and> live_edges g = card (live_ids g) \<and> 0 \<notin> live_ids g"

lemma tail_rows_insert:
  "tail_rows (adjacency_insert e m) ns v incoming =
     tail_rows m ns v incoming
     @ (if ge_namespace e = ns \<and> (if incoming then ge_target e else ge_source e) = v then [ge_edge_id e] else [])"
  by (cases ns; cases "ge_namespace e")
    (auto simp: tail_rows_def adjacency_insert_def adjacency_namespace_def namespace_insert_def row_def adjacency_default_def
      split: option.splits)

lemma graph_inv_new: "graph_inv (mutable_new ep)"
  by (auto simp: graph_inv_def mutable_new_def rows_ok_def documents_ok_def ledger_ok_def live_ids_def edge_namespace_def
      edge_visible_def tail_rows_def adjacency_namespace_def mutable_adjacency_default_def adjacency_default_def row_def
      split: GraphNamespace.splits)

section \<open>One mutation\<close>

text \<open>The parts of the state no edge mutation touches.\<close>

definition same_base :: "('n, 'e) MutableGraphState \<Rightarrow> ('n, 'e) MutableGraphState \<Rightarrow> bool" where
  "same_base g g' \<longleftrightarrow>
     (\<exists>a ids es pt n ts. g' = g\<lparr>adjacency := a, edge_ids := ids, edges := es, property_tail := pt, live_edges := n, edge_tombstones := ts\<rparr>)"

text \<open>What all reads of one edge depend on.\<close>

definition same_edge :: "edge_id \<Rightarrow> ('n, 'e) MutableGraphState \<Rightarrow> ('n, 'e) MutableGraphState \<Rightarrow> bool" where
  "same_edge i g g' \<longleftrightarrow>
     edges g' i = edges g i \<and> property_tail g' i = property_tail g i \<and> (i \<in> edge_tombstones g' \<longleftrightarrow> i \<in> edge_tombstones g)
   \<and> (i \<in> edge_ids g' \<longleftrightarrow> i \<in> edge_ids g)"

lemma same_base_fields:
  "same_base g g' \<Longrightarrow> sealed_namespaces g' = sealed_namespaces g \<and> sealed_properties g' = sealed_properties g
     \<and> sealed_ledger g' = sealed_ledger g \<and> sealed_adjacency g' = sealed_adjacency g \<and> pending_edges g' = pending_edges g
     \<and> g_types g' = g_types g \<and> deferred_sessions g' = deferred_sessions g \<and> pending_by_endpoint g' = pending_by_endpoint g
     \<and> g_epoch g' = g_epoch g \<and> idempotency g' = idempotency g \<and> persist_changes g' = persist_changes g"
  by (auto simp: same_base_def)

lemma same_base_refl: "same_base g g"
  unfolding same_base_def
  by (rule exI [of _ "adjacency g"], rule exI [of _ "edge_ids g"], rule exI [of _ "edges g"], rule exI [of _ "property_tail g"],
      rule exI [of _ "live_edges g"], rule exI [of _ "edge_tombstones g"]) simp

lemma same_base_trans: "same_base g g' \<Longrightarrow> same_base g' g'' \<Longrightarrow> same_base g g''"
  unfolding same_base_def by (elim exE) (simp, blast)

lemma apply_Relate:
  "apply_mutation g (Relate r) = Inr g' \<longleftrightarrow>
     live_edges g + 1 < 2 ^ 64 \<and>
     g' = g\<lparr>adjacency := adjacency_insert \<lparr>ge_edge_id = rm_edge_id r, ge_source = rm_source r, ge_target = rm_target r,
              ge_type_id = rm_type_id r, ge_namespace = rm_namespace r, ge_properties = ()\<rparr> (adjacency g),
            edge_ids := (if map_of (pending_edges g) (rm_edge_id r) = None then insert (rm_edge_id r) (edge_ids g) else edge_ids g),
            edges := (edges g)(rm_edge_id r \<mapsto> \<lparr>ge_edge_id = rm_edge_id r, ge_source = rm_source r, ge_target = rm_target r,
              ge_type_id = rm_type_id r, ge_namespace = rm_namespace r, ge_properties = ()\<rparr>),
            property_tail := (property_tail g)(rm_edge_id r \<mapsto> rm_properties r), live_edges := live_edges g + 1\<rparr>"
  by (auto simp: apply_mutation_def Let_def expect_def checked_add_def)

lemma apply_Unrelate:
  "apply_mutation g (Unrelate i) = Inr g' \<longleftrightarrow>
     0 < live_edges g \<and> g' = g\<lparr>edge_tombstones := insert i (edge_tombstones g), live_edges := live_edges g - 1\<rparr>"
  by (auto simp: apply_mutation_def expect_def)

lemma apply_Properties:
  "apply_mutation g (Properties p) = Inr g' \<Longrightarrow> \<exists>d. g' = g\<lparr>property_tail := (property_tail g)(pm_edge_id p \<mapsto> d)\<rparr>"
  "pm_mode p = Replace \<Longrightarrow> apply_mutation g (Properties p) = Inr (g\<lparr>property_tail := (property_tail g)(pm_edge_id p \<mapsto> pm_properties p)\<rparr>)"
  by (auto simp: apply_mutation_def expect_def res_simps split: EdgePropertyMode.splits)

lemma same_baseI:
  "g' = g\<lparr>adjacency := adjacency g', edge_ids := edge_ids g', edges := edges g', property_tail := property_tail g',
     live_edges := live_edges g', edge_tombstones := edge_tombstones g'\<rparr> \<Longrightarrow> same_base g g'"
  unfolding same_base_def by blast

lemma apply_mutation_frame:
  assumes "apply_mutation g m = Inr g'"
  shows "same_base g g'" and "i \<noteq> mutation_edge_id m \<Longrightarrow> same_edge i g g'"
proof -
  have "same_base g g' \<and> (i \<noteq> mutation_edge_id m \<longrightarrow> same_edge i g g')"
  proof (cases m)
    case (Relate r)
    then show ?thesis using assms by (auto simp: apply_Relate same_edge_def intro!: same_baseI)
  next
    case (Unrelate j)
    then show ?thesis using assms by (auto simp: apply_Unrelate same_edge_def intro!: same_baseI)
  next
    case (Properties p)
    then obtain d where "g' = g\<lparr>property_tail := (property_tail g)(pm_edge_id p \<mapsto> d)\<rparr>" using assms apply_Properties(1) by blast
    then show ?thesis using Properties by (auto simp: same_edge_def intro!: same_baseI)
  qed
  then show "same_base g g'" "i \<noteq> mutation_edge_id m \<Longrightarrow> same_edge i g g'" by blast+
qed

lemma same_edge_reads:
  assumes "same_base g g'" "same_edge i g g'"
  shows "edge_namespace g' i = edge_namespace g i" "has_live_edge g' i = has_live_edge g i"
    "contains_edge_id g' i = contains_edge_id g i" "edge_properties g' i = edge_properties g i"
proof -
  note same = same_base_fields [OF assms(1)] assms(2)
  show ns: "edge_namespace g' i = edge_namespace g i" using same by (simp add: edge_namespace_def edge_visible_def same_edge_def split: option.splits)
  then show live: "has_live_edge g' i = has_live_edge g i" by (simp add: has_live_edge_def)
  show "contains_edge_id g' i = contains_edge_id g i" using same by (simp add: contains_edge_id_def same_edge_def)
  have "stored_properties g' i = stored_properties g i" using same
    by (simp add: stored_properties_def same_edge_def split: option.splits)
  then show "edge_properties g' i = edge_properties g i" using live by (simp add: edge_properties_def cong: if_cong)
qed

definition ready :: "('n, 'e) MutableGraphState \<Rightarrow> 'n EdgeMutation \<Rightarrow> bool" where
  "ready g m \<longleftrightarrow>
     (case m of
        Relate r \<Rightarrow> rm_edge_id r \<noteq> 0 \<and> edges g (rm_edge_id r) = None \<and> rm_edge_id r \<notin> edge_tombstones g
          \<and> (\<forall>ns. sealed_namespaces g (rm_edge_id r) \<noteq> Inr (Some ns))
          \<and> (map_of (pending_edges g) (rm_edge_id r) = None \<or> contains_edge_id g (rm_edge_id r) = Inr True)
          \<and> as_object (rm_properties r) \<noteq> None
      | Unrelate i \<Rightarrow> has_live_edge g i = Inr True
      | Properties p \<Rightarrow> has_live_edge g (pm_edge_id p) = Inr True \<and> pm_mode p = Replace \<and> as_object (pm_properties p) \<noteq> None)"

lemma ready_same:
  assumes "ready g m" "same_base g g'" "same_edge (mutation_edge_id m) g g'"
  shows "ready g' m"
  using assms(1,3) same_base_fields [OF assms(2)] same_edge_reads [OF assms(2,3)]
  by (cases m) (simp_all add: ready_def same_edge_def)

text \<open>What a prepared mutation makes of the reads of its edge.\<close>

definition namespace_after :: "'n EdgeMutation \<Rightarrow> ('e, GraphNamespace option) gresult \<Rightarrow> ('e, GraphNamespace option) gresult" where
  "namespace_after m old =
     (case m of Relate r \<Rightarrow> Inr (Some (rm_namespace r)) | Unrelate _ \<Rightarrow> Inr None | Properties _ \<Rightarrow> old)"

definition document_after :: "'n EdgeMutation \<Rightarrow> ('e, 'n Value option) gresult" where
  "document_after m =
     (case m of Relate r \<Rightarrow> Inr (Some (rm_properties r)) | Unrelate _ \<Rightarrow> Inr None | Properties p \<Rightarrow> Inr (Some (pm_properties p)))"

definition appended :: "'n EdgeMutation \<Rightarrow> GraphNamespace \<Rightarrow> nid \<Rightarrow> bool \<Rightarrow> edge_id list" where
  "appended m ns v incoming =
     (case m of
        Relate r \<Rightarrow> if rm_namespace r = ns \<and> (if incoming then rm_target r else rm_source r) = v then [rm_edge_id r] else []
      | _ \<Rightarrow> [])"

lemma has_live_edge_True: "has_live_edge g i = Inr True \<longleftrightarrow> i \<in> live_ids g"
  by (auto simp: has_live_edge_def live_ids_def res_simps)

lemma card_ids: "0 \<notin> (A :: edge_id set) \<Longrightarrow> card A < 2 ^ 64"
proof -
  assume "0 \<notin> A"
  then have "card A \<le> card (UNIV - {0 :: edge_id})" by (intro card_mono) auto
  also have "\<dots> = 2 ^ 64 - 1" by (simp add: card_Diff_singleton card_word)
  finally show ?thesis by simp
qed

lemma live_ids_step:
  assumes "same_base g g'" "\<And>j. j \<noteq> i \<Longrightarrow> same_edge j g g'"
  shows "live_ids g' = (if \<exists>ns. edge_namespace g' i = Inr (Some ns) then insert i (live_ids g) else live_ids g - {i})"
proof -
  have "j \<in> live_ids g' \<longleftrightarrow> j \<in> live_ids g" if "j \<noteq> i" for j
    using same_edge_reads(1) [OF assms(1) assms(2) [OF that]] by (simp add: live_ids_def)
  then have "j \<in> live_ids g' \<longleftrightarrow> j \<in> (if \<exists>ns. edge_namespace g' i = Inr (Some ns) then insert i (live_ids g) else live_ids g - {i})" for j
    by (cases "j = i") (auto simp: live_ids_def)
  then show ?thesis by blast
qed

lemma ledger_ok_step:
  assumes base: "same_base g g'" and other: "\<And>j. j \<noteq> i \<Longrightarrow> same_edge j g g'" and ok: "ledger_ok g"
    and known: "contains_edge_id g' i = Inr True" and own: "\<And>e. edges g' i = Some e \<Longrightarrow> ge_edge_id e = i"
  shows "ledger_ok g'"
proof -
  have "contains_edge_id g' j = Inr True"
    if "j \<in> dom (edges g') \<or> j \<in> edge_tombstones g' \<or> (\<exists>ns. sealed_namespaces g' j = Inr (Some ns))
      \<or> map_of (pending_edges g') j \<noteq> None" for j
  proof (cases "j = i")
    case False
    then have j: "same_edge j g g'" by (rule other)
    then show ?thesis using same_edge_reads(3) [OF base j] ok that same_base_fields [OF base]
      by (auto simp: ledger_ok_def same_edge_def dom_def)
  qed (simp add: known)
  moreover have "ge_edge_id e = j" if "edges g' j = Some e" for j e
    using that own other [of j] ok by (cases "j = i") (auto simp: ledger_ok_def same_edge_def)
  ultimately show ?thesis by (simp add: ledger_ok_def)
qed

text \<open>A mutation that is ready does not panic, keeps the invariant and has the effect it names.\<close>

definition effect_of :: "('n, 'e) MutableGraphState \<Rightarrow> 'n EdgeMutation \<Rightarrow> ('n, 'e) MutableGraphState \<Rightarrow> bool" where
  "effect_of g m g' \<longleftrightarrow>
     edge_namespace g' (mutation_edge_id m) = namespace_after m (edge_namespace g (mutation_edge_id m))
   \<and> edge_properties g' (mutation_edge_id m) = document_after m
   \<and> (\<forall>ns v incoming. tail_rows (adjacency g') ns v incoming = tail_rows (adjacency g) ns v incoming @ appended m ns v incoming)"

lemma relate_step:
  assumes inv: "graph_inv g" and ready: "ready g (Relate r)"
  shows "\<exists>g'. apply_mutation g (Relate r) = Inr g' \<and> graph_inv g' \<and> effect_of g (Relate r) g'"
proof -
  let ?i = "rm_edge_id r"
  let ?e = "\<lparr>ge_edge_id = ?i, ge_source = rm_source r, ge_target = rm_target r, ge_type_id = rm_type_id r,
     ge_namespace = rm_namespace r, ge_properties = ()\<rparr>"
  have rd: "?i \<noteq> 0" "edges g ?i = None" "?i \<notin> edge_tombstones g" "\<And>ns. sealed_namespaces g ?i \<noteq> Inr (Some ns)"
    "map_of (pending_edges g) ?i = None \<or> contains_edge_id g ?i = Inr True" "as_object (rm_properties r) \<noteq> None"
    using ready by (auto simp: ready_def)
  have new: "?i \<notin> live_ids g" using rd by (auto simp: live_ids_def edge_namespace_def edge_visible_def)
  have "card (insert ?i (live_ids g)) < 2 ^ 64" using inv rd(1) by (intro card_ids) (auto simp: graph_inv_def)
  then have "live_edges g + 1 < 2 ^ 64" using new inv by (simp add: graph_inv_def)
  then obtain g' where app: "apply_mutation g (Relate r) = Inr g'" by (metis apply_Relate)
  note g' = conjunct2 [OF app [unfolded apply_Relate]]
  note base = apply_mutation_frame(1) [OF app]
  have other: "\<And>j. j \<noteq> ?i \<Longrightarrow> same_edge j g g'" by (rule apply_mutation_frame(2) [OF app]) simp
  have ns: "edge_namespace g' ?i = Inr (Some (rm_namespace r))" using rd(3) by (simp add: g' edge_namespace_def edge_visible_def)
  have doc: "edge_properties g' ?i = Inr (Some (rm_properties r))"
    by (simp add: edge_properties_def has_live_edge_def ns) (simp add: g' stored_properties_def)
  have rows: "tail_rows (adjacency g') ns v incoming = tail_rows (adjacency g) ns v incoming @ appended (Relate r) ns v incoming" for ns v incoming
    by (simp add: g' tail_rows_insert appended_def)
  have es: "edges g' = (edges g)(?i \<mapsto> ?e)" by (simp add: g')
  have "rows_ok g'" unfolding rows_ok_def
  proof (intro allI conjI)
    fix ns v incoming
    have old: "distinct (tail_rows (adjacency g) ns v incoming)" "set (tail_rows (adjacency g) ns v incoming) =
       {i. \<exists>e. edges g i = Some e \<and> ge_namespace e = ns \<and> (if incoming then ge_target e else ge_source e) = v}"
      using inv by (auto simp: graph_inv_def rows_ok_def)
    then show "distinct (tail_rows (adjacency g') ns v incoming)" using rd(2) by (auto simp: rows appended_def)
    show "set (tail_rows (adjacency g') ns v incoming) =
       {i. \<exists>e. edges g' i = Some e \<and> ge_namespace e = ns \<and> (if incoming then ge_target e else ge_source e) = v}"
      unfolding rows set_append old(2) es using rd(2) by (auto simp: appended_def)
  qed
  moreover have "documents_ok g'" using inv rd(6) by (auto simp: graph_inv_def documents_ok_def g')
  moreover have "ledger_ok g'"
    by (rule ledger_ok_step [OF base other]) (use inv rd(5) in \<open>auto simp: graph_inv_def contains_edge_id_def g'\<close>)
  moreover have "live_ids g' = insert ?i (live_ids g)" using live_ids_step [OF base other] ns by simp
  ultimately have "graph_inv g'" using inv new rd(1) by (simp add: graph_inv_def) (simp add: g')
  then show ?thesis using app ns doc rows by (auto simp: effect_of_def namespace_after_def document_after_def)
qed

lemma unrelate_step:
  assumes inv: "graph_inv g" and ready: "ready g (Unrelate i)"
  shows "\<exists>g'. apply_mutation g (Unrelate i) = Inr g' \<and> graph_inv g' \<and> effect_of g (Unrelate i) g'"
proof -
  have live: "i \<in> live_ids g" using ready by (simp add: ready_def has_live_edge_True)
  then have "0 < card (live_ids g)" by (auto simp: card_gt_0_iff)
  then have "0 < live_edges g" using inv by (simp add: graph_inv_def)
  then obtain g' where app: "apply_mutation g (Unrelate i) = Inr g'" by (metis apply_Unrelate)
  note g' = conjunct2 [OF app [unfolded apply_Unrelate]]
  note base = apply_mutation_frame(1) [OF app]
  have other: "\<And>j. j \<noteq> i \<Longrightarrow> same_edge j g g'" by (rule apply_mutation_frame(2) [OF app]) simp
  have ns: "edge_namespace g' i = Inr None" by (simp add: g' edge_namespace_def edge_visible_def)
  have doc: "edge_properties g' i = Inr None" by (simp add: edge_properties_def has_live_edge_def ns)
  have known: "contains_edge_id g i = Inr True"
    using live inv by (auto simp: graph_inv_def ledger_ok_def live_ids_def edge_namespace_def split: if_splits option.splits)
  have "rows_ok g'" "documents_ok g'" using inv by (simp_all add: graph_inv_def rows_ok_def documents_ok_def g')
  moreover have "ledger_ok g'"
    by (rule ledger_ok_step [OF base other]) (use inv known in \<open>auto simp: graph_inv_def ledger_ok_def contains_edge_id_def g'\<close>)
  moreover have "live_ids g' = live_ids g - {i}" using live_ids_step [OF base other] ns by simp
  ultimately have "graph_inv g'" using inv live by (simp add: graph_inv_def) (simp add: g')
  then show ?thesis using app ns doc
    by (auto simp: effect_of_def namespace_after_def document_after_def appended_def g')
qed

lemma properties_step:
  assumes inv: "graph_inv g" and ready: "ready g (Properties p)"
  shows "\<exists>g'. apply_mutation g (Properties p) = Inr g' \<and> graph_inv g' \<and> effect_of g (Properties p) g'"
proof -
  let ?g' = "g\<lparr>property_tail := (property_tail g)(pm_edge_id p \<mapsto> pm_properties p)\<rparr>"
  have rd: "has_live_edge g (pm_edge_id p) = Inr True" "pm_mode p = Replace" "as_object (pm_properties p) \<noteq> None"
    using ready by (auto simp: ready_def)
  note app = apply_Properties(2) [OF rd(2), of g]
  have ns: "edge_namespace ?g' j = edge_namespace g j" for j by (simp add: edge_namespace_def edge_visible_def split: option.splits)
  have doc: "edge_properties ?g' (pm_edge_id p) = Inr (Some (pm_properties p))"
    using rd(1) by (simp add: edge_properties_def has_live_edge_def ns) (simp add: stored_properties_def)
  have "graph_inv ?g'" using inv rd(3)
    by (auto simp: graph_inv_def rows_ok_def documents_ok_def ledger_ok_def contains_edge_id_def live_ids_def ns)
  then show ?thesis using app ns doc
    by (auto simp: effect_of_def namespace_after_def document_after_def appended_def)
qed

lemma mutation_step: "graph_inv g \<Longrightarrow> ready g m \<Longrightarrow> \<exists>g'. apply_mutation g m = Inr g' \<and> graph_inv g' \<and> effect_of g m g'"
  by (cases m) (simp_all add: relate_step unrelate_step properties_step)

section \<open>A list of mutations\<close>

definition mutation_of :: "'n EdgeMutation list \<Rightarrow> edge_id \<Rightarrow> 'n EdgeMutation option" where
  "mutation_of ms i = find (\<lambda>m. mutation_edge_id m = i) ms"

definition effects_of :: "('n, 'e) MutableGraphState \<Rightarrow> 'n EdgeMutation list \<Rightarrow> ('n, 'e) MutableGraphState \<Rightarrow> bool" where
  "effects_of g ms g' \<longleftrightarrow>
     (\<forall>i. case mutation_of ms i of
            None \<Rightarrow> same_edge i g g'
          | Some m \<Rightarrow> edge_namespace g' i = namespace_after m (edge_namespace g i) \<and> edge_properties g' i = document_after m)
   \<and> (\<forall>ns v incoming. tail_rows (adjacency g') ns v incoming = tail_rows (adjacency g) ns v incoming @ concat (map (\<lambda>m. appended m ns v incoming) ms))"

lemma same_edge_trans: "same_edge i g g' \<Longrightarrow> same_edge i g' g'' \<Longrightarrow> same_edge i g g''"
  by (simp add: same_edge_def)

lemma mutations_apply:
  assumes "graph_inv g" "\<forall>m \<in> set ms. ready g m" "distinct (map mutation_edge_id ms)"
  shows "\<exists>g'. apply_validated_edge_mutations g ms = Inr g' \<and> graph_inv g' \<and> same_base g g' \<and> effects_of g ms g'"
  using assms
proof (induction ms arbitrary: g)
  case Nil
  then show ?case by (auto simp: apply_validated_edge_mutations_def same_base_refl effects_of_def mutation_of_def same_edge_def)
next
  case (Cons m ms)
  from Cons.prems obtain g1 where g1: "apply_mutation g m = Inr g1" "graph_inv g1" "effect_of g m g1"
    using mutation_step [of g m] by auto
  note base = apply_mutation_frame(1) [OF g1(1)] and other = apply_mutation_frame(2) [OF g1(1)]
  have "ready g1 m'" if "m' \<in> set ms" for m'
  proof (rule ready_same [OF _ base other])
    show "ready g m'" using Cons.prems(2) that by simp
    show "mutation_edge_id m' \<noteq> mutation_edge_id m" using Cons.prems(3) that by (auto simp: image_iff)
  qed
  then obtain g' where g': "apply_validated_edge_mutations g1 ms = Inr g'" "graph_inv g'" "same_base g1 g'" "effects_of g1 ms g'"
    using Cons.IH [OF g1(2)] Cons.prems(3) by (metis distinct.simps(2) list.simps(9))
  have "effects_of g (m # ms) g'" unfolding effects_of_def
  proof (intro conjI allI)
    fix i
    show "case mutation_of (m # ms) i of None \<Rightarrow> same_edge i g g'
       | Some m \<Rightarrow> edge_namespace g' i = namespace_after m (edge_namespace g i) \<and> edge_properties g' i = document_after m"
    proof (cases "mutation_edge_id m = i")
      case True
      then have "mutation_of ms i = None" using Cons.prems(3) by (auto simp: mutation_of_def find_None_iff image_iff)
      then have "same_edge i g1 g'" using g'(4) by (auto simp: effects_of_def dest: spec [of _ i])
      then show ?thesis using True g1(3) same_edge_reads [OF g'(3)] by (simp add: mutation_of_def effect_of_def)
    next
      case False
      then have s: "same_edge i g g1" by (intro other) simp
      have "case mutation_of ms i of None \<Rightarrow> same_edge i g1 g'
       | Some m \<Rightarrow> edge_namespace g' i = namespace_after m (edge_namespace g1 i) \<and> edge_properties g' i = document_after m"
        using g'(4) by (simp add: effects_of_def)
      then show ?thesis using False same_edge_reads [OF base s] same_edge_trans [OF s]
        by (simp add: mutation_of_def split: option.splits)
    qed
  qed (use g1(3) g'(4) in \<open>simp add: effects_of_def effect_of_def\<close>)
  then show ?case using g1 g' same_base_trans [OF base g'(3)] by (auto simp: apply_validated_edge_mutations_def)
qed

section \<open>Validation and preparation\<close>

lemma merge_object_lookup: "map_of (merge_object document patch) = map_of document ++ map_of (rev patch)"
  by (induction patch arbitrary: document) (auto simp: merge_object_def map_add_def split: option.splits)

definition replaced_document :: "('e, 'n Value option) gresult \<Rightarrow> 'n EdgePropertyMutation \<Rightarrow> 'n Value option" where
  "replaced_document old p =
     (case pm_mode p of
        Replace \<Rightarrow> Some (pm_properties p)
      | Merge \<Rightarrow>
          (case (old, pm_properties p) of
             (Inr (Some (JObject object)), JObject patch) \<Rightarrow> Some (JObject (merge_object object patch)) | _ \<Rightarrow> None))"

lemma as_object_Some: "as_object v = Some kvs \<longleftrightarrow> v = JObject kvs"
  by (cases v) auto

lemma validate_property_document_Inr:
  "validate_property_document json_len p item = Inr u \<Longrightarrow> as_object p \<noteq> None"
  by (cases p) (auto simp: validate_property_document_def)

lemma validate_loop_Inr:
  assumes "validate_loop json_len g resolver tenant types promoted item seen ms = Inr u"
  shows "distinct (map mutation_edge_id ms) \<and> mutation_edge_id ` set ms \<inter> seen = {}
     \<and> (\<forall>m \<in> set ms. \<exists>k. validate_mutation json_len g resolver tenant types promoted k m = Inr ())"
  using assms
proof (induction ms arbitrary: item seen)
  case (Cons m ms)
  then have v: "mutation_edge_id m \<notin> seen" "validate_mutation json_len g resolver tenant types promoted item m = Inr ()"
    "validate_loop json_len g resolver tenant types promoted (item + 1) (insert (mutation_edge_id m) seen) ms = Inr u"
    by (auto simp: res_simps split: if_splits)
  from Cons.IH [OF v(3)] v(1,2) show ?case by auto
qed simp

lemma prepare_mutation_cases:
  assumes inv: "graph_inv g" and val: "validate_mutation json_len g resolver tenant types promoted k m = Inr ()"
  shows "(\<exists>e. prepare_mutation json_len g item m = Inl (Returned e))
     \<or> (\<exists>m'. prepare_mutation json_len g item m = Inr m' \<and> mutation_edge_id m' = mutation_edge_id m
          \<and> (case m of Properties p \<Rightarrow> (\<exists>d. replaced_document (edge_properties g (pm_edge_id p)) p = Some d \<and> as_object d \<noteq> None
               \<and> m' = Properties (p\<lparr>pm_mode := Replace, pm_properties := d\<rparr>)) | _ \<Rightarrow> m' = m))"
proof (cases m)
  case (Properties p)
  have patch: "\<exists>kvs. pm_properties p = JObject kvs"
    using val Properties validate_property_document_Inr by (fastforce simp: validate_mutation_def res_simps as_object_Some split: if_splits)
  show ?thesis
  proof (cases "pm_mode p")
    case Replace
    then show ?thesis using Properties patch
      by (cases "validate_property_document json_len (pm_properties p) item :: ('b, unit) gresult")
        (auto simp: prepare_mutation_def replaced_document_def)
  next
    case Merge
    show ?thesis
    proof (cases "edge_properties g (pm_edge_id p)")
      case (Inl e)
      then show ?thesis using Properties Merge by (simp add: prepare_mutation_def)
    next
      case (Inr d)
      show ?thesis
      proof (cases d)
        case None
        then show ?thesis using Properties Merge Inr by (simp add: prepare_mutation_def)
      next
        case (Some doc)
        have "as_object doc \<noteq> None"
          using inv Inr Some by (auto simp: graph_inv_def documents_ok_def edge_properties_def stored_properties_def res_simps
              split: if_splits option.splits)
        then obtain object where "doc = JObject object" by (auto simp: as_object_Some)
        then show ?thesis using Properties Merge Inr Some patch
          by (cases "validate_property_document json_len (JObject (merge_object object (the (as_object (pm_properties p))))) item :: ('b, unit) gresult")
            (auto simp: prepare_mutation_def replaced_document_def expect_def)
      qed
    qed
  qed
qed (simp_all add: prepare_mutation_def)

definition prepared_as :: "('n, 'e) MutableGraphState \<Rightarrow> 'n EdgeMutation \<Rightarrow> 'n EdgeMutation \<Rightarrow> bool" where
  "prepared_as g m m' \<longleftrightarrow>
     (case m of Properties p \<Rightarrow> (\<exists>d. replaced_document (edge_properties g (pm_edge_id p)) p = Some d \<and> as_object d \<noteq> None
        \<and> m' = Properties (p\<lparr>pm_mode := Replace, pm_properties := d\<rparr>)) | _ \<Rightarrow> m' = m)"

lemma prepared_as_id: "prepared_as g m m' \<Longrightarrow> mutation_edge_id m' = mutation_edge_id m"
  by (cases m) (auto simp: prepared_as_def)

lemma prepare_loop_cases:
  assumes "graph_inv g" "\<forall>m \<in> set ms. \<exists>k. validate_mutation json_len g resolver tenant types promoted k m = Inr ()"
  shows "(\<exists>e. prepare_loop json_len g item ms = Inl (Returned e))
     \<or> (\<exists>ms'. prepare_loop json_len g item ms = Inr ms' \<and> list_all2 (prepared_as g) ms ms')"
  using assms(2)
proof (induction ms arbitrary: item)
  case (Cons m ms)
  then obtain k where "validate_mutation json_len g resolver tenant types promoted k m = Inr ()" by auto
  from prepare_mutation_cases [OF assms(1) this, of item] Cons.IH [of "item + 1"] Cons.prems
  show ?case by (auto simp: prepared_as_def)
qed simp

text \<open>An edge that no read sees yet and that may be related: a new id, or a pending edge.\<close>

definition dormant :: "('n, 'e) MutableGraphState \<Rightarrow> edge_id \<Rightarrow> bool" where
  "dormant g i \<longleftrightarrow> edges g i = None \<and> i \<notin> edge_tombstones g \<and> (\<forall>ns. sealed_namespaces g i \<noteq> Inr (Some ns))"

lemma dormant_not_live: "dormant g i \<Longrightarrow> i \<notin> live_ids g"
  by (auto simp: dormant_def live_ids_def edge_namespace_def edge_visible_def)

lemma unknown_dormant: "graph_inv g \<Longrightarrow> contains_edge_id g i = Inr False \<Longrightarrow> dormant g i \<and> map_of (pending_edges g) i = None"
  by (auto simp: dormant_def graph_inv_def ledger_ok_def dom_def)

lemma pending_known: "graph_inv g \<Longrightarrow> map_of (pending_edges g) i \<noteq> None \<Longrightarrow> contains_edge_id g i = Inr True"
  by (auto simp: graph_inv_def ledger_ok_def)

lemma validated_ready:
  assumes inv: "graph_inv g" and val: "validate_mutation json_len g resolver tenant types promotions k m = Inr ()"
    and prom: "\<forall>i \<in> promotions. dormant g i" and prep: "prepared_as g m m'"
  shows "ready g m'"
proof (cases m)
  case (Relate r)
  then have r: "validate_edge_id (rm_edge_id r) k = (Inr () :: ('b, unit) gresult)" "as_object (rm_properties r) \<noteq> None"
    "rm_edge_id r \<notin> promotions \<Longrightarrow> contains_edge_id g (rm_edge_id r) = Inr False"
    using val validate_property_document_Inr by (fastforce simp: validate_mutation_def validate_relate_def res_simps Let_def split: if_splits)+
  have nz: "rm_edge_id r \<noteq> 0" using r(1) by (auto simp: validate_edge_id_def edge_from_parts_def edge_epoch_def edge_counter_def split: if_splits)
  have "dormant g (rm_edge_id r)" using prom r(3) unknown_dormant [OF inv] by blast
  moreover have "map_of (pending_edges g) (rm_edge_id r) = None \<or> contains_edge_id g (rm_edge_id r) = Inr True"
    using pending_known [OF inv] by blast
  ultimately show ?thesis using Relate prep r(2) nz by (simp add: prepared_as_def ready_def dormant_def)
next
  case (Unrelate i)
  then show ?thesis using val prep by (auto simp: validate_mutation_def prepared_as_def ready_def res_simps split: if_splits)
next
  case (Properties p)
  then show ?thesis using val prep by (auto simp: validate_mutation_def prepared_as_def ready_def res_simps split: if_splits)
qed

lemma validated_all_ready:
  assumes inv: "graph_inv g" and val: "validate_edge_mutations_with_types_and_promotions json_len g resolver ms tenant types promotions = Inr ()"
    and prom: "\<forall>i \<in> promotions. dormant g i"
  shows "(\<exists>e. prepare_property_mutations json_len g ms = Inl (Returned e))
     \<or> (\<exists>ms'. prepare_property_mutations json_len g ms = Inr ms' \<and> list_all2 (prepared_as g) ms ms'
          \<and> (\<forall>m' \<in> set ms'. ready g m') \<and> distinct (map mutation_edge_id ms'))"
    and "distinct (map mutation_edge_id ms)"
proof -
  have v: "distinct (map mutation_edge_id ms)" "\<forall>m \<in> set ms. \<exists>k. validate_mutation json_len g resolver tenant types promotions k m = Inr ()"
    using val validate_loop_Inr unfolding validate_edge_mutations_with_types_and_promotions_def by blast+
  show "distinct (map mutation_edge_id ms)" by (rule v(1))
  from prepare_loop_cases [OF inv v(2), of 0] show "(\<exists>e. prepare_property_mutations json_len g ms = Inl (Returned e))
     \<or> (\<exists>ms'. prepare_property_mutations json_len g ms = Inr ms' \<and> list_all2 (prepared_as g) ms ms'
          \<and> (\<forall>m' \<in> set ms'. ready g m') \<and> distinct (map mutation_edge_id ms'))"
  proof (elim disjE exE conjE)
    fix ms' assume p: "prepare_loop json_len g 0 ms = Inr ms'" "list_all2 (prepared_as g) ms ms'"
    have "ready g m'" if m': "m' \<in> set ms'" for m'
    proof -
      from m' p(2) obtain m where "m \<in> set ms" "prepared_as g m m'" by (metis list_all2_conv_all_nth in_set_conv_nth)
      then show ?thesis using v(2) validated_ready [OF inv _ prom] by blast
    qed
    moreover have "map mutation_edge_id ms' = map mutation_edge_id ms"
      using p(2) by (induction rule: list_all2_induct) (auto simp: prepared_as_id)
    ultimately show ?thesis using p v(1) by (auto simp: prepare_property_mutations_def)
  qed (auto simp: prepare_property_mutations_def)
qed

lemma mutation_of_prepared:
  assumes "list_all2 (prepared_as g) ms ms'"
  shows "rel_option (prepared_as g) (mutation_of ms i) (mutation_of ms' i)"
  using assms by (induction rule: list_all2_induct) (auto simp: mutation_of_def prepared_as_id)

lemma apply_edge_mutations_cases:
  assumes inv: "graph_inv g"
  shows "(\<exists>e. apply_edge_mutations json_len g resolver ms tenant = Inl (Returned e))
     \<or> (\<exists>g' ms'. apply_edge_mutations json_len g resolver ms tenant = Inr g' \<and> graph_inv g' \<and> distinct (map mutation_edge_id ms)
          \<and> list_all2 (prepared_as g) ms ms' \<and> same_base g g' \<and> effects_of g ms' g')"
proof (cases "validate_edge_mutations_with_types json_len g resolver ms tenant (g_types g)")
  case (Inl e)
  then show ?thesis by (simp add: apply_edge_mutations_def)
next
  case (Inr u)
  then have v: "validate_edge_mutations_with_types_and_promotions json_len g resolver ms tenant (g_types g) {} = Inr ()"
    by (simp add: validate_edge_mutations_with_types_def)
  have none: "\<forall>i \<in> {}. dormant g i" by simp
  note distinct = validated_all_ready(2) [OF inv v none]
  from validated_all_ready(1) [OF inv v none] show ?thesis
  proof (elim disjE exE conjE)
    fix ms' assume p: "prepare_property_mutations json_len g ms = Inr ms'" "list_all2 (prepared_as g) ms ms'"
      "\<forall>m' \<in> set ms'. ready g m'" "distinct (map mutation_edge_id ms')"
    then obtain g' where "apply_validated_edge_mutations g ms' = Inr g'" "graph_inv g'" "same_base g g'" "effects_of g ms' g'"
      using mutations_apply [OF inv, of ms'] by auto
    then show ?thesis using Inr p distinct by (auto simp: apply_edge_mutations_def)
  qed (use Inr in \<open>auto simp: apply_edge_mutations_def\<close>)
qed

section \<open>An example graph\<close>

definition example_graph :: "(nat, unit) MutableGraphState" where
  "example_graph = (mutable_new 1)\<lparr>g_types := \<lparr>by_id = [(7, \<lparr>et_type_id = 7, et_name = str ''knows'', et_weight_property = None\<rparr>)],
     by_name = [str ''knows'' \<mapsto> 7]\<rparr>\<rparr>"

definition example_resolver :: PointIncarnationResolver where
  "example_resolver = \<lparr>live_by_point = [str ''a'' \<mapsto> 1, str ''b'' \<mapsto> 2], live_by_nid = [1 \<mapsto> str ''a'', 2 \<mapsto> str ''b''], retired = {}\<rparr>"

definition example_relate :: "nat RelateMutation" where
  "example_relate = \<lparr>rm_edge_id = 0x0000010000000001, rm_source = 1, rm_target = 2, rm_type_id = 7, rm_namespace = Tenant (str ''t''),
     rm_properties = JObject [(str ''w'', JBool True)]\<rparr>"

lemma graph_inv_types: "graph_inv (g\<lparr>g_types := t\<rparr>) = graph_inv g"
proof -
  have "edge_namespace (g\<lparr>g_types := t\<rparr>) = edge_namespace g" "contains_edge_id (g\<lparr>g_types := t\<rparr>) = contains_edge_id g"
    by (simp_all add: fun_eq_iff edge_namespace_def edge_visible_def contains_edge_id_def split: option.splits)
  then show ?thesis by (simp add: graph_inv_def rows_ok_def documents_ok_def ledger_ok_def live_ids_def)
qed

lemma example_graph_inv: "graph_inv example_graph"
  unfolding example_graph_def graph_inv_types by (rule graph_inv_new)

section \<open>Lists of mutations\<close>



text \<open>
  C14. Edge mutations never panic and keep the graph consistent: the adjacency rows list exactly the
  unsealed edges of their namespace and endpoint, every unsealed edge has a property document, every
  key is in the ledger, and the counter of live edges counts the live edges.
\<close>

theorem apply_edge_mutations_safe:
  assumes "graph_inv g"
  shows "case apply_edge_mutations json_len g resolver ms tenant_for_nid of
           Inl (Panicked _) \<Rightarrow> False | Inl (Returned _) \<Rightarrow> True | Inr g' \<Rightarrow> graph_inv g'"
  using apply_edge_mutations_cases [OF assms, of json_len resolver ms tenant_for_nid] by auto

theorem apply_edge_mutations_safe_witness:
  "\<exists>g'. apply_edge_mutations (\<lambda>_. 10) example_graph example_resolver [] (\<lambda>_. None) = Inr g' \<and> graph_inv g'"
  using apply_edge_mutations_safe [OF example_graph_inv, of "\<lambda>_. 10" example_resolver "[]" "\<lambda>_. None"]
  by (simp add: apply_edge_mutations_def validate_edge_mutations_with_types_def validate_edge_mutations_with_types_and_promotions_def
        prepare_property_mutations_def apply_validated_edge_mutations_def res_simps)

end
