(* ===== verification/Deferred_Edges.thy ===== *)
theory Deferred_Edges
  imports Edge_Mutations
begin

text \<open>
  Deferred edges, after \<open>chirondb-core/src/mutable_graph.rs\<close> and \<open>wal.rs\<close>: a bulk-load session records
  edges whose endpoints do not exist yet, binds the endpoints when their points are created, and is
  committed or aborted. A plan is computed without changing the state and applied afterwards.
\<close>

record 'n GraphDeferredBind =
  dc_session_id :: ustr
  dc_edge_id :: edge_id
  dc_source_point_id :: ustr
  dc_target_point_id :: ustr
  dc_source_nid :: "nid option"
  dc_target_nid :: "nid option"
  dc_type_id :: type_id
  dc_namespace :: GraphNamespace
  dc_properties :: "'n Value"

record GraphEdgeBind =
  eb_session_id :: ustr
  eb_edge_id :: edge_id
  eb_endpoint :: GraphDeferredEndpoint
  eb_point_id :: ustr
  eb_nid :: nid

datatype GraphDeferredSessionMutation =
    Open_mutation ustr "GraphSessionOwner option" | Commit_mutation ustr | Abort_mutation ustr

definition session_id :: "GraphDeferredSessionMutation \<Rightarrow> ustr" where
  "session_id m = (case m of Open_mutation sid _ \<Rightarrow> sid | Commit_mutation sid \<Rightarrow> sid | Abort_mutation sid \<Rightarrow> sid)"

record 'n DeferredMutationPlan =
  created_edge_ids :: "edge_id set"
  session_updates :: "ustr \<rightharpoonup> DeferredSession"
  pending_updates :: "(edge_id \<times> 'n PendingEdge option) list"
  promoted :: "'n EdgeMutation list"
  aborted_edge_ids :: "edge_id list"

definition plan_default :: "'n DeferredMutationPlan" where
  "plan_default = \<lparr>created_edge_ids = {}, session_updates = Map.empty, pending_updates = [], promoted = [], aborted_edge_ids = []\<rparr>"

record 'n DeferredMutationInput =
  record_lsn :: nat
  assignments :: "(ustr \<times> nid) set"
  creates :: "'n GraphDeferredBind list"
  endpoint_binds :: "GraphEdgeBind list"
  session_mutations :: "GraphDeferredSessionMutation list"

section \<open>The plan\<close>

definition plan_session ::
  "('n, 'e) MutableGraphState \<Rightarrow> nat \<Rightarrow> (ustr \<rightharpoonup> DeferredSession) \<times> GraphDeferredSessionMutation list
     \<Rightarrow> GraphDeferredSessionMutation \<Rightarrow> ('e, (ustr \<rightharpoonup> DeferredSession) \<times> GraphDeferredSessionMutation list) gresult" where
  "plan_session g lsn acc m =
     (let terminal = (\<lambda>sid. case deferred_sessions g sid of
            None \<Rightarrow> Inl (Graph (graph_error_new DeferredSessionNotFound Session_missing))
          | Some session \<Rightarrow>
              if ds_status session \<noteq> Open_session then Inl (InvalidRequest Session_not_open) else Inr (fst acc, snd acc @ [m])) in
      case m of
        Open_mutation sid owner \<Rightarrow>
          if deferred_sessions g sid \<noteq> None then Inl (InvalidRequest Session_exists)
          else Inr ((fst acc)(sid \<mapsto> \<lparr>ds_opening_lsn = lsn, ds_status = Open_session, ds_owner = owner\<rparr>), snd acc)
      | Commit_mutation sid \<Rightarrow> terminal sid
      | Abort_mutation sid \<Rightarrow> terminal sid)"

definition planned_session ::
  "('n, 'e) MutableGraphState \<Rightarrow> (ustr \<rightharpoonup> DeferredSession) \<Rightarrow> ustr \<Rightarrow> DeferredSession option" where
  "planned_session g updates sid = (case updates sid of Some s \<Rightarrow> Some s | None \<Rightarrow> deferred_sessions g sid)"

definition session_is_open :: "('n, 'e) MutableGraphState \<Rightarrow> (ustr \<rightharpoonup> DeferredSession) \<Rightarrow> ustr \<Rightarrow> bool" where
  "session_is_open g updates sid =
     (case planned_session g updates sid of None \<Rightarrow> False | Some s \<Rightarrow> ds_status s = Open_session)"

definition session_closed_error :: "nat \<Rightarrow> 'e graph_msg GaussError" where
  "session_closed_error item = Graph (with_item_index item (graph_error_new DeferredSessionNotFound Session_not_open))"

definition validate_deferred_endpoint ::
  "PointIncarnationResolver \<Rightarrow> ustr \<Rightarrow> nid option \<Rightarrow> nat \<Rightarrow> ('e, unit) gresult" where
  "validate_deferred_endpoint resolver point_id recorded_nid item =
     (if live_nid resolver point_id \<noteq> recorded_nid then Inl (InvalidRequest (Endpoint_not_recorded item)) else Inr ())"

definition pending_edge :: "DeferredSession \<Rightarrow> 'n GraphDeferredBind \<Rightarrow> 'n PendingEdge" where
  "pending_edge session c =
     \<lparr>pe_session_id = dc_session_id c, pe_opening_lsn = ds_opening_lsn session, pe_edge_id = dc_edge_id c,
      pe_source_point_id = dc_source_point_id c, pe_target_point_id = dc_target_point_id c,
      pe_source_nid = dc_source_nid c, pe_target_nid = dc_target_nid c, pe_type_id = dc_type_id c,
      pe_namespace = dc_namespace c, pe_properties = dc_properties c\<rparr>"

definition plan_create ::
  "('n Value \<Rightarrow> nat) \<Rightarrow> ('n, 'e) MutableGraphState \<Rightarrow> PointIncarnationResolver \<Rightarrow> GraphTypeCatalog
     \<Rightarrow> 'n DeferredMutationPlan \<Rightarrow> nat \<times> 'n GraphDeferredBind \<Rightarrow> ('e, 'n DeferredMutationPlan) gresult" where
  "plan_create json_len g resolver types plan item_create =
     (let item = fst item_create; c = snd item_create in
      case planned_session g (session_updates plan) (dc_session_id c) of
        None \<Rightarrow> Inl (session_closed_error item)
      | Some session \<Rightarrow>
          if ds_status session \<noteq> Open_session then Inl (session_closed_error item)
          else
          bindE (contains_edge_id g (dc_edge_id c)) (\<lambda>known.
          if known \<or> dc_edge_id c \<in> created_edge_ids plan then Inl (InvalidRequest (Edge_id_exists item))
          else if catalog_get types (dc_type_id c) = None
          then Inl (Graph (with_item_index item (graph_error_new TypeNotFound Type_not_configured)))
          else
          bindE (validate_property_document json_len (dc_properties c) item) (\<lambda>_.
          bindE (validate_deferred_endpoint resolver (dc_source_point_id c) (dc_source_nid c) item) (\<lambda>_.
          bindE (validate_deferred_endpoint resolver (dc_target_point_id c) (dc_target_nid c) item) (\<lambda>_.
          Inr (plan\<lparr>created_edge_ids := insert (dc_edge_id c) (created_edge_ids plan),
                 pending_updates := btree_insert (dc_edge_id c)
                   (Some (pending_edge session c)) (pending_updates plan)\<rparr>))))))"

definition bind_endpoint :: "GraphEdgeBind \<Rightarrow> nat \<Rightarrow> 'n PendingEdge \<Rightarrow> ('e, 'n PendingEdge) gresult" where
  "bind_endpoint b item pending =
     (case eb_endpoint b of
        Source \<Rightarrow>
          if pe_source_point_id pending \<noteq> eb_point_id b \<or> pe_source_nid pending \<noteq> None
          then Inl (InvalidRequest (Source_immutable item)) else Inr (pending\<lparr>pe_source_nid := Some (eb_nid b)\<rparr>)
      | Target \<Rightarrow>
          if pe_target_point_id pending \<noteq> eb_point_id b \<or> pe_target_nid pending \<noteq> None
          then Inl (InvalidRequest (Target_immutable item)) else Inr (pending\<lparr>pe_target_nid := Some (eb_nid b)\<rparr>))"

definition plan_bind ::
  "('n, 'e) MutableGraphState \<Rightarrow> PointIncarnationResolver \<Rightarrow> (ustr \<times> nid) set
     \<Rightarrow> 'n DeferredMutationPlan \<Rightarrow> nat \<times> GraphEdgeBind \<Rightarrow> ('e, 'n DeferredMutationPlan) gresult" where
  "plan_bind g resolver assigned plan item_bind =
     (let item = fst item_bind; b = snd item_bind in
      if \<not> session_is_open g (session_updates plan) (eb_session_id b) then Inl (session_closed_error item)
      else
      bindE (case map_of (pending_updates plan) (eb_edge_id b) of
               Some (Some pending) \<Rightarrow> Inr pending
             | Some None \<Rightarrow> Inl (InvalidRequest (Already_bound item))
             | None \<Rightarrow> ok_or (InvalidRequest (Pending_missing item)) (map_of (pending_edges g) (eb_edge_id b))) (\<lambda>pending.
      if pe_session_id pending \<noteq> eb_session_id b then Inl (InvalidRequest (Other_session item))
      else if (eb_point_id b, eb_nid b) \<notin> assigned \<or> live_nid resolver (eb_point_id b) \<noteq> Some (eb_nid b)
      then Inl (InvalidRequest (Bind_not_assigned item))
      else
      bindE (bind_endpoint b item pending) (\<lambda>pending.
      Inr (plan\<lparr>pending_updates := btree_insert (eb_edge_id b) (Some pending) (pending_updates plan)\<rparr>))))"

definition promotion :: "'n PendingEdge \<Rightarrow> 'n EdgeMutation option" where
  "promotion p =
     (case (pe_source_nid p, pe_target_nid p) of
        (Some s, Some t) \<Rightarrow>
          Some (Relate \<lparr>rm_edge_id = pe_edge_id p, rm_source = s, rm_target = t, rm_type_id = pe_type_id p,
                        rm_namespace = pe_namespace p, rm_properties = pe_properties p\<rparr>)
      | _ \<Rightarrow> None)"

definition plan_promotions :: "'n DeferredMutationPlan \<Rightarrow> 'n DeferredMutationPlan" where
  "plan_promotions plan =
     plan\<lparr>promoted := List.map_filter (\<lambda>u. Option.bind (snd u) promotion) (pending_updates plan),
          pending_updates := map (\<lambda>(i, u). (i, case u of Some p \<Rightarrow> (if promotion p = None then Some p else None) | None \<Rightarrow> None))
            (pending_updates plan)\<rparr>"

definition unbound_points :: "'n PendingEdge \<Rightarrow> ustr set" where
  "unbound_points p =
     (if pe_source_nid p = None then {pe_source_point_id p} else {}) \<union> (if pe_target_nid p = None then {pe_target_point_id p} else {})"

definition projected_unbound_endpoints ::
  "(edge_id \<times> 'n PendingEdge) list \<Rightarrow> (edge_id \<times> 'n PendingEdge option) list \<Rightarrow> ustr \<Rightarrow> ustr set" where
  "projected_unbound_endpoints current updates sid =
     \<Union> (set (map (\<lambda>(i, pending).
        (case (case map_of updates i of Some (Some projected) \<Rightarrow> Some projected | Some None \<Rightarrow> None | None \<Rightarrow> Some pending) of
           None \<Rightarrow> {} | Some p \<Rightarrow> if pe_session_id p = sid then unbound_points p else {})) current))
   \<union> \<Union> (set (map (\<lambda>(i, u).
        if map_of current i \<noteq> None then {}
        else (case u of None \<Rightarrow> {} | Some p \<Rightarrow> if pe_session_id p = sid then unbound_points p else {})) updates))"

text \<open>The edges of a session come from a hash set; they are aborted in the order of their lists here.\<close>

definition abort_ids :: "('n, 'e) MutableGraphState \<Rightarrow> 'n DeferredMutationPlan \<Rightarrow> ustr \<Rightarrow> edge_id list" where
  "abort_ids g plan sid =
     remdups (map (\<lambda>(_, p). pe_edge_id p) (filter (\<lambda>(_, p). pe_session_id p = sid) (pending_edges g))
       @ map pe_edge_id (filter (\<lambda>p. pe_session_id p = sid) (List.map_filter snd (pending_updates plan))))"

definition plan_abort :: "'n DeferredMutationPlan \<Rightarrow> edge_id \<Rightarrow> 'n DeferredMutationPlan" where
  "plan_abort plan i =
     (if map_of (pending_updates plan) i = Some None then plan
      else plan\<lparr>pending_updates := btree_insert i None (pending_updates plan), aborted_edge_ids := aborted_edge_ids plan @ [i]\<rparr>)"

definition close_session ::
  "('n, 'e) MutableGraphState \<Rightarrow> ustr \<Rightarrow> DeferredSessionStatus \<Rightarrow> 'n DeferredMutationPlan \<Rightarrow> 'n DeferredMutationPlan" where
  "close_session g sid status plan =
     (case deferred_sessions g sid of None \<Rightarrow> plan
      | Some session \<Rightarrow>
          plan\<lparr>session_updates := (session_updates plan)(sid \<mapsto>
            \<lparr>ds_opening_lsn = ds_opening_lsn session, ds_status = status, ds_owner = ds_owner session\<rparr>)\<rparr>)"

definition plan_terminal ::
  "('n, 'e) MutableGraphState \<Rightarrow> 'n DeferredMutationPlan \<Rightarrow> GraphDeferredSessionMutation \<Rightarrow> ('e, 'n DeferredMutationPlan) gresult" where
  "plan_terminal g plan m =
     (case m of
        Commit_mutation sid \<Rightarrow>
          let offenders = projected_unbound_endpoints (pending_edges g) (pending_updates plan) sid in
          if offenders \<noteq> {} then Inl (Graph (graph_error_new DeferredEndpointsRemain (Endpoints_remain offenders)))
          else Inr (close_session g sid Committed plan)
      | Abort_mutation sid \<Rightarrow> Inr (close_session g sid Aborted (fold (\<lambda>i p. plan_abort p i) (abort_ids g plan sid) plan))
      | Open_mutation _ _ \<Rightarrow> Inr plan)"

definition plan_deferred ::
  "('n Value \<Rightarrow> nat) \<Rightarrow> ('n, 'e) MutableGraphState \<Rightarrow> PointIncarnationResolver \<Rightarrow> 'n DeferredMutationInput \<Rightarrow> GraphTypeCatalog
     \<Rightarrow> ('e, 'n DeferredMutationPlan) gresult" where
  "plan_deferred json_len g resolver inp types =
     bindE (foldE (plan_session g (record_lsn inp)) (Map.empty, []) (session_mutations inp)) (\<lambda>sessions.
     bindE (foldE (plan_create json_len g resolver types) (plan_default\<lparr>session_updates := fst sessions\<rparr>)
              (enumerate 0 (creates inp))) (\<lambda>plan.
     bindE (foldE (plan_bind g resolver (assignments inp)) plan (enumerate 0 (endpoint_binds inp))) (\<lambda>plan.
     foldE (plan_terminal g) (plan_promotions plan) (snd sessions))))"

section \<open>Applying a plan\<close>

definition index_entry ::
  "ustr \<times> ustr \<times> nat \<Rightarrow> edge_id \<times> GraphDeferredEndpoint \<Rightarrow> (ustr \<times> ustr \<times> nat \<rightharpoonup> (edge_id \<times> GraphDeferredEndpoint) list)
     \<Rightarrow> (ustr \<times> ustr \<times> nat \<rightharpoonup> (edge_id \<times> GraphDeferredEndpoint) list)" where
  "index_entry key entry m = m(key \<mapsto> (case m key of None \<Rightarrow> [] | Some l \<Rightarrow> l) @ [entry])"

definition index_pending_edge :: "'n PendingEdge \<Rightarrow> (ustr \<times> ustr \<times> nat \<rightharpoonup> (edge_id \<times> GraphDeferredEndpoint) list)
     \<Rightarrow> (ustr \<times> ustr \<times> nat \<rightharpoonup> (edge_id \<times> GraphDeferredEndpoint) list)" where
  "index_pending_edge p m =
     (let m = (if pe_source_nid p = None
               then index_entry (pe_source_point_id p, pe_session_id p, pe_opening_lsn p) (pe_edge_id p, Source) m else m) in
      if pe_target_nid p = None
      then index_entry (pe_target_point_id p, pe_session_id p, pe_opening_lsn p) (pe_edge_id p, Target) m else m)"

definition unindex_key ::
  "ustr \<times> ustr \<times> nat \<Rightarrow> edge_id \<Rightarrow> (ustr \<times> ustr \<times> nat \<rightharpoonup> (edge_id \<times> GraphDeferredEndpoint) list)
     \<Rightarrow> (ustr \<times> ustr \<times> nat \<rightharpoonup> (edge_id \<times> GraphDeferredEndpoint) list)" where
  "unindex_key key i m =
     (case m key of None \<Rightarrow> m
      | Some l \<Rightarrow> (let l = filter (\<lambda>(j, _). j \<noteq> i) l in if l = [] then m(key := None) else m(key \<mapsto> l)))"

definition unindex_pending_edge :: "'n PendingEdge \<Rightarrow> (ustr \<times> ustr \<times> nat \<rightharpoonup> (edge_id \<times> GraphDeferredEndpoint) list)
     \<Rightarrow> (ustr \<times> ustr \<times> nat \<rightharpoonup> (edge_id \<times> GraphDeferredEndpoint) list)" where
  "unindex_pending_edge p m =
     unindex_key (pe_target_point_id p, pe_session_id p, pe_opening_lsn p) (pe_edge_id p)
       (unindex_key (pe_source_point_id p, pe_session_id p, pe_opening_lsn p) (pe_edge_id p) m)"

definition apply_pending_update ::
  "edge_id \<times> 'n PendingEdge option \<Rightarrow> ('n, 'e) MutableGraphState \<Rightarrow> ('n, 'e) MutableGraphState" where
  "apply_pending_update u g =
     (let g = (case map_of (pending_edges g) (fst u) of None \<Rightarrow> g
               | Some previous \<Rightarrow>
                   g\<lparr>pending_edges := btree_remove (fst u) (pending_edges g),
                     pending_by_endpoint := unindex_pending_edge previous (pending_by_endpoint g)\<rparr>) in
      case snd u of None \<Rightarrow> g
      | Some pending \<Rightarrow>
          g\<lparr>pending_by_endpoint := index_pending_edge pending (pending_by_endpoint g),
            pending_edges := btree_insert (fst u) pending (pending_edges g)\<rparr>)"

definition apply_deferred_plan :: "('n, 'e) MutableGraphState \<Rightarrow> 'n DeferredMutationPlan \<Rightarrow> ('n, 'e) MutableGraphState" where
  "apply_deferred_plan g plan =
     (let g = g\<lparr>edge_ids := edge_ids g \<union> created_edge_ids plan, deferred_sessions := deferred_sessions g ++ session_updates plan\<rparr>;
          g = fold apply_pending_update (pending_updates plan) g in
      g\<lparr>edge_tombstones := edge_tombstones g \<union> set (aborted_edge_ids plan)\<rparr>)"

section \<open>Queries on sessions\<close>

definition deferred_session_is_open :: "('n, 'e) MutableGraphState \<Rightarrow> ustr \<Rightarrow> bool" where
  "deferred_session_is_open g sid = (case deferred_sessions g sid of None \<Rightarrow> False | Some s \<Rightarrow> ds_status s = Open_session)"

definition deferred_session_is_committed :: "('n, 'e) MutableGraphState \<Rightarrow> ustr \<Rightarrow> bool" where
  "deferred_session_is_committed g sid = (case deferred_sessions g sid of None \<Rightarrow> False | Some s \<Rightarrow> ds_status s = Committed)"

definition deferred_session_is_aborted :: "('n, 'e) MutableGraphState \<Rightarrow> ustr \<Rightarrow> bool" where
  "deferred_session_is_aborted g sid = (case deferred_sessions g sid of None \<Rightarrow> False | Some s \<Rightarrow> ds_status s = Aborted)"

definition deferred_opening_lsn :: "('n, 'e) MutableGraphState \<Rightarrow> ustr \<Rightarrow> nat option" where
  "deferred_opening_lsn g sid = map_option ds_opening_lsn (deferred_sessions g sid)"

definition pending_edge_count_for_session :: "('n, 'e) MutableGraphState \<Rightarrow> ustr \<Rightarrow> nat" where
  "pending_edge_count_for_session g sid = length (filter (\<lambda>(_, p). pe_session_id p = sid) (pending_edges g))"

definition pending_bindings :: "('n, 'e) MutableGraphState \<Rightarrow> ustr \<Rightarrow> ustr \<Rightarrow> nat \<Rightarrow> (edge_id \<times> GraphDeferredEndpoint) list" where
  "pending_bindings g point_id sid opening_lsn =
     (case pending_by_endpoint g (point_id, sid, opening_lsn) of None \<Rightarrow> [] | Some l \<Rightarrow> l)"

end
