(* ===== verification/Deferred_Sessions.thy ===== *)
theory Deferred_Sessions
  imports Deferred_Edges
begin

text \<open>
  Deferred edges from batch to batch: the invariant of the pending edges and of the index of their
  unbound endpoints, what a plan may contain after each of its phases, and that applying a plan keeps
  the invariants of the graph and of the pending edges.
\<close>

section \<open>The index of unbound endpoints\<close>

definition entries_at :: "(ustr \<times> ustr \<times> nat \<rightharpoonup> (edge_id \<times> GraphDeferredEndpoint) list) \<Rightarrow> ustr \<times> ustr \<times> nat \<Rightarrow> (edge_id \<times> GraphDeferredEndpoint) list" where
  "entries_at ix key = (case ix key of None \<Rightarrow> [] | Some l \<Rightarrow> l)"

definition waits :: "'n PendingEdge \<Rightarrow> ustr \<times> ustr \<times> nat \<Rightarrow> GraphDeferredEndpoint \<Rightarrow> bool" where
  "waits p key e \<longleftrightarrow>
     (case e of
        Source \<Rightarrow> pe_source_nid p = None \<and> key = (pe_source_point_id p, pe_session_id p, pe_opening_lsn p)
      | Target \<Rightarrow> pe_target_nid p = None \<and> key = (pe_target_point_id p, pe_session_id p, pe_opening_lsn p))"

text \<open>The index lists, under point, session and opening position, exactly the unbound endpoints of pending edges, each once.\<close>

definition index_ok :: "(ustr \<times> ustr \<times> nat \<rightharpoonup> (edge_id \<times> GraphDeferredEndpoint) list) \<Rightarrow> (edge_id \<rightharpoonup> 'n PendingEdge) \<Rightarrow> bool" where
  "index_ok ix pending \<longleftrightarrow> (\<forall>key. ix key \<noteq> Some [] \<and> distinct (entries_at ix key)
     \<and> (\<forall>i e. (i, e) \<in> set (entries_at ix key) \<longleftrightarrow> (\<exists>p. pending i = Some p \<and> waits p key e)))"

lemma index_okD:
  assumes "index_ok ix m"
  shows "ix key \<noteq> Some []" "distinct (entries_at ix key)" "(i, e) \<in> set (entries_at ix key) \<longleftrightarrow> (\<exists>p. m i = Some p \<and> waits p key e)"
  using assms unfolding index_ok_def by blast+

lemma entries_index_entry: "entries_at (index_entry key e ix) k = entries_at ix k @ (if k = key then [e] else [])"
  by (simp add: entries_at_def index_entry_def)

lemma entries_unindex_key: "entries_at (unindex_key key i ix) k = (if k = key then filter (\<lambda>(j, _). j \<noteq> i) (entries_at ix k) else entries_at ix k)"
  by (auto simp: entries_at_def unindex_key_def Let_def split: option.splits)

lemma nonempty_unindex_key: "ix k \<noteq> Some [] \<Longrightarrow> unindex_key key i ix k \<noteq> Some []"
  by (auto simp: unindex_key_def Let_def split: option.splits)

lemma unindex_ok:
  assumes ok: "index_ok ix m" and p: "m i = Some p" "pe_edge_id p = i"
  shows "index_ok (unindex_pending_edge p ix) (m(i := None))"
  unfolding index_ok_def
proof (intro allI conjI)
  fix key
  show "unindex_pending_edge p ix key \<noteq> Some []" unfolding unindex_pending_edge_def by (rule nonempty_unindex_key, rule nonempty_unindex_key, rule index_okD(1) [OF ok])
  show "distinct (entries_at (unindex_pending_edge p ix) key)" using index_okD(2) [OF ok] by (simp add: unindex_pending_edge_def entries_unindex_key)
  fix j e
  have old: "(j, e) \<in> set (entries_at ix key) \<longleftrightarrow> (\<exists>q. m j = Some q \<and> waits q key e)" by (rule index_okD(3) [OF ok])
  show "(j, e) \<in> set (entries_at (unindex_pending_edge p ix) key) \<longleftrightarrow> (\<exists>q. (m(i := None)) j = Some q \<and> waits q key e)"
  proof (cases "j = i")
    case True
    have "waits p key e \<Longrightarrow> key = (pe_source_point_id p, pe_session_id p, pe_opening_lsn p) \<or> key = (pe_target_point_id p, pe_session_id p, pe_opening_lsn p)"
      by (cases e) (simp_all add: waits_def)
    then show ?thesis using old p True by (auto simp: unindex_pending_edge_def entries_unindex_key)
  next
    case False
    then show ?thesis using p by (simp add: unindex_pending_edge_def entries_unindex_key index_okD(3) [OF ok])
  qed
qed

lemma index_pending_ok:
  assumes ok: "index_ok ix m" and p: "m i = None" "pe_edge_id p = i"
  shows "index_ok (index_pending_edge p ix) (m(i \<mapsto> p))"
  unfolding index_ok_def
proof (intro allI conjI)
  fix key
  have new: "(i, e) \<notin> set (entries_at ix key)" for e using index_okD(3) [OF ok] p(1) by simp
  have ne: "index_entry k e m' key \<noteq> Some []" if "m' key \<noteq> Some []" for k e m' using that by (simp add: index_entry_def)
  show "index_pending_edge p ix key \<noteq> Some []" using index_okD(1) [OF ok, of key] by (auto simp: index_pending_edge_def Let_def intro!: ne)
  show "distinct (entries_at (index_pending_edge p ix) key)"
    using index_okD(2) [OF ok] new p(2) by (auto simp: index_pending_edge_def Let_def entries_index_entry)
  fix j e
  have old: "(j, e) \<in> set (entries_at ix key) \<longleftrightarrow> (\<exists>q. m j = Some q \<and> waits q key e)" by (rule index_okD(3) [OF ok])
  show "(j, e) \<in> set (entries_at (index_pending_edge p ix) key) \<longleftrightarrow> (\<exists>q. (m(i \<mapsto> p)) j = Some q \<and> waits q key e)"
    using old p by (cases e) (auto simp: index_pending_edge_def Let_def entries_index_entry waits_def split: if_splits)
qed

section \<open>Applying the pending updates\<close>

definition projected :: "(edge_id \<times> 'n PendingEdge option) list \<Rightarrow> (edge_id \<rightharpoonup> 'n PendingEdge) \<Rightarrow> edge_id \<rightharpoonup> 'n PendingEdge" where
  "projected updates pending i = (case map_of updates i of Some u \<Rightarrow> u | None \<Rightarrow> pending i)"

lemma apply_pending_update_frame:
  "apply_pending_update u g = g\<lparr>pending_edges := pending_edges (apply_pending_update u g),
     pending_by_endpoint := pending_by_endpoint (apply_pending_update u g)\<rparr>"
  by (cases "map_of (pending_edges g) (fst u)"; cases "snd u") (simp_all add: apply_pending_update_def Let_def)

lemma apply_pending_update_step:
  assumes "sorted_wrt (<) (map fst (pending_edges g))" "index_ok (pending_by_endpoint g) (map_of (pending_edges g))"
    "\<forall>p. map_of (pending_edges g) i = Some p \<longrightarrow> pe_edge_id p = i" "\<forall>p. u = Some p \<longrightarrow> pe_edge_id p = i"
  shows "sorted_wrt (<) (map fst (pending_edges (apply_pending_update (i, u) g)))"
    "map_of (pending_edges (apply_pending_update (i, u) g)) = (map_of (pending_edges g))(i := u)"
    "index_ok (pending_by_endpoint (apply_pending_update (i, u) g)) (map_of (pending_edges (apply_pending_update (i, u) g)))"
proof -
  let ?g = "case map_of (pending_edges g) i of None \<Rightarrow> g
      | Some previous \<Rightarrow> g\<lparr>pending_edges := btree_remove i (pending_edges g), pending_by_endpoint := unindex_pending_edge previous (pending_by_endpoint g)\<rparr>"
  have a: "sorted_wrt (<) (map fst (pending_edges ?g))" "map_of (pending_edges ?g) = (map_of (pending_edges g))(i := None)"
    "index_ok (pending_by_endpoint ?g) ((map_of (pending_edges g))(i := None))"
    using assms(1,2,3) by (auto simp: sorted_btree_remove fun_upd_idem intro: unindex_ok split: option.splits)
  have app: "apply_pending_update (i, u) g = (case u of None \<Rightarrow> ?g
      | Some pending \<Rightarrow> ?g\<lparr>pending_by_endpoint := index_pending_edge pending (pending_by_endpoint ?g), pending_edges := btree_insert i pending (pending_edges ?g)\<rparr>)"
    by (simp only: apply_pending_update_def Let_def fst_conv snd_conv)
  show "sorted_wrt (<) (map fst (pending_edges (apply_pending_update (i, u) g)))"
    unfolding app using a(1) by (cases u) (simp_all add: sorted_btree_insert)
  show m: "map_of (pending_edges (apply_pending_update (i, u) g)) = (map_of (pending_edges g))(i := u)"
    unfolding app using a(2) by (cases u) simp_all
  show "index_ok (pending_by_endpoint (apply_pending_update (i, u) g)) (map_of (pending_edges (apply_pending_update (i, u) g)))"
    unfolding m unfolding app using a(3) assms(4) index_pending_ok [OF a(3), of i] by (cases u) (simp_all add: fun_upd_upd)
qed

lemma apply_pending_updates:
  assumes "sorted_wrt (<) (map fst (pending_edges g))" "index_ok (pending_by_endpoint g) (map_of (pending_edges g))"
    "\<forall>i p. map_of (pending_edges g) i = Some p \<longrightarrow> pe_edge_id p = i" "\<forall>i p. (i, Some p) \<in> set updates \<longrightarrow> pe_edge_id p = i"
    "distinct (map fst updates)"
  shows "\<exists>ps ix. fold apply_pending_update updates g = g\<lparr>pending_edges := ps, pending_by_endpoint := ix\<rparr>
     \<and> sorted_wrt (<) (map fst ps) \<and> index_ok ix (map_of ps) \<and> map_of ps = projected updates (map_of (pending_edges g))"
  using assms
proof (induction updates arbitrary: g)
  case Nil
  then show ?case by (intro exI [of _ "pending_edges g"] exI [of _ "pending_by_endpoint g"]) (simp add: projected_def fun_eq_iff)
next
  case (Cons a updates)
  obtain i u where a: "a = (i, u)" by (cases a)
  let ?g = "apply_pending_update (i, u) g"
  have new: "\<forall>p. u = Some p \<longrightarrow> pe_edge_id p = i" using Cons.prems(4) by (simp add: a)
  note step = apply_pending_update_step [OF Cons.prems(1,2) spec [OF Cons.prems(3)] new]
  have ids: "\<forall>j p. map_of (pending_edges ?g) j = Some p \<longrightarrow> pe_edge_id p = j" using Cons.prems(3) new by (auto simp: step(2))
  obtain ps ix where IH: "fold apply_pending_update updates ?g = ?g\<lparr>pending_edges := ps, pending_by_endpoint := ix\<rparr>"
      "sorted_wrt (<) (map fst ps)" "index_ok ix (map_of ps)" "map_of ps = projected updates (map_of (pending_edges ?g))"
    using Cons.IH [OF step(1,3) ids] Cons.prems(4,5) by auto
  have fr: "?g\<lparr>pending_edges := ps, pending_by_endpoint := ix\<rparr> = g\<lparr>pending_edges := ps, pending_by_endpoint := ix\<rparr>"
    by (subst apply_pending_update_frame) simp
  have none: "map_of updates i = None" using Cons.prems(5) by (simp add: a map_of_eq_None_iff)
  have "projected updates (map_of (pending_edges ?g)) = projected (a # updates) (map_of (pending_edges g))"
    unfolding step(2) using none by (auto simp: projected_def a fun_eq_iff split: option.split)
  then show ?case using IH fr by (intro exI [of _ ps] exI [of _ ix]) (simp add: a)
qed

section \<open>What a plan may contain\<close>

definition session_open_at :: "DeferredSession option \<Rightarrow> nat \<Rightarrow> bool" where
  "session_open_at s lsn \<longleftrightarrow> (\<exists>d. s = Some d \<and> ds_status d = Open_session \<and> ds_opening_lsn d = lsn)"

definition pending_ok :: "('n, 'e) MutableGraphState \<Rightarrow> bool" where
  "pending_ok g \<longleftrightarrow>
     sorted_wrt (<) (map fst (pending_edges g)) \<and> index_ok (pending_by_endpoint g) (map_of (pending_edges g))
   \<and> (\<forall>i p. map_of (pending_edges g) i = Some p \<longrightarrow>
        pe_edge_id p = i \<and> promotion p = None \<and> dormant g i \<and> session_open_at (deferred_sessions g (pe_session_id p)) (pe_opening_lsn p))"

text \<open>The sessions a batch opens are new, and the ones it closes are open.\<close>

definition sessions_ok :: "('n, 'e) MutableGraphState \<Rightarrow> (ustr \<rightharpoonup> DeferredSession) \<times> GraphDeferredSessionMutation list \<Rightarrow> bool" where
  "sessions_ok g acc \<longleftrightarrow>
     (\<forall>sid d. fst acc sid = Some d \<longrightarrow> deferred_sessions g sid = None \<and> ds_status d = Open_session)
   \<and> (\<forall>m \<in> set (snd acc). case m of Open_mutation _ _ \<Rightarrow> False
        | Commit_mutation sid \<Rightarrow> deferred_session_is_open g sid | Abort_mutation sid \<Rightarrow> deferred_session_is_open g sid)"

lemma plan_session_ok: "sessions_ok g acc \<Longrightarrow> plan_session g lsn acc m = Inr acc' \<Longrightarrow> sessions_ok g acc'"
  by (cases m) (auto simp: sessions_ok_def plan_session_def Let_def deferred_session_is_open_def split: option.splits if_splits)

lemma plan_sessions_ok:
  assumes "foldE (plan_session g lsn) (Map.empty, []) ms = Inr acc"
  shows "sessions_ok g acc"
  by (rule foldE_invariant [OF assms, of "sessions_ok g"]) (auto simp: sessions_ok_def [of g "(Map.empty, [])"] intro: plan_session_ok)

text \<open>Binding an endpoint changes neither the session of an edge nor what is stored of it.\<close>

definition carries :: "'n PendingEdge \<Rightarrow> 'n PendingEdge \<Rightarrow> bool" where
  "carries q p \<longleftrightarrow> pe_session_id q = pe_session_id p \<and> pe_namespace q = pe_namespace p \<and> pe_properties q = pe_properties p"

lemma carries_trans: "carries r q \<Longrightarrow> carries q p \<Longrightarrow> carries r p"
  by (simp add: carries_def)

text \<open>What creation and binding keep; \<open>S\<close> are the session updates, which they leave alone.\<close>

definition plan_ok :: "('n, 'e) MutableGraphState \<Rightarrow> (ustr \<rightharpoonup> DeferredSession) \<Rightarrow> edge_id set \<Rightarrow> 'n DeferredMutationPlan \<Rightarrow> bool" where
  "plan_ok g S C plan \<longleftrightarrow>
     session_updates plan = S \<and> aborted_edge_ids plan = [] \<and> sorted_wrt (<) (map fst (pending_updates plan))
   \<and> created_edge_ids plan \<subseteq> C \<and> (\<forall>i \<in> created_edge_ids plan. contains_edge_id g i = Inr False \<and> map_of (pending_updates plan) i \<noteq> None)
   \<and> (\<forall>i u. map_of (pending_updates plan) i = Some u \<longrightarrow> i \<in> created_edge_ids plan \<or> map_of (pending_edges g) i \<noteq> None)
   \<and> (\<forall>i u. map_of (pending_updates plan) i = Some u \<longrightarrow>
        (\<exists>p. u = Some p \<and> pe_edge_id p = i \<and> session_open_at (planned_session g S (pe_session_id p)) (pe_opening_lsn p)))
   \<and> (\<forall>i p q. map_of (pending_edges g) i = Some p \<longrightarrow> map_of (pending_updates plan) i = Some (Some q) \<longrightarrow> carries q p)"

lemma plan_okD:
  assumes "plan_ok g S C plan"
  shows "sorted_wrt (<) (map fst (pending_updates plan))" "created_edge_ids plan \<subseteq> C" "\<And>i. i \<in> created_edge_ids plan \<Longrightarrow> contains_edge_id g i = Inr False"
    "\<And>i u. map_of (pending_updates plan) i = Some u \<Longrightarrow> i \<in> created_edge_ids plan \<or> map_of (pending_edges g) i \<noteq> None"
    "\<And>i u. map_of (pending_updates plan) i = Some u \<Longrightarrow> u \<noteq> None"
    "\<And>i p. map_of (pending_updates plan) i = Some (Some p) \<Longrightarrow> pe_edge_id p = i"
    "\<And>i p. map_of (pending_updates plan) i = Some (Some p) \<Longrightarrow> session_open_at (planned_session g S (pe_session_id p)) (pe_opening_lsn p)"
    "\<And>i p q. map_of (pending_edges g) i = Some p \<Longrightarrow> map_of (pending_updates plan) i = Some (Some q) \<Longrightarrow> carries q p"
    "\<And>i. i \<in> created_edge_ids plan \<Longrightarrow> map_of (pending_updates plan) i \<noteq> None"
  using assms unfolding plan_ok_def by blast+

lemma plan_ok_insert:
  assumes ok: "plan_ok g S C plan" and p: "pe_edge_id p = i" "session_open_at (planned_session g S (pe_session_id p)) (pe_opening_lsn p)"
    and D: "created_edge_ids plan \<subseteq> D" "D \<subseteq> C" "\<forall>j \<in> D. contains_edge_id g j = Inr False" "i \<in> D \<or> map_of (pending_edges g) i \<noteq> None"
    and same: "\<forall>q. map_of (pending_edges g) i = Some q \<longrightarrow> carries p q" "D \<subseteq> insert i (created_edge_ids plan)"
  shows "plan_ok g S C (plan\<lparr>created_edge_ids := D, pending_updates := btree_insert i (Some p) (pending_updates plan)\<rparr>)"
proof -
  let ?u = "btree_insert i (Some p) (pending_updates plan)"
  let ?plan = "plan\<lparr>created_edge_ids := D, pending_updates := ?u\<rparr>"
  have fields: "session_updates ?plan = S" "aborted_edge_ids ?plan = []" "created_edge_ids ?plan = D" "pending_updates ?plan = ?u"
    using ok by (simp_all add: plan_ok_def)
  show ?thesis unfolding plan_ok_def fields
  proof (intro conjI allI impI)
    show "sorted_wrt (<) (map fst ?u)" by (rule sorted_btree_insert [OF plan_okD(1) [OF ok]])
    show "j \<in> D \<or> map_of (pending_edges g) j \<noteq> None" if "map_of ?u j = Some v" for j v
      using that plan_okD(4) [OF ok, of j] D(1,4) by (cases "j = i") auto
    show "\<exists>q. v = Some q \<and> pe_edge_id q = j \<and> session_open_at (planned_session g S (pe_session_id q)) (pe_opening_lsn q)"
      if "map_of ?u j = Some v" for j v
      using that p plan_okD(5-7) [OF ok, of j] by (cases "j = i"; cases v) auto
    show "carries r q" if "map_of (pending_edges g) j = Some q" "map_of ?u j = Some (Some r)" for j q r
    proof (cases "j = i")
      case True
      then have "r = p" using that(2) by simp
      then show ?thesis using True that(1) same(1) by blast
    next
      case False
      then show ?thesis using that plan_okD(8) [OF ok, of j q r] by simp
    qed
    show "\<forall>j \<in> D. contains_edge_id g j = Inr False \<and> map_of ?u j \<noteq> None" using D(3) same(2) plan_okD(9) [OF ok] by auto
  qed (use D in simp_all)
qed

lemma plan_create_ok:
  assumes "plan_ok g S C plan" "dc_edge_id (snd ic) \<in> C" "plan_create json_len g resolver types plan ic = Inr plan'" "graph_inv g"
  shows "plan_ok g S C plan'"
proof -
  from assms(3) obtain session where
    c: "planned_session g (session_updates plan) (dc_session_id (snd ic)) = Some session" "ds_status session = Open_session"
      "contains_edge_id g (dc_edge_id (snd ic)) = Inr False"
    and plan': "plan' = plan\<lparr>created_edge_ids := insert (dc_edge_id (snd ic)) (created_edge_ids plan),
        pending_updates := btree_insert (dc_edge_id (snd ic)) (Some (pending_edge session (snd ic))) (pending_updates plan)\<rparr>"
    by (auto simp: plan_create_def Let_def res_simps split: option.splits if_splits)
  have "session_updates plan = S" using assms(1) by (simp add: plan_ok_def)
  then show ?thesis unfolding plan' using c assms(2) unknown_dormant [OF assms(4) c(3)] plan_okD(2,3) [OF assms(1)]
    by (intro plan_ok_insert [OF assms(1)]) (auto simp: session_open_at_def pending_edge_def)
qed

lemma planned_pending:
  assumes "pending_ok g" "\<forall>sid d. S sid = Some d \<longrightarrow> deferred_sessions g sid = None" "map_of (pending_edges g) i = Some p"
  shows "session_open_at (planned_session g S (pe_session_id p)) (pe_opening_lsn p)" "pe_edge_id p = i"
proof -
  have p: "pe_edge_id p = i" "session_open_at (deferred_sessions g (pe_session_id p)) (pe_opening_lsn p)"
    using assms(1,3) by (simp_all add: pending_ok_def)
  then have "S (pe_session_id p) = None" using assms(2) by (cases "S (pe_session_id p)") (auto simp: session_open_at_def)
  then show "session_open_at (planned_session g S (pe_session_id p)) (pe_opening_lsn p)" "pe_edge_id p = i"
    using p by (simp_all add: planned_session_def)
qed

lemma bind_endpoint_frame:
  "bind_endpoint b item p = Inr q \<Longrightarrow> pe_edge_id q = pe_edge_id p \<and> pe_session_id q = pe_session_id p \<and> pe_opening_lsn q = pe_opening_lsn p \<and> carries q p"
  by (auto simp: bind_endpoint_def carries_def split: GraphDeferredEndpoint.splits if_splits)

lemma plan_bind_ok:
  assumes ok: "plan_ok g S C plan" and pend: "pending_ok g" and new: "\<forall>sid d. S sid = Some d \<longrightarrow> deferred_sessions g sid = None"
    and bind: "plan_bind g resolver assigned plan ib = Inr plan'"
  shows "plan_ok g S C plan'"
proof -
  let ?i = "eb_edge_id (snd ib)"
  from bind obtain p q where
    p: "map_of (pending_updates plan) ?i = Some (Some p) \<or> map_of (pending_updates plan) ?i = None \<and> map_of (pending_edges g) ?i = Some p"
    and q: "bind_endpoint (snd ib) (fst ib) p = (Inr q :: ('b, _) gresult)"
    and plan': "plan' = plan\<lparr>pending_updates := btree_insert ?i (Some q) (pending_updates plan)\<rparr>"
    by (auto simp: plan_bind_def Let_def res_simps split: option.splits if_splits)
  have old: "pe_edge_id p = ?i" "session_open_at (planned_session g S (pe_session_id p)) (pe_opening_lsn p)"
    "?i \<in> created_edge_ids plan \<or> map_of (pending_edges g) ?i \<noteq> None"
    using p plan_okD(4,6,7) [OF ok] planned_pending [OF pend new, of ?i p] by auto
  have same: "carries q r" if "map_of (pending_edges g) ?i = Some r" for r
    using that p plan_okD(8) [OF ok] bind_endpoint_frame [OF q] by (auto intro: carries_trans)
  have eq: "plan' = plan\<lparr>created_edge_ids := created_edge_ids plan, pending_updates := btree_insert ?i (Some q) (pending_updates plan)\<rparr>"
    by (simp add: plan')
  show ?thesis unfolding eq
  proof (rule plan_ok_insert [OF ok])
    show "\<forall>r. map_of (pending_edges g) ?i = Some r \<longrightarrow> carries q r" using same by blast
  qed (use old bind_endpoint_frame [OF q] plan_okD(2,3) [OF ok] in auto)
qed

section \<open>Promotion and the end of sessions\<close>

definition planned :: "('n, 'e) MutableGraphState \<Rightarrow> 'n DeferredMutationPlan \<Rightarrow> edge_id \<rightharpoonup> 'n PendingEdge" where
  "planned g plan = projected (pending_updates plan) (map_of (pending_edges g))"

definition final_ok :: "('n, 'e) MutableGraphState \<Rightarrow> edge_id set \<Rightarrow> 'n DeferredMutationPlan \<Rightarrow> bool" where
  "final_ok g C plan \<longleftrightarrow>
     sorted_wrt (<) (map fst (pending_updates plan))
   \<and> created_edge_ids plan \<subseteq> C \<and> (\<forall>i \<in> created_edge_ids plan. contains_edge_id g i = Inr False)
   \<and> (\<forall>i u. map_of (pending_updates plan) i = Some u \<longrightarrow> i \<in> created_edge_ids plan \<or> map_of (pending_edges g) i \<noteq> None)
   \<and> (\<forall>i p. map_of (pending_updates plan) i = Some (Some p) \<longrightarrow> pe_edge_id p = i \<and> promotion p = None)
   \<and> (\<forall>i p. planned g plan i = Some p \<longrightarrow> session_open_at (planned_session g (session_updates plan) (pe_session_id p)) (pe_opening_lsn p))
   \<and> (\<forall>i p q. map_of (pending_edges g) i = Some p \<longrightarrow> map_of (pending_updates plan) i = Some (Some q) \<longrightarrow> carries q p)
   \<and> (\<forall>m \<in> set (promoted plan). \<exists>r. m = Relate r \<and> map_of (pending_updates plan) (rm_edge_id r) = Some None
        \<and> (\<forall>p. map_of (pending_edges g) (rm_edge_id r) = Some p \<longrightarrow> rm_namespace r = pe_namespace p \<and> rm_properties r = pe_properties p))
   \<and> (\<forall>i. map_of (pending_edges g) i \<noteq> None \<or> i \<in> created_edge_ids plan \<longrightarrow>
        planned g plan i \<noteq> None \<or> i \<in> mutation_edge_id ` set (promoted plan) \<or> i \<in> set (aborted_edge_ids plan))
   \<and> (\<forall>i \<in> set (aborted_edge_ids plan). map_of (pending_updates plan) i = Some None \<and> (\<forall>m \<in> set (promoted plan). mutation_edge_id m \<noteq> i))"

lemma in_map_filter: "y \<in> set (List.map_filter f xs) \<longleftrightarrow> (\<exists>x \<in> set xs. f x = Some y)"
  by (force simp: List.map_filter_def)

lemma promotion_Relate: "promotion p = Some m \<Longrightarrow> \<exists>r. m = Relate r \<and> rm_edge_id r = pe_edge_id p
     \<and> rm_namespace r = pe_namespace p \<and> rm_properties r = pe_properties p"
  by (auto simp: promotion_def split: option.splits)

lemma promotions_updates:
  "map_of (pending_updates (plan_promotions plan)) i =
     map_option (\<lambda>u. case u of Some p \<Rightarrow> (if promotion p = None then Some p else None) | None \<Rightarrow> None) (map_of (pending_updates plan) i)"
  by (simp add: plan_promotions_def map_of_map)

lemma promotions_sound:
  assumes ok: "plan_ok g S C plan" and m: "m \<in> set (promoted (plan_promotions plan))"
  shows "\<exists>r. m = Relate r \<and> map_of (pending_updates (plan_promotions plan)) (rm_edge_id r) = Some None
     \<and> (\<forall>p. map_of (pending_edges g) (rm_edge_id r) = Some p \<longrightarrow> rm_namespace r = pe_namespace p \<and> rm_properties r = pe_properties p)"
proof -
  from m obtain i p where p: "(i, Some p) \<in> set (pending_updates plan)" "promotion p = Some m"
    by (auto simp: plan_promotions_def in_map_filter bind_eq_Some_conv)
  then have i: "map_of (pending_updates plan) i = Some (Some p)" using sorted_distinct_keys [OF plan_okD(1) [OF ok]] by simp
  then have "pe_edge_id p = i" by (rule plan_okD(6) [OF ok])
  then show ?thesis using promotion_Relate [OF p(2)] i p(2) plan_okD(8) [OF ok, of i _ p] by (auto simp: promotions_updates carries_def)
qed

lemma promotions_complete:
  assumes ok: "plan_ok g S C plan" and i: "map_of (pending_edges g) i \<noteq> None \<or> i \<in> created_edge_ids plan"
  shows "planned g (plan_promotions plan) i \<noteq> None \<or> i \<in> mutation_edge_id ` set (promoted (plan_promotions plan))"
proof (cases "map_of (pending_updates plan) i")
  case None
  then show ?thesis using i plan_okD(9) [OF ok, of i] by (auto simp: planned_def projected_def promotions_updates)
next
  case (Some v)
  then obtain p where p: "map_of (pending_updates plan) i = Some (Some p)" using plan_okD(5) [OF ok] by blast
  show ?thesis
  proof (cases "promotion p")
    case None
    then show ?thesis using p by (simp add: planned_def projected_def promotions_updates)
  next
    case (Some m)
    have "m \<in> set (promoted (plan_promotions plan))" using map_of_SomeD [OF p] Some by (force simp: plan_promotions_def in_map_filter)
    moreover have "mutation_edge_id m = i" using promotion_Relate [OF Some] plan_okD(6) [OF ok p] by auto
    ultimately show ?thesis by blast
  qed
qed

lemma plan_promotions_ok:
  assumes ok: "plan_ok g S C plan" and pend: "pending_ok g" and new: "\<forall>sid d. S sid = Some d \<longrightarrow> deferred_sessions g sid = None"
  shows "final_ok g C (plan_promotions plan)"
proof -
  let ?plan = "plan_promotions plan"
  have keys: "map fst (pending_updates ?plan) = map fst (pending_updates plan)" by (simp add: plan_promotions_def case_prod_unfold comp_def)
  have fields: "created_edge_ids ?plan = created_edge_ids plan" "session_updates ?plan = S" "aborted_edge_ids ?plan = []"
    using ok by (simp_all add: plan_promotions_def plan_ok_def)
  have kept: "promotion p = None \<and> map_of (pending_updates plan) i = Some (Some p)"
    if "map_of (pending_updates ?plan) i = Some (Some p)" for i p
    using that by (auto simp: promotions_updates split: option.splits if_splits)
  moreover have "session_open_at (planned_session g S (pe_session_id p)) (pe_opening_lsn p)" if "planned g ?plan i = Some p" for i p
  proof (cases "map_of (pending_updates ?plan) i")
    case None
    then show ?thesis using that planned_pending(1) [OF pend new] by (simp add: planned_def projected_def)
  next
    case (Some v)
    then have "map_of (pending_updates ?plan) i = Some (Some p)" using that by (simp add: planned_def projected_def)
    then show ?thesis using kept plan_okD(7) [OF ok] by blast
  qed
  moreover have "i \<in> created_edge_ids plan \<or> map_of (pending_edges g) i \<noteq> None" if "map_of (pending_updates ?plan) i = Some v" for i v
    using that plan_okD(4) [OF ok] by (auto simp: promotions_updates)
  ultimately show ?thesis using plan_okD(1-3,6,8) [OF ok] promotions_sound [OF ok] promotions_complete [OF ok]
    unfolding final_ok_def fields keys by (intro conjI allI impI ballI) (blast | simp add: fields)+
qed

lemma final_okD:
  assumes "final_ok g C plan"
  shows "sorted_wrt (<) (map fst (pending_updates plan))" "created_edge_ids plan \<subseteq> C" "\<And>i. i \<in> created_edge_ids plan \<Longrightarrow> contains_edge_id g i = Inr False"
    "\<And>i u. map_of (pending_updates plan) i = Some u \<Longrightarrow> i \<in> created_edge_ids plan \<or> map_of (pending_edges g) i \<noteq> None"
    "\<And>i p. map_of (pending_updates plan) i = Some (Some p) \<Longrightarrow> pe_edge_id p = i \<and> promotion p = None"
    "\<And>i p. planned g plan i = Some p \<Longrightarrow> session_open_at (planned_session g (session_updates plan) (pe_session_id p)) (pe_opening_lsn p)"
    "\<And>i p q. map_of (pending_edges g) i = Some p \<Longrightarrow> map_of (pending_updates plan) i = Some (Some q) \<Longrightarrow> carries q p"
    "\<And>m. m \<in> set (promoted plan) \<Longrightarrow> \<exists>r. m = Relate r \<and> map_of (pending_updates plan) (rm_edge_id r) = Some None
        \<and> (\<forall>p. map_of (pending_edges g) (rm_edge_id r) = Some p \<longrightarrow> rm_namespace r = pe_namespace p \<and> rm_properties r = pe_properties p)"
    "\<And>i. i \<in> set (aborted_edge_ids plan) \<Longrightarrow> map_of (pending_updates plan) i = Some None"
    "\<And>i m. i \<in> set (aborted_edge_ids plan) \<Longrightarrow> m \<in> set (promoted plan) \<Longrightarrow> mutation_edge_id m \<noteq> i"
    "\<And>i. map_of (pending_edges g) i \<noteq> None \<or> i \<in> created_edge_ids plan \<Longrightarrow>
      planned g plan i \<noteq> None \<or> i \<in> mutation_edge_id ` set (promoted plan) \<or> i \<in> set (aborted_edge_ids plan)"
  using assms unfolding final_ok_def by blast+

lemma planned_unbound:
  assumes "pending_ok g" "final_ok g C plan" "planned g plan i = Some p"
  shows "promotion p = None" "pe_edge_id p = i"
proof -
  have "map_of (pending_updates plan) i = Some (Some p) \<or> map_of (pending_edges g) i = Some p"
    using assms(3) by (auto simp: planned_def projected_def split: option.splits)
  then show "promotion p = None" "pe_edge_id p = i" using final_okD(5) [OF assms(2)] assms(1) by (auto simp: pending_ok_def)
qed

lemma unbound_points_nonempty: "promotion p = None \<Longrightarrow> unbound_points p \<noteq> {}"
  by (auto simp: promotion_def unbound_points_def split: option.splits)

text \<open>A session may be committed only if no edge of it would stay pending.\<close>

lemma unbound_endpoints_planned:
  assumes "pending_ok g" "final_ok g C plan" "planned g plan i = Some p" "pe_session_id p = sid"
  shows "projected_unbound_endpoints (pending_edges g) (pending_updates plan) sid \<noteq> {}"
proof -
  note ne = unbound_points_nonempty [OF planned_unbound(1) [OF assms(1-3)]]
  show ?thesis
  proof (cases "map_of (pending_edges g) i")
    case (Some q)
    then have q: "(i, q) \<in> set (pending_edges g)" by (rule map_of_SomeD)
    have "(case map_of (pending_updates plan) i of Some (Some u) \<Rightarrow> Some u | Some None \<Rightarrow> None | None \<Rightarrow> Some q) = Some p"
      using assms(3) Some by (auto simp: planned_def projected_def split: option.splits)
    then show ?thesis using q ne assms(4) unfolding projected_unbound_endpoints_def by force
  next
    case None
    then have "map_of (pending_updates plan) i = Some (Some p)" using assms(3) by (auto simp: planned_def projected_def split: option.splits)
    then have "(i, Some p) \<in> set (pending_updates plan)" by (rule map_of_SomeD)
    then show ?thesis using None ne assms(4) unfolding projected_unbound_endpoints_def by force
  qed
qed


lemma plan_abort_fields:
  "created_edge_ids (plan_abort plan i) = created_edge_ids plan" "session_updates (plan_abort plan i) = session_updates plan"
  "promoted (plan_abort plan i) = promoted plan"
  "map_of (pending_updates (plan_abort plan i)) = (map_of (pending_updates plan))(i \<mapsto> None)"
  "set (aborted_edge_ids (plan_abort plan i)) =
     set (aborted_edge_ids plan) \<union> (if map_of (pending_updates plan) i = Some None then {} else {i})"
  by (auto simp: plan_abort_def fun_upd_idem)

lemma plan_aborts_fields:
  "created_edge_ids (fold (\<lambda>i p. plan_abort p i) is plan) = created_edge_ids plan"
  "session_updates (fold (\<lambda>i p. plan_abort p i) is plan) = session_updates plan"
  "promoted (fold (\<lambda>i p. plan_abort p i) is plan) = promoted plan"
  "map_of (pending_updates (fold (\<lambda>i p. plan_abort p i) is plan)) j = (if j \<in> set is then Some None else map_of (pending_updates plan) j)"
  "set (aborted_edge_ids (fold (\<lambda>i p. plan_abort p i) is plan)) =
     set (aborted_edge_ids plan) \<union> {i \<in> set is. map_of (pending_updates plan) i \<noteq> Some None}"
  by (induction "is" arbitrary: plan) (auto simp: plan_abort_fields)

lemma plan_aborts_sorted:
  "sorted_wrt (<) (map fst (pending_updates plan)) \<Longrightarrow> sorted_wrt (<) (map fst (pending_updates (fold (\<lambda>i p. plan_abort p i) is plan)))"
  by (induction "is" arbitrary: plan) (simp_all add: plan_abort_def sorted_btree_insert)

lemma in_abort_ids:
  assumes "pending_ok g" "final_ok g C plan"
  shows "i \<in> set (abort_ids g plan sid) \<longleftrightarrow>
    (\<exists>p. map_of (pending_edges g) i = Some p \<and> pe_session_id p = sid) \<or> (\<exists>p. map_of (pending_updates plan) i = Some (Some p) \<and> pe_session_id p = sid)"
proof -
  have d: "distinct (map fst (pending_edges g))" "distinct (map fst (pending_updates plan))"
    using assms(1) final_okD(1) [OF assms(2)] by (simp_all add: pending_ok_def sorted_distinct_keys)
  have g: "(j, p) \<in> set (pending_edges g) \<longleftrightarrow> map_of (pending_edges g) j = Some p" for j p using d(1) by simp
  have u: "(j, p) \<in> set (pending_updates plan) \<longleftrightarrow> map_of (pending_updates plan) j = Some p" for j p using d(2) by simp
  have ids: "map_of (pending_edges g) j = Some p \<Longrightarrow> pe_edge_id p = j" "map_of (pending_updates plan) j = Some (Some p) \<Longrightarrow> pe_edge_id p = j" for j p
    using assms(1) final_okD(5) [OF assms(2)] by (simp_all add: pending_ok_def)
  have "i \<in> set (abort_ids g plan sid) \<longleftrightarrow> (\<exists>j p. (j, p) \<in> set (pending_edges g) \<and> pe_session_id p = sid \<and> pe_edge_id p = i)
      \<or> (\<exists>j p. (j, Some p) \<in> set (pending_updates plan) \<and> pe_session_id p = sid \<and> pe_edge_id p = i)"
    unfolding abort_ids_def by (force simp: in_map_filter)
  then show ?thesis unfolding g u using ids by blast
qed

text \<open>A session that no planned edge belongs to may change its status.\<close>

lemma close_session_ok:
  assumes "final_ok g C plan" "\<forall>i p. planned g plan i = Some p \<longrightarrow> pe_session_id p \<noteq> sid"
  shows "final_ok g C (close_session g sid status plan)"
proof (cases "deferred_sessions g sid")
  case (Some d)
  let ?plan = "close_session g sid status plan"
  have fields: "pending_updates ?plan = pending_updates plan" "created_edge_ids ?plan = created_edge_ids plan" "promoted ?plan = promoted plan"
      "aborted_edge_ids ?plan = aborted_edge_ids plan" "planned g ?plan = planned g plan"
    by (simp_all add: close_session_def Some planned_def)
  have "planned_session g (session_updates ?plan) s = planned_session g (session_updates plan) s" if "s \<noteq> sid" for s
    using that by (simp add: close_session_def Some planned_session_def)
  then have "session_open_at (planned_session g (session_updates ?plan) (pe_session_id p)) (pe_opening_lsn p)" if "planned g plan i = Some p" for i p
    using that assms(2) final_okD(6) [OF assms(1), of i p] by simp
  then show ?thesis using assms(1) unfolding final_ok_def fields by blast
qed (use assms in \<open>simp add: close_session_def\<close>)

lemma abort_ids_planned:
  assumes "pending_ok g" "final_ok g C plan"
  shows "{i \<in> set (abort_ids g plan sid). map_of (pending_updates plan) i \<noteq> Some None} = {i. \<exists>p. planned g plan i = Some p \<and> pe_session_id p = sid}"
proof -
  have "i \<in> set (abort_ids g plan sid) \<and> map_of (pending_updates plan) i \<noteq> Some None \<longleftrightarrow> (\<exists>p. planned g plan i = Some p \<and> pe_session_id p = sid)" for i
  proof (cases "map_of (pending_updates plan) i")
    case None
    then show ?thesis by (auto simp: planned_def projected_def in_abort_ids [OF assms])
  next
    case (Some u)
    then show ?thesis
    proof (cases "map_of (pending_edges g) i"; cases u)
      fix p q assume "map_of (pending_edges g) i = Some p" "u = Some q"
      then show ?thesis using Some final_okD(7) [OF assms(2), of i p q] by (auto simp: carries_def planned_def projected_def in_abort_ids [OF assms])
    qed (use Some in \<open>auto simp: planned_def projected_def in_abort_ids [OF assms]\<close>)
  qed
  then show ?thesis by blast
qed

lemma plan_aborts_ok:
  assumes "pending_ok g" "final_ok g C plan"
  shows "final_ok g C (fold (\<lambda>i p. plan_abort p i) (abort_ids g plan sid) plan)"
    and "planned g (fold (\<lambda>i p. plan_abort p i) (abort_ids g plan sid) plan) i
      = (case planned g plan i of Some p \<Rightarrow> if pe_session_id p = sid then None else Some p | None \<Rightarrow> None)"
proof -
  let ?plan = "fold (\<lambda>i p. plan_abort p i) (abort_ids g plan sid) plan"
  note ids = in_abort_ids [OF assms]
  show p: "planned g ?plan i = (case planned g plan i of Some p \<Rightarrow> if pe_session_id p = sid then None else Some p | None \<Rightarrow> None)" for i
  proof (cases "map_of (pending_updates plan) i")
    case (Some u)
    have "pe_session_id q = pe_session_id p" if "map_of (pending_edges g) i = Some p" "u = Some q" for p q
      using that Some final_okD(7) [OF assms(2), of i p q] by (simp add: carries_def)
    then have "i \<in> set (abort_ids g plan sid) \<Longrightarrow> \<forall>q. u = Some q \<longrightarrow> pe_session_id q = sid" using Some unfolding ids by (cases u) auto
    then show ?thesis using Some by (cases u) (auto simp: planned_def projected_def plan_aborts_fields(4) ids)
  qed (auto simp: planned_def projected_def plan_aborts_fields(4) ids split: option.splits)
  have q: "planned g ?plan i = Some p \<Longrightarrow> planned g plan i = Some p" for i p by (simp add: p split: option.splits if_splits)
  have k: "i \<in> created_edge_ids plan \<or> map_of (pending_edges g) i \<noteq> None" if "i \<in> set (abort_ids g plan sid)" for i
    using that final_okD(4) [OF assms(2)] by (auto simp: ids)
  show "final_ok g C ?plan" unfolding final_ok_def plan_aborts_fields
  proof (intro conjI allI impI ballI)
    show "sorted_wrt (<) (map fst (pending_updates ?plan))" by (rule plan_aborts_sorted [OF final_okD(1) [OF assms(2)]])
    show "i \<in> created_edge_ids plan \<or> map_of (pending_edges g) i \<noteq> None"
      if "(if i \<in> set (abort_ids g plan sid) then Some None else map_of (pending_updates plan) i) = Some u" for i u
      using that k final_okD(4) [OF assms(2)] by (auto split: if_splits)
    show "\<exists>r. m = Relate r \<and> (if rm_edge_id r \<in> set (abort_ids g plan sid) then Some None else map_of (pending_updates plan) (rm_edge_id r)) = Some None
        \<and> (\<forall>p. map_of (pending_edges g) (rm_edge_id r) = Some p \<longrightarrow> rm_namespace r = pe_namespace p \<and> rm_properties r = pe_properties p)"
      if "m \<in> set (promoted plan)" for m
      using final_okD(8) [OF assms(2) that] by auto
    show "mutation_edge_id m \<noteq> i" if "i \<in> set (aborted_edge_ids plan) \<union> {i \<in> set (abort_ids g plan sid). map_of (pending_updates plan) i \<noteq> Some None}"
      "m \<in> set (promoted plan)" for i m
      using that final_okD(10) [OF assms(2)] final_okD(8) [OF assms(2), of m] by auto
    show "session_open_at (planned_session g (session_updates plan) (pe_session_id p)) (pe_opening_lsn p)" if "planned g ?plan i = Some p" for i p
      by (rule final_okD(6) [OF assms(2) q [OF that]])
    show "carries r p" if "map_of (pending_edges g) i = Some p"
      "(if i \<in> set (abort_ids g plan sid) then Some None else map_of (pending_updates plan) i) = Some (Some r)" for i p r
      using final_okD(7) [OF assms(2) that(1), of r] that(2) by (simp split: if_splits)
    show "planned g ?plan i \<noteq> None \<or> i \<in> mutation_edge_id ` set (promoted plan)
        \<or> i \<in> set (aborted_edge_ids plan) \<union> {i \<in> set (abort_ids g plan sid). map_of (pending_updates plan) i \<noteq> Some None}"
      if "map_of (pending_edges g) i \<noteq> None \<or> i \<in> created_edge_ids plan" for i
      using final_okD(11) [OF assms(2) that] unfolding abort_ids_planned [OF assms] by (auto simp: p)
  qed (use final_okD(2,3,5,9) [OF assms(2)] in \<open>auto split: if_splits\<close>)
qed


definition ends_as :: "GraphDeferredSessionMutation \<Rightarrow> DeferredSessionStatus" where
  "ends_as m = (case m of Open_mutation _ _ \<Rightarrow> Open_session | Commit_mutation _ \<Rightarrow> Committed | Abort_mutation _ \<Rightarrow> Aborted)"

definition terminal :: "('n, 'e) MutableGraphState \<Rightarrow> GraphDeferredSessionMutation \<Rightarrow> bool" where
  "terminal g m \<longleftrightarrow> ends_as m \<noteq> Open_session \<and> deferred_session_is_open g (session_id m)"

lemma close_session_fields:
  "pending_updates (close_session g sid status plan) = pending_updates plan"
  "created_edge_ids (close_session g sid status plan) = created_edge_ids plan"
  "promoted (close_session g sid status plan) = promoted plan"
  "aborted_edge_ids (close_session g sid status plan) = aborted_edge_ids plan"
  "planned g (close_session g sid status plan) = planned g plan"
  "session_updates (close_session g sid status plan) s = (if s = sid \<and> deferred_sessions g sid \<noteq> None
     then Some ((the (deferred_sessions g sid))\<lparr>ds_status := status\<rparr>) else session_updates plan s)"
  by (auto simp: close_session_def planned_def split: option.split)

lemma plan_terminal_step:
  assumes pend: "pending_ok g" and ok: "final_ok g C plan" and m: "terminal g m" and step: "plan_terminal g plan m = Inr plan'"
  shows "final_ok g C plan'" "promoted plan' = promoted plan" "created_edge_ids plan' = created_edge_ids plan"
    "planned g plan' i = Some p \<longleftrightarrow> planned g plan i = Some p \<and> pe_session_id p \<noteq> session_id m"
    "set (aborted_edge_ids plan') = set (aborted_edge_ids plan) \<union> {i. \<exists>p. planned g plan i = Some p \<and> m = Abort_mutation (pe_session_id p)}"
    "session_updates plan' s = (if s = session_id m then Some ((the (deferred_sessions g s))\<lparr>ds_status := ends_as m\<rparr>) else session_updates plan s)"
proof -
  have known: "deferred_sessions g (session_id m) \<noteq> None" using m by (auto simp: terminal_def deferred_session_is_open_def split: option.splits)
  have "final_ok g C plan' \<and> promoted plan' = promoted plan \<and> created_edge_ids plan' = created_edge_ids plan
    \<and> (\<forall>i p. planned g plan' i = Some p \<longleftrightarrow> planned g plan i = Some p \<and> pe_session_id p \<noteq> session_id m)
    \<and> set (aborted_edge_ids plan') = set (aborted_edge_ids plan) \<union> {i. \<exists>p. planned g plan i = Some p \<and> m = Abort_mutation (pe_session_id p)}
    \<and> session_updates plan' s = (if s = session_id m then Some ((the (deferred_sessions g s))\<lparr>ds_status := ends_as m\<rparr>) else session_updates plan s)"
  proof (cases m)
    case (Open_mutation sid owner)
    then show ?thesis using m by (simp add: terminal_def ends_as_def)
  next
    case (Commit_mutation sid)
    then have none: "projected_unbound_endpoints (pending_edges g) (pending_updates plan) sid = {}" and plan': "plan' = close_session g sid Committed plan"
      using step by (simp_all add: plan_terminal_def Let_def split: if_splits)
    then have no: "\<forall>i p. planned g plan i = Some p \<longrightarrow> pe_session_id p \<noteq> sid" using unbound_endpoints_planned [OF pend ok] by blast
    then show ?thesis using close_session_ok [OF ok] known Commit_mutation
      by (auto simp: plan' close_session_fields session_id_def ends_as_def)
  next
    case (Abort_mutation sid)
    let ?plan = "fold (\<lambda>i p. plan_abort p i) (abort_ids g plan sid) plan"
    have plan': "plan' = close_session g sid Aborted ?plan" using step Abort_mutation by (simp add: plan_terminal_def)
    note aborts = plan_aborts_ok [OF pend ok, of sid]
    show ?thesis using close_session_ok [OF aborts(1)] known Abort_mutation
      by (auto simp: plan' close_session_fields session_id_def ends_as_def aborts(2) plan_aborts_fields
        abort_ids_planned [OF pend ok] split: option.splits if_splits)
  qed
  then show "final_ok g C plan'" "promoted plan' = promoted plan" "created_edge_ids plan' = created_edge_ids plan"
    "planned g plan' i = Some p \<longleftrightarrow> planned g plan i = Some p \<and> pe_session_id p \<noteq> session_id m"
    "set (aborted_edge_ids plan') = set (aborted_edge_ids plan) \<union> {i. \<exists>p. planned g plan i = Some p \<and> m = Abort_mutation (pe_session_id p)}"
    "session_updates plan' s = (if s = session_id m then Some ((the (deferred_sessions g s))\<lparr>ds_status := ends_as m\<rparr>) else session_updates plan s)"
    by blast+
qed

lemma plan_terminals:
  assumes "pending_ok g" "final_ok g C plan" "\<forall>m \<in> set ms. terminal g m" "foldE (plan_terminal g) plan ms = Inr plan'" "distinct (map session_id ms)"
  shows "final_ok g C plan' \<and> promoted plan' = promoted plan \<and> created_edge_ids plan' = created_edge_ids plan
    \<and> (\<forall>i p. planned g plan' i = Some p \<longleftrightarrow> planned g plan i = Some p \<and> pe_session_id p \<notin> session_id ` set ms)
    \<and> set (aborted_edge_ids plan') = set (aborted_edge_ids plan) \<union> {i. \<exists>p. planned g plan i = Some p \<and> Abort_mutation (pe_session_id p) \<in> set ms}
    \<and> (\<forall>s. s \<notin> session_id ` set ms \<longrightarrow> session_updates plan' s = session_updates plan s)
    \<and> (\<forall>m \<in> set ms. session_updates plan' (session_id m) = Some ((the (deferred_sessions g (session_id m)))\<lparr>ds_status := ends_as m\<rparr>))"
  using assms(2-5)
proof (induction ms arbitrary: plan)
  case (Cons m ms)
  from Cons.prems(3) obtain plan1 where one: "plan_terminal g plan m = Inr plan1" and rest: "foldE (plan_terminal g) plan1 ms = Inr plan'"
    by (auto simp: res_simps)
  have t: "terminal g m" using Cons.prems(2) by simp
  note step = plan_terminal_step [OF assms(1) Cons.prems(1) t one]
  have "\<forall>m \<in> set ms. terminal g m" "distinct (map session_id ms)" using Cons.prems(2,4) by simp_all
  note IH = Cons.IH [OF step(1) this(1) rest this(2)]
  have ab: "Abort_mutation sid \<in> set ms \<Longrightarrow> sid \<in> session_id ` set ms" for sid by (force simp: session_id_def image_iff)
  have new: "session_id m \<notin> session_id ` set ms" using Cons.prems(4) by simp
  have "{i. \<exists>p. planned g plan1 i = Some p \<and> Abort_mutation (pe_session_id p) \<in> set ms} = {i. \<exists>p. planned g plan i = Some p \<and> Abort_mutation (pe_session_id p) \<in> set ms}"
    using new ab by (auto simp: step(4))
  then show ?case using IH new step(2,3,5,6) by (auto simp: step(4))
qed simp

lemma sessions_ok_terminal: "sessions_ok g acc \<Longrightarrow> m \<in> set (snd acc) \<Longrightarrow> terminal g m"
  by (cases m) (auto simp: sessions_ok_def terminal_def ends_as_def session_id_def)

lemma plan_session_cases:
  "plan_session g lsn acc m = Inr acc' \<longleftrightarrow>
     (case m of Open_mutation sid owner \<Rightarrow> deferred_sessions g sid = None
          \<and> acc' = ((fst acc)(sid \<mapsto> \<lparr>ds_opening_lsn = lsn, ds_status = Open_session, ds_owner = owner\<rparr>), snd acc)
      | _ \<Rightarrow> deferred_session_is_open g (session_id m) \<and> acc' = (fst acc, snd acc @ [m]))"
  by (cases m) (auto simp: plan_session_def Let_def deferred_session_is_open_def session_id_def split: option.splits if_splits)

lemma plan_sessions_result:
  assumes "foldE (plan_session g lsn) acc ms = Inr acc'" "distinct (map session_id ms)"
  shows "snd acc' = snd acc @ filter (\<lambda>m. ends_as m \<noteq> Open_session) ms
    \<and> (\<forall>s. s \<notin> session_id ` set ms \<longrightarrow> fst acc' s = fst acc s)
    \<and> (\<forall>m \<in> set ms. ends_as m \<noteq> Open_session \<longrightarrow> fst acc' (session_id m) = fst acc (session_id m))
    \<and> (\<forall>sid owner. Open_mutation sid owner \<in> set ms \<longrightarrow>
         fst acc' sid = Some \<lparr>ds_opening_lsn = lsn, ds_status = Open_session, ds_owner = owner\<rparr>)"
  using assms
proof (induction ms arbitrary: acc)
  case (Cons m ms)
  then obtain acc1 where one: "plan_session g lsn acc m = Inr acc1" and rest: "foldE (plan_session g lsn) acc1 ms = Inr acc'" by (auto simp: res_simps)
  have new: "session_id m \<notin> session_id ` set ms" using Cons.prems(2) by simp
  have IH: "snd acc' = snd acc1 @ filter (\<lambda>m. ends_as m \<noteq> Open_session) ms" "\<forall>s. s \<notin> session_id ` set ms \<longrightarrow> fst acc' s = fst acc1 s"
      "\<forall>m \<in> set ms. ends_as m \<noteq> Open_session \<longrightarrow> fst acc' (session_id m) = fst acc1 (session_id m)"
      "\<forall>sid owner. Open_mutation sid owner \<in> set ms \<longrightarrow> fst acc' sid = Some \<lparr>ds_opening_lsn = lsn, ds_status = Open_session, ds_owner = owner\<rparr>"
    using Cons.IH [OF rest] Cons.prems(2) by simp_all
  have other: "session_id m' \<noteq> session_id m" if "m' \<in> set ms" for m' using new that by (metis imageI)
  show ?case
  proof (cases m)
    case (Open_mutation sid owner)
    then have "acc1 = ((fst acc)(sid \<mapsto> \<lparr>ds_opening_lsn = lsn, ds_status = Open_session, ds_owner = owner\<rparr>), snd acc)" "session_id m = sid" "ends_as m = Open_session"
      using one by (simp_all add: plan_session_cases session_id_def ends_as_def)
    then show ?thesis using IH new other Open_mutation by auto
  qed (use one IH new in \<open>auto simp: plan_session_cases ends_as_def\<close>)
qed simp

lemma enumerate_item: "x \<in> set (enumerate n xs) \<Longrightarrow> snd x \<in> set xs"
  by (metis enumerate_eq_zip prod.collapse set_zip_rightD)

lemma planned_session_kept:
  assumes "final_ok g C plan" "planned g plan i = Some p" "map_of (pending_edges g) i = Some q"
  shows "pe_session_id p = pe_session_id q"
proof (cases "map_of (pending_updates plan) i")
  case (Some u)
  then have "map_of (pending_updates plan) i = Some (Some p)" using assms(2) by (simp add: planned_def projected_def)
  then show ?thesis using final_okD(7) [OF assms(1,3)] by (simp add: carries_def)
qed (use assms in \<open>simp add: planned_def projected_def\<close>)

lemma plan_default_ok: "plan_ok g S C (plan_default\<lparr>session_updates := S\<rparr>)"
  by (simp add: plan_ok_def plan_default_def)

text \<open>The plan before its sessions end: \<open>S\<close> are the sessions the batch opens, \<open>ts\<close> the mutations that end one.\<close>

lemma plan_deferred_phases:
  assumes inv: "graph_inv g" and pend: "pending_ok g" and plan: "plan_deferred json_len g resolver inp types = Inr plan"
    and distinct: "distinct (map session_id (session_mutations inp))"
  shows "\<exists>S plan1. final_ok g (dc_edge_id ` set (creates inp)) plan1 \<and> session_updates plan1 = S \<and> aborted_edge_ids plan1 = []
    \<and> foldE (plan_terminal g) plan1 (filter (\<lambda>m. ends_as m \<noteq> Open_session) (session_mutations inp)) = Inr plan
    \<and> (\<forall>m \<in> set (session_mutations inp). ends_as m \<noteq> Open_session \<longrightarrow> terminal g m)
    \<and> (\<forall>s. s \<notin> session_id ` set (session_mutations inp) \<longrightarrow> S s = None)
    \<and> (\<forall>sid owner. Open_mutation sid owner \<in> set (session_mutations inp) \<longrightarrow>
         S sid = Some \<lparr>ds_opening_lsn = record_lsn inp, ds_status = Open_session, ds_owner = owner\<rparr>)"
proof -
  let ?C = "dc_edge_id ` set (creates inp)"
  from plan obtain sessions plan1 plan2 where
    s: "foldE (plan_session g (record_lsn inp)) (Map.empty, []) (session_mutations inp) = (Inr sessions :: ('b, _) gresult)"
    and p1: "foldE (plan_create json_len g resolver types) (plan_default\<lparr>session_updates := fst sessions\<rparr>) (enumerate 0 (creates inp)) = Inr plan1"
    and p2: "foldE (plan_bind g resolver (assignments inp)) plan1 (enumerate 0 (endpoint_binds inp)) = Inr plan2"
    and p3: "foldE (plan_terminal g) (plan_promotions plan2) (snd sessions) = Inr plan"
    by (auto simp: plan_deferred_def res_simps)
  note sok = plan_sessions_ok [OF s] and sres = plan_sessions_result [OF s distinct]
  have new: "\<forall>sid d. fst sessions sid = Some d \<longrightarrow> deferred_sessions g sid = None" using sok by (simp add: sessions_ok_def)
  have "plan_ok g (fst sessions) ?C plan1"
    by (rule foldE_invariant [OF p1, of "plan_ok g (fst sessions) ?C"]) (auto intro: plan_default_ok plan_create_ok [OF _ _ _ inv] dest: enumerate_item)
  then have "plan_ok g (fst sessions) ?C plan2"
    by (rule foldE_invariant [OF p2, of "plan_ok g (fst sessions) ?C"]) (rule plan_bind_ok [OF _ pend new])
  then have f: "final_ok g ?C (plan_promotions plan2)" "session_updates (plan_promotions plan2) = fst sessions" "aborted_edge_ids (plan_promotions plan2) = []"
    using plan_promotions_ok [OF _ pend new] by (auto simp: plan_ok_def plan_promotions_def)
  have ts: "snd sessions = filter (\<lambda>m. ends_as m \<noteq> Open_session) (session_mutations inp)" using sres by simp
  have T: "\<forall>m \<in> set (session_mutations inp). ends_as m \<noteq> Open_session \<longrightarrow> terminal g m" using sessions_ok_terminal [OF sok] by (simp add: ts)
  show ?thesis using f p3 T sres unfolding ts by (intro exI [of _ "fst sessions"] exI [of _ "plan_promotions plan2"]) auto
qed

lemma opened_not_ended:
  assumes "distinct (map session_id ms)" "Open_mutation sid owner \<in> set ms"
  shows "sid \<notin> session_id ` set (filter (\<lambda>m. ends_as m \<noteq> Open_session) ms)"
proof
  assume "sid \<in> session_id ` set (filter (\<lambda>m. ends_as m \<noteq> Open_session) ms)"
  then obtain m where m: "m \<in> set ms" "ends_as m \<noteq> Open_session" "session_id m = session_id (Open_mutation sid owner)"
    by (auto simp: session_id_def)
  then have "m = Open_mutation sid owner" using assms by (auto simp: distinct_map inj_on_def)
  then show False using m(2) by (simp add: ends_as_def)
qed

lemma plan_deferred_ok:
  assumes inv: "graph_inv g" and pend: "pending_ok g" and plan: "plan_deferred json_len g resolver inp types = Inr plan"
    and distinct: "distinct (map session_id (session_mutations inp))"
  shows "final_ok g (dc_edge_id ` set (creates inp)) plan"
    and "\<forall>m \<in> set (session_mutations inp). \<exists>d. session_updates plan (session_id m) = Some d \<and> ds_status d = ends_as m"
    and "\<forall>s. s \<notin> session_id ` set (session_mutations inp) \<longrightarrow> session_updates plan s = None"
    and "\<forall>i \<in> set (aborted_edge_ids plan). (\<exists>sid. Abort_mutation sid \<in> set (session_mutations inp))
       \<and> (\<forall>p. map_of (pending_edges g) i = Some p \<longrightarrow> Abort_mutation (pe_session_id p) \<in> set (session_mutations inp))"
proof -
  let ?ts = "filter (\<lambda>m. ends_as m \<noteq> Open_session) (session_mutations inp)"
  from plan_deferred_phases [OF assms] obtain S plan1 where f: "final_ok g (dc_edge_id ` set (creates inp)) plan1" "session_updates plan1 = S"
      "aborted_edge_ids plan1 = []" and p: "foldE (plan_terminal g) plan1 ?ts = Inr plan"
    and T: "\<forall>m \<in> set (session_mutations inp). ends_as m \<noteq> Open_session \<longrightarrow> terminal g m"
    and none: "\<forall>s. s \<notin> session_id ` set (session_mutations inp) \<longrightarrow> S s = None"
    and new: "\<forall>sid owner. Open_mutation sid owner \<in> set (session_mutations inp) \<longrightarrow>
         S sid = Some \<lparr>ds_opening_lsn = record_lsn inp, ds_status = Open_session, ds_owner = owner\<rparr>" by blast
  have "\<forall>m \<in> set ?ts. terminal g m" "distinct (map session_id ?ts)" using T distinct by (simp_all add: distinct_map_filter)
  note t = plan_terminals [OF pend f(1) this(1) p this(2)]
  show "final_ok g (dc_edge_id ` set (creates inp)) plan" using t by blast
  have ended: "session_updates plan (session_id m) = Some ((the (deferred_sessions g (session_id m)))\<lparr>ds_status := ends_as m\<rparr>)"
    if "m \<in> set (session_mutations inp)" "ends_as m \<noteq> Open_session" for m
    using t that by simp
  have rest: "session_updates plan s = S s" if "s \<notin> session_id ` set ?ts" for s using t that f(2) by simp
  have opened: "session_updates plan sid = Some \<lparr>ds_opening_lsn = record_lsn inp, ds_status = Open_session, ds_owner = owner\<rparr>"
    if "Open_mutation sid owner \<in> set (session_mutations inp)" for sid owner
    using rest [OF opened_not_ended [OF distinct that]] new that by simp
  show "\<forall>m \<in> set (session_mutations inp). \<exists>d. session_updates plan (session_id m) = Some d \<and> ds_status d = ends_as m"
  proof
    fix m assume m: "m \<in> set (session_mutations inp)"
    show "\<exists>d. session_updates plan (session_id m) = Some d \<and> ds_status d = ends_as m"
    proof (cases m)
      case (Open_mutation sid owner)
      then show ?thesis using opened [of sid owner] m by (simp add: session_id_def ends_as_def)
    qed (use ended [of m] m in \<open>simp_all add: ends_as_def\<close>)
  qed
  show "\<forall>s. s \<notin> session_id ` set (session_mutations inp) \<longrightarrow> session_updates plan s = None"
    using rest none by (auto simp: image_iff)
  show "\<forall>i \<in> set (aborted_edge_ids plan). (\<exists>sid. Abort_mutation sid \<in> set (session_mutations inp))
       \<and> (\<forall>p. map_of (pending_edges g) i = Some p \<longrightarrow> Abort_mutation (pe_session_id p) \<in> set (session_mutations inp))"
  proof
    fix i assume "i \<in> set (aborted_edge_ids plan)"
    then obtain p where "planned g plan1 i = Some p" "Abort_mutation (pe_session_id p) \<in> set (session_mutations inp)"
      using t f(3) by auto
    then show "(\<exists>sid. Abort_mutation sid \<in> set (session_mutations inp))
       \<and> (\<forall>p. map_of (pending_edges g) i = Some p \<longrightarrow> Abort_mutation (pe_session_id p) \<in> set (session_mutations inp))"
      using planned_session_kept [OF f(1)] by auto
  qed
qed

section \<open>Applying a plan\<close>

lemma apply_deferred_plan_state:
  assumes pend: "pending_ok g" and ok: "final_ok g C plan"
    and base: "pending_edges g1 = pending_edges g" "pending_by_endpoint g1 = pending_by_endpoint g"
  shows "\<exists>ps ix. apply_deferred_plan g1 plan = g1\<lparr>edge_ids := edge_ids g1 \<union> created_edge_ids plan,
      deferred_sessions := deferred_sessions g1 ++ session_updates plan, pending_edges := ps, pending_by_endpoint := ix,
      edge_tombstones := edge_tombstones g1 \<union> set (aborted_edge_ids plan)\<rparr>
    \<and> sorted_wrt (<) (map fst ps) \<and> index_ok ix (map_of ps) \<and> map_of ps = planned g plan"
proof -
  let ?g = "g1\<lparr>edge_ids := edge_ids g1 \<union> created_edge_ids plan, deferred_sessions := deferred_sessions g1 ++ session_updates plan\<rparr>"
  have d: "distinct (map fst (pending_updates plan))" using final_okD(1) [OF ok] by (rule sorted_distinct_keys)
  have ids: "\<forall>i p. (i, Some p) \<in> set (pending_updates plan) \<longrightarrow> pe_edge_id p = i"
    using final_okD(5) [OF ok] d by (metis map_of_is_SomeI)
  obtain ps ix where f: "fold apply_pending_update (pending_updates plan) ?g = ?g\<lparr>pending_edges := ps, pending_by_endpoint := ix\<rparr>"
     and r: "sorted_wrt (<) (map fst ps) \<and> index_ok ix (map_of ps) \<and> map_of ps = projected (pending_updates plan) (map_of (pending_edges ?g))"
    using apply_pending_updates [OF _ _ _ ids d, of ?g] pend base by (auto simp: pending_ok_def)
  have "apply_deferred_plan g1 plan = g1\<lparr>edge_ids := edge_ids g1 \<union> created_edge_ids plan,
      deferred_sessions := deferred_sessions g1 ++ session_updates plan, pending_edges := ps, pending_by_endpoint := ix,
      edge_tombstones := edge_tombstones g1 \<union> set (aborted_edge_ids plan)\<rparr>"
    unfolding apply_deferred_plan_def Let_def f by simp
  then show ?thesis using r by (intro exI [of _ ps] exI [of _ ix]) (auto simp: planned_def base)
qed

lemma session_closed_not_open:
  "session_open_at (planned_session g u s) lsn \<Longrightarrow> session_open_at ((deferred_sessions g ++ u) s) lsn"
  by (simp add: planned_session_def map_add_def split: option.splits)

lemma dormant_same: "same_base g g' \<Longrightarrow> same_edge i g g' \<Longrightarrow> dormant g' i = dormant g i"
  using same_base_fields [of g g'] by (simp add: dormant_def same_edge_def)

lemma final_dormant:
  assumes "graph_inv g" "pending_ok g" "final_ok g C plan" "map_of (pending_edges g) i \<noteq> None \<or> i \<in> created_edge_ids plan"
  shows "dormant g i"
  using assms(4) unknown_dormant [OF assms(1) final_okD(3) [OF assms(3)], of i] assms(2) by (auto simp: pending_ok_def)

lemma planned_origin:
  "final_ok g C plan \<Longrightarrow> planned g plan i = Some p \<Longrightarrow> map_of (pending_edges g) i \<noteq> None \<or> i \<in> created_edge_ids plan"
  using final_okD(4) [of g C plan i] by (fastforce simp: planned_def projected_def split: option.splits)

text \<open>
  \<open>g1\<close> is the state after the edge mutations of the batch, which leave every deferred edge alone
  that is not promoted.
\<close>

lemma apply_deferred_plan_ok:
  assumes inv: "graph_inv g" and pend: "pending_ok g" and ok: "final_ok g C plan" and g1: "graph_inv g1" "same_base g g1"
    and quiet: "\<forall>i. (map_of (pending_edges g) i \<noteq> None \<or> i \<in> created_edge_ids plan) \<and> i \<notin> mutation_edge_id ` set (promoted plan) \<longrightarrow> same_edge i g g1"
  shows "graph_inv (apply_deferred_plan g1 plan)" "pending_ok (apply_deferred_plan g1 plan)"
proof -
  let ?g2 = "apply_deferred_plan g1 plan"
  note b = same_base_fields [OF g1(2)]
  from apply_deferred_plan_state [OF pend ok, of g1] b obtain ps ix where
    g2: "?g2 = g1\<lparr>edge_ids := edge_ids g1 \<union> created_edge_ids plan, deferred_sessions := deferred_sessions g ++ session_updates plan,
      pending_edges := ps, pending_by_endpoint := ix, edge_tombstones := edge_tombstones g1 \<union> set (aborted_edge_ids plan)\<rparr>"
    and ps: "sorted_wrt (<) (map fst ps)" "index_ok ix (map_of ps)" "map_of ps = planned g plan" by auto
  have dormant1: "dormant g1 i" if "map_of (pending_edges g) i \<noteq> None \<or> i \<in> created_edge_ids plan" "i \<notin> mutation_edge_id ` set (promoted plan)" for i
    using that quiet final_dormant [OF inv pend ok that(1)] dormant_same [OF g1(2)] by blast
  have aborted: "map_of (pending_edges g) i \<noteq> None \<or> i \<in> created_edge_ids plan" "i \<notin> mutation_edge_id ` set (promoted plan)"
    if "i \<in> set (aborted_edge_ids plan)" for i
    using final_okD(4,9,10) [OF ok] that by blast+
  have pl: "i \<notin> mutation_edge_id ` set (promoted plan)" "i \<notin> set (aborted_edge_ids plan)" if "planned g plan i = Some p" for i p
    using that final_okD(8,9) [OF ok] by (fastforce simp: planned_def projected_def)+
  have ns: "edge_namespace ?g2 i = (if i \<in> set (aborted_edge_ids plan) then Inr None else edge_namespace g1 i)" for i
    by (simp add: g2 edge_namespace_def edge_visible_def split: option.split)
  have live: "live_ids ?g2 = live_ids g1"
    using dormant_not_live [OF dormant1 [OF aborted]] by (auto simp: live_ids_def ns)
  have known: "contains_edge_id ?g2 i = Inr True" if "contains_edge_id g1 i = Inr True \<or> i \<in> created_edge_ids plan" for i
    using that by (auto simp: g2 contains_edge_id_def)
  have "contains_edge_id ?g2 i = Inr True"
    if "i \<in> dom (edges ?g2) \<or> i \<in> edge_tombstones ?g2 \<or> (\<exists>ns. sealed_namespaces ?g2 i = Inr (Some ns)) \<or> map_of (pending_edges ?g2) i \<noteq> None" for i
  proof (rule known)
    show "contains_edge_id g1 i = Inr True \<or> i \<in> created_edge_ids plan"
      using that aborted(1) [of i] planned_origin [OF ok, of i] g1(1) b by (auto simp: g2 ps(3) graph_inv_def ledger_ok_def dom_def)
  qed
  then have "ledger_ok ?g2" using g1(1) unfolding ledger_ok_def graph_inv_def by (simp add: g2)
  then show "graph_inv ?g2" using g1(1) live unfolding graph_inv_def by (simp add: g2 rows_ok_def documents_ok_def)
  have "pe_edge_id p = i \<and> promotion p = None \<and> dormant ?g2 i \<and> session_open_at (deferred_sessions ?g2 (pe_session_id p)) (pe_opening_lsn p)"
    if p: "planned g plan i = Some p" for i p
    using planned_unbound [OF pend ok p] session_closed_not_open [OF final_okD(6) [OF ok p]] dormant1 [OF planned_origin [OF ok p]] pl [OF p]
    by (simp add: g2 dormant_def)
  then show "pending_ok ?g2" using ps unfolding pending_ok_def by (simp add: g2)
qed

end
