(* ===== verification/Point_Storage.thy ===== *)
theory Point_Storage
  imports Tenant_Scope Payload_Index
begin

text \<open>
  The storage tiers of a collection as the log replays into them, after \<open>chirondb-core/src/streamer.rs\<close>,
  \<open>searcher.rs\<close> and the replay functions of \<open>db.rs\<close>: the mutable streamer, the sealed searchers with
  their tombstones, the map that says which tier owns a point id, and the payload index. The in-memory
  vector indexes are left out. A sealed store on disk is a pair of functions, reading a point and its
  ordinal; replay passes no sparse index.
\<close>

section \<open>Points and the streamer\<close>

record 'f SparseVector =
  sv_indices :: "u32 list"
  sv_values :: "'f list"

record ('n, 'f) Point =
  pt_id :: ustr
  pt_vector :: "'f list"
  pt_vectors :: "(ustr \<times> 'f list) list"
  pt_sparse_vector :: "'f SparseVector option"
  pt_payload :: "'n Value"

fun json_bytes :: "'n Value \<Rightarrow> nat" where
  "json_bytes JNull = 0"
| "json_bytes (JBool _) = 1"
| "json_bytes (JNumber _) = 8"
| "json_bytes (JString s) = utf8_len s"
| "json_bytes (JArray vs) = sum_list (map json_bytes vs)"
| "json_bytes (JObject kvs) = sum_list (map (\<lambda>kv. utf8_len (fst kv) + json_bytes (snd kv)) kvs)"

definition point_bytes :: "('n, 'f) Point \<Rightarrow> nat" where
  "point_bytes p =
     utf8_len (pt_id p) + length (pt_vector p) * 4
     + sum_list (map (\<lambda>(name, vector). utf8_len name + length vector * 4) (pt_vectors p))
     + (case pt_sparse_vector p of None \<Rightarrow> 0 | Some v \<Rightarrow> length (sv_indices v) * 4 + length (sv_values v) * 4)
     + json_bytes (pt_payload p)"

record ('n, 'f) Streamer =
  st_points :: "ustr \<rightharpoonup> ('n, 'f) Point"
  st_base_lsn :: nat
  st_vector_bytes :: nat

definition with_base_lsn :: "nat \<Rightarrow> ('n, 'f) Streamer" where
  "with_base_lsn lsn = \<lparr>st_points = Map.empty, st_base_lsn = lsn, st_vector_bytes = 0\<rparr>"

definition old_bytes :: "('n, 'f) Point option \<Rightarrow> nat" where
  "old_bytes old = (case old of None \<Rightarrow> 0 | Some p \<Rightarrow> point_bytes p)"

definition streamer_insert :: "('n, 'f) Streamer \<Rightarrow> ('n, 'f) Point \<Rightarrow> ('n, 'f) Streamer" where
  "streamer_insert st p =
     st\<lparr>st_points := (st_points st)(pt_id p \<mapsto> p),
        st_vector_bytes := saturating_add (st_vector_bytes st) (point_bytes p) - old_bytes (st_points st (pt_id p))\<rparr>"

definition streamer_remove :: "('n, 'f) Streamer \<Rightarrow> ustr \<Rightarrow> ('n, 'f) Streamer" where
  "streamer_remove st i =
     st\<lparr>st_points := (st_points st)(i := None), st_vector_bytes := st_vector_bytes st - old_bytes (st_points st i)\<rparr>"

definition refresh_point_bytes :: "('n, 'f) Streamer \<Rightarrow> nat \<Rightarrow> ustr \<Rightarrow> ('n, 'f) Streamer" where
  "refresh_point_bytes st old i =
     st\<lparr>st_vector_bytes := saturating_add (st_vector_bytes st) (old_bytes (st_points st i)) - old\<rparr>"

section \<open>Sealed searchers\<close>

datatype SegLoc = In_streamer | In_sealing | In_searcher nat

datatype ('n, 'f, 'e) SegmentStore =
    Heap "ustr \<rightharpoonup> ('n, 'f) Point"
  | V4 "ustr \<Rightarrow> 'e + ('n, 'f) Point option" "ustr \<Rightarrow> nat option"

fun try_get :: "('n, 'f, 'e) SegmentStore \<Rightarrow> ustr \<Rightarrow> 'e + ('n, 'f) Point option" where
  "try_get (Heap points) i = Inr (points i)"
| "try_get (V4 get_point _) i = get_point i"

record ('n, 'f, 'e) SegmentSearcher =
  sg_store :: "('n, 'f, 'e) SegmentStore"
  sg_tombstones :: "ustr set"
  sg_tombstone_ordinals :: "u32 set"

definition ordinal :: "('n, 'f, 'e) SegmentSearcher \<Rightarrow> ustr \<Rightarrow> u32 option" where
  "ordinal s i =
     (case sg_store s of Heap _ \<Rightarrow> None
      | V4 _ ord \<Rightarrow> (case ord i of None \<Rightarrow> None | Some n \<Rightarrow> if n < 2 ^ 32 then Some (of_nat n) else None))"

definition tombstone :: "('n, 'f, 'e) SegmentSearcher \<Rightarrow> ustr \<Rightarrow> ('n, 'f, 'e) SegmentSearcher" where
  "tombstone s i =
     s\<lparr>sg_tombstones := insert i (sg_tombstones s),
       sg_tombstone_ordinals := (case ordinal s i of None \<Rightarrow> sg_tombstone_ordinals s | Some n \<Rightarrow> insert n (sg_tombstone_ordinals s))\<rparr>"

definition is_tombstoned :: "('n, 'f, 'e) SegmentSearcher \<Rightarrow> ustr \<Rightarrow> bool" where
  "is_tombstoned s i \<longleftrightarrow>
     (case ordinal s i of None \<Rightarrow> False | Some n \<Rightarrow> n \<in> sg_tombstone_ordinals s) \<or> i \<in> sg_tombstones s"

definition try_get_live :: "('n, 'f, 'e) SegmentSearcher \<Rightarrow> ustr \<Rightarrow> 'e + ('n, 'f) Point option" where
  "try_get_live s i = (if is_tombstoned s i then Inr None else try_get (sg_store s) i)"

section \<open>Replay\<close>

record ('n, 'f, 'e) Storage =
  streamer :: "('n, 'f) Streamer"
  searchers :: "('n, 'f, 'e) SegmentSearcher list"
  id_index :: "ustr \<rightharpoonup> SegLoc"
  payload_index :: PayloadIndex

datatype 'e storage_error = Read_error 'e | Transient_sealing | Index_panic

definition unlist_payload :: "'n json_ext \<Rightarrow> ('n, 'f) Point option \<Rightarrow> ('n, 'f, 'e) Storage \<Rightarrow> ('n, 'f, 'e) Storage" where
  "unlist_payload ext existing c =
     (case existing of None \<Rightarrow> c
      | Some p \<Rightarrow> c\<lparr>payload_index := remove_payload_point ext (pt_id p) (pt_payload p) (payload_index c)\<rparr>)"

definition frozen_point :: "('n, 'f) Streamer option \<Rightarrow> ustr \<Rightarrow> 'e storage_error + ('n, 'f) Point" where
  "frozen_point sealing i = ok_or Transient_sealing (Option.bind sealing (\<lambda>frozen. st_points frozen i))"

definition bury :: "'n json_ext \<Rightarrow> nat \<Rightarrow> ustr \<Rightarrow> ('n, 'f, 'e) Storage \<Rightarrow> 'e storage_error + ('n, 'f, 'e) Storage" where
  "bury ext k i c =
     (if length (searchers c) \<le> k then Inl Index_panic
      else bindE (map_err Read_error (try_get (sg_store (searchers c ! k)) i)) (\<lambda>existing.
           Inr ((unlist_payload ext existing c)\<lparr>searchers := (searchers c)[k := tombstone (searchers c ! k) i]\<rparr>)))"

definition apply_wal_upsert ::
  "'n json_ext \<Rightarrow> ('n, 'f) Streamer option \<Rightarrow> ('n, 'f, 'e) Storage \<Rightarrow> ('n, 'f) Point \<Rightarrow> 'e storage_error + ('n, 'f, 'e) Storage" where
  "apply_wal_upsert ext sealing c p =
     bindE (case id_index c (pt_id p) of
              None \<Rightarrow> Inr c
            | Some In_streamer \<Rightarrow> Inr (unlist_payload ext (st_points (streamer c) (pt_id p)) c)
            | Some In_sealing \<Rightarrow> bindE (frozen_point sealing (pt_id p)) (\<lambda>existing. Inr (unlist_payload ext (Some existing) c))
            | Some (In_searcher k) \<Rightarrow> bury ext k (pt_id p) c) (\<lambda>c.
     Inr (c\<lparr>payload_index := insert_payload_point ext (pt_id p) (pt_payload p) (payload_index c),
            id_index := (id_index c)(pt_id p \<mapsto> In_streamer), streamer := streamer_insert (streamer c) p\<rparr>))"

definition apply_wal_delete ::
  "'n json_ext \<Rightarrow> ('n, 'f) Streamer option \<Rightarrow> ('n, 'f, 'e) Storage \<Rightarrow> ustr \<Rightarrow> 'e storage_error + ('n, 'f, 'e) Storage" where
  "apply_wal_delete ext sealing c i =
     bindE (case id_index c i of
              None \<Rightarrow> Inr c
            | Some In_streamer \<Rightarrow>
                Inr ((unlist_payload ext (st_points (streamer c) i) c)\<lparr>streamer := streamer_remove (streamer c) i\<rparr>)
            | Some In_sealing \<Rightarrow> bindE (frozen_point sealing i) (\<lambda>existing. Inr (unlist_payload ext (Some existing) c))
            | Some (In_searcher k) \<Rightarrow> bury ext k i c) (\<lambda>c.
     Inr (c\<lparr>id_index := (id_index c)(i := None)\<rparr>))"

text \<open>A payload update of a sealed point first moves the point into the streamer.\<close>

definition take_sealed :: "('n, 'f, 'e) Storage \<Rightarrow> ustr \<Rightarrow> 'e storage_error + ('n, 'f, 'e) Storage" where
  "take_sealed c i =
     (case id_index c i of
        Some In_sealing \<Rightarrow> Inl Transient_sealing
      | Some (In_searcher k) \<Rightarrow>
          if length (searchers c) \<le> k then Inl Index_panic
          else bindE (map_err Read_error (try_get (sg_store (searchers c ! k)) i)) (\<lambda>taken.
               Inr (case taken of None \<Rightarrow> c
                    | Some p \<Rightarrow> c\<lparr>searchers := (searchers c)[k := tombstone (searchers c ! k) i],
                                  id_index := (id_index c)(i \<mapsto> In_streamer), streamer := streamer_insert (streamer c) p\<rparr>))
      | _ \<Rightarrow> Inr c)"

definition apply_wal_set_payload ::
  "'n json_ext \<Rightarrow> ('n, 'f, 'e) Storage \<Rightarrow> ustr \<Rightarrow> 'n Value \<Rightarrow> bool \<Rightarrow> 'e storage_error + ('n, 'f, 'e) Storage" where
  "apply_wal_set_payload ext c i payload merge =
     bindE (take_sealed c i) (\<lambda>c.
     Inr (case st_points (streamer c) i of None \<Rightarrow> c
          | Some p \<Rightarrow>
              let q = p\<lparr>pt_payload := merged_payload merge (pt_payload p) payload\<rparr>;
                  c = unlist_payload ext (Some p) c;
                  c = c\<lparr>payload_index := insert_payload_point ext (pt_id q) (pt_payload q) (payload_index c)\<rparr> in
              c\<lparr>streamer := refresh_point_bytes ((streamer c)\<lparr>st_points := (st_points (streamer c))(i \<mapsto> q)\<rparr>) (point_bytes p) i\<rparr>))"

section \<open>One owner per point\<close>

definition sealed_live :: "('n, 'f, 'e) Storage \<Rightarrow> nat \<Rightarrow> ustr \<Rightarrow> bool" where
  "sealed_live c k i \<longleftrightarrow> k < length (searchers c) \<and> try_get_live (searchers c ! k) i \<noteq> Inr None"

text \<open>The payloads the string-keyed index is responsible for: the sealed stores on disk have their own.\<close>

definition listed :: "('n, 'f, 'e) Storage \<Rightarrow> ustr \<rightharpoonup> 'n Value" where
  "listed c i =
     (case id_index c i of
        Some In_streamer \<Rightarrow> map_option pt_payload (st_points (streamer c) i)
      | Some (In_searcher k) \<Rightarrow>
          (case sg_store (searchers c ! k) of Heap points \<Rightarrow> map_option pt_payload (points i) | V4 _ _ \<Rightarrow> None)
      | _ \<Rightarrow> None)"

text \<open>A store returns a point under its own id and gives every id an ordinal of its own.\<close>

definition sound_store :: "('n, 'f, 'e) SegmentStore \<Rightarrow> bool" where
  "sound_store s \<longleftrightarrow> (\<forall>i p. try_get s i = Inr (Some p) \<longrightarrow> pt_id p = i)
     \<and> (case s of Heap _ \<Rightarrow> True | V4 _ ord \<Rightarrow> \<forall>i j n. ord i = Some n \<longrightarrow> ord j = Some n \<longrightarrow> i = j)"

definition storage_ok :: "'n json_ext \<Rightarrow> ('n, 'f, 'e) Storage \<Rightarrow> bool" where
  "storage_ok ext c \<longleftrightarrow>
     (\<forall>i. id_index c i = Some In_streamer \<longleftrightarrow> st_points (streamer c) i \<noteq> None)
   \<and> (\<forall>i p. st_points (streamer c) i = Some p \<longrightarrow> pt_id p = i)
   \<and> (\<forall>i. id_index c i \<noteq> Some In_sealing)
   \<and> (\<forall>i k. id_index c i = Some (In_searcher k) \<longleftrightarrow> sealed_live c k i)
   \<and> (\<forall>s \<in> set (searchers c). sound_store (sg_store s))
   \<and> represents ext (payload_index c) (listed c)"

lemma storage_okD:
  assumes "storage_ok ext c"
  shows "id_index c i = Some In_streamer \<longleftrightarrow> st_points (streamer c) i \<noteq> None"
    "st_points (streamer c) i = Some p \<Longrightarrow> pt_id p = i" "id_index c i \<noteq> Some In_sealing"
    "id_index c i = Some (In_searcher k) \<longleftrightarrow> sealed_live c k i"
    "k < length (searchers c) \<Longrightarrow> sound_store (sg_store (searchers c ! k))"
    "represents ext (payload_index c) (listed c)"
  using assms unfolding storage_ok_def by (blast | metis nth_mem)+

lemma owners_absent: "points pid = None \<Longrightarrow> owners keys points f k - {pid} = owners keys points f k"
  by (auto simp: owners_def)

lemma represents_absent:
  assumes "represents ext ix points" "points pid = None"
  shows "represents ext (remove_payload_point ext pid payload ix) points"
  using assms by (simp add: represents_def remove_payload_point_entries owners_absent fun_eq_iff
      fold_remove_posts [where sel = equality, OF remove_scalar_posts(1)] fold_remove_posts [where sel = numeric, OF remove_scalar_posts(2)]
      fold_remove_posts [where sel = text_terms, OF remove_scalar_posts(3)])

text \<open>What the collection holds under an id.\<close>

definition live_point :: "('n, 'f, 'e) Storage \<Rightarrow> ustr \<Rightarrow> 'e + ('n, 'f) Point option" where
  "live_point c i =
     (case id_index c i of
        Some In_streamer \<Rightarrow> Inr (st_points (streamer c) i)
      | Some (In_searcher k) \<Rightarrow> try_get_live (searchers c ! k) i
      | _ \<Rightarrow> Inr None)"

lemma ordinal_inj:
  assumes "sound_store (sg_store s)" "ordinal s i = Some n" "ordinal s j = Some n"
  shows "i = j"
proof -
  obtain r ord a b where s: "sg_store s = V4 r ord" "ord i = Some a" "ord j = Some b" "a < 2 ^ 32" "b < 2 ^ 32"
      "(of_nat a :: u32) = n" "(of_nat b :: u32) = n"
    using assms(2,3) by (auto simp: ordinal_def split: SegmentStore.splits option.splits if_splits)
  have "unat (of_nat a :: u32) = a" "unat (of_nat b :: u32) = b" using s(4,5) by (simp_all add: unsigned_of_nat take_bit_nat_eq_self)
  then have "a = b" using s(6,7) by metis
  then show ?thesis using assms(1) s(1-3) by (auto simp: sound_store_def)
qed

lemma is_tombstoned_tombstone: "sound_store (sg_store s) \<Longrightarrow> is_tombstoned (tombstone s i) j \<longleftrightarrow> j = i \<or> is_tombstoned s j"
  using ordinal_inj [of s i _ j] by (auto simp: is_tombstoned_def tombstone_def ordinal_def split: option.splits SegmentStore.splits if_splits)

lemma try_get_live_tombstone:
  "sound_store (sg_store s) \<Longrightarrow> try_get_live (tombstone s i) j = (if j = i then Inr None else try_get_live s j)"
  by (simp add: try_get_live_def is_tombstoned_tombstone) (simp add: tombstone_def)


text \<open>\<open>c1\<close> is \<open>c\<close> with the point \<open>i\<close> taken out of its sealed segment and of the payload index.\<close>

definition released :: "'n json_ext \<Rightarrow> ('n, 'f, 'e) Storage \<Rightarrow> ustr \<Rightarrow> ('n, 'f, 'e) Storage \<Rightarrow> bool" where
  "released ext c i c1 \<longleftrightarrow>
     length (searchers c1) = length (searchers c)
   \<and> (\<forall>k < length (searchers c). sg_store (searchers c1 ! k) = sg_store (searchers c ! k)
        \<and> (\<forall>j. try_get_live (searchers c1 ! k) j = (if j = i then Inr None else try_get_live (searchers c ! k) j)))
   \<and> represents ext (payload_index c1) ((listed c)(i := None)) \<and> id_index c1 = id_index c \<and> streamer c1 = streamer c"

lemma releasedD:
  assumes "released ext c i c1"
  shows "represents ext (payload_index c1) ((listed c)(i := None))" "id_index c1 = id_index c" "streamer c1 = streamer c"
  using assms unfolding released_def by blast+

lemma not_sealed:
  assumes "storage_ok ext c" "k < length (searchers c)" "id_index c i \<noteq> Some (In_searcher k)"
  shows "try_get_live (searchers c ! k) i = Inr None"
  using assms(2,3) storage_okD(4) [OF assms(1), of i k] by (simp add: sealed_live_def)

lemma unlist_released:
  assumes ok: "storage_ok ext c" and "id_index c i = None \<or> id_index c i = Some In_streamer"
  shows "released ext c i (unlist_payload ext (st_points (streamer c) i) c)"
proof -
  have other: "\<forall>k < length (searchers c). \<forall>j. try_get_live (searchers c ! k) j = (if j = i then Inr None else try_get_live (searchers c ! k) j)"
    using not_sealed [OF ok] assms(2) by auto
  show ?thesis
  proof (cases "st_points (streamer c) i")
    case None
    then have "listed c i = None" using assms(2) by (auto simp: listed_def)
    then show ?thesis using other storage_okD(6) [OF ok] None by (simp add: released_def unlist_payload_def fun_upd_idem)
  next
    case (Some p)
    moreover from this have "id_index c i = Some In_streamer" using storage_okD(1) [OF ok] by blast
    ultimately have "listed c i = Some (pt_payload p)" "pt_id p = i" using storage_okD(2) [OF ok] by (auto simp: listed_def)
    then show ?thesis using other represents_remove [OF storage_okD(6) [OF ok]] Some by (simp add: released_def unlist_payload_def)
  qed
qed

lemma bury_released:
  assumes ok: "storage_ok ext c" and at: "id_index c i = Some (In_searcher k)" and step: "bury ext k i c = Inr c1"
  shows "released ext c i c1"
proof -
  let ?s = "searchers c ! k"
  have k: "k < length (searchers c)" and live: "try_get_live ?s i \<noteq> Inr None" using storage_okD(4) [OF ok, of i k] at by (simp_all add: sealed_live_def)
  note sound = storage_okD(5) [OF ok k]
  from step k obtain e where e: "try_get (sg_store ?s) i = Inr e"
    and c1: "c1 = (unlist_payload ext e c)\<lparr>searchers := (searchers c)[k := tombstone ?s i]\<rparr>"
    by (auto simp: bury_def res_simps split: if_splits sum.splits)
  from e live obtain p where p: "e = Some p" by (cases e) (auto simp: try_get_live_def split: if_splits)
  then have id: "pt_id p = i" using sound e by (simp add: sound_store_def)
  have rep: "represents ext (remove_payload_point ext i (pt_payload p) (payload_index c)) ((listed c)(i := None))"
  proof (cases "sg_store ?s")
    case (Heap points)
    then have "listed c i = Some (pt_payload p)" using at e p by (simp add: listed_def)
    then show ?thesis by (rule represents_remove [OF storage_okD(6) [OF ok]])
  next
    case (V4 r ord)
    then have "listed c i = None" using at by (simp add: listed_def)
    then show ?thesis using represents_absent [OF storage_okD(6) [OF ok]] by (simp add: fun_upd_idem)
  qed
  have "try_get_live (searchers c1 ! l) j = (if j = i then Inr None else try_get_live (searchers c ! l) j)" if l: "l < length (searchers c)" for l j
  proof (cases "l = k")
    case True
    then show ?thesis using k sound by (simp add: c1 try_get_live_tombstone)
  next
    case False
    then show ?thesis using not_sealed [OF ok l, of i] at by (simp add: c1)
  qed
  moreover have "sg_store (searchers c1 ! l) = sg_store (searchers c ! l)" if "l < length (searchers c)" for l
    using that by (cases "l = k") (simp_all add: c1 tombstone_def)
  ultimately show ?thesis using rep by (simp add: released_def c1 p unlist_payload_def id)
qed

text \<open>The point then lives in the streamer, or nowhere.\<close>

lemma rehomed:
  assumes ok: "storage_ok ext c" and rel: "released ext c i c1" and s: "searchers c2 = searchers c1"
    and idx: "id_index c2 = (id_index c)(i := if u = None then None else Some In_streamer)"
    and pts: "st_points (streamer c2) = (st_points (streamer c))(i := u)" and u: "\<forall>p. u = Some p \<longrightarrow> pt_id p = i"
    and rep: "represents ext (payload_index c2) ((listed c)(i := map_option pt_payload u))"
  shows "storage_ok ext c2 \<and> live_point c2 = (live_point c)(i := Inr u)"
proof
  have len: "length (searchers c2) = length (searchers c)" using rel s by (simp add: released_def)
  have tgl: "try_get_live (searchers c2 ! k) j = (if j = i then Inr None else try_get_live (searchers c ! k) j)"
    and store: "sg_store (searchers c2 ! k) = sg_store (searchers c ! k)" if "k < length (searchers c)" for k j
    using rel that by (simp_all add: released_def s)
  have at: "k < length (searchers c)" if "id_index c j = Some (In_searcher k)" for j k
    using storage_okD(4) [OF ok, of j k] that by (simp add: sealed_live_def)
  have "listed c2 = (listed c)(i := map_option pt_payload u)"
    by (rule ext) (use at store in \<open>auto simp: listed_def idx pts split: option.splits SegLoc.splits\<close>)
  then have "represents ext (payload_index c2) (listed c2)" using rep by simp
  moreover have "id_index c2 j = Some (In_searcher k) \<longleftrightarrow> sealed_live c2 k j" for j k
    using storage_okD(4) [OF ok, of j k] by (auto simp: sealed_live_def idx len tgl)
  moreover have "\<forall>s \<in> set (searchers c2). sound_store (sg_store s)"
    using storage_okD(5) [OF ok] store by (auto simp: in_set_conv_nth len)
  ultimately show "storage_ok ext c2" using storage_okD(1-3) [OF ok] u unfolding storage_ok_def by (auto simp: idx pts)
  show "live_point c2 = (live_point c)(i := Inr u)"
    by (rule ext) (use at tgl in \<open>auto simp: live_point_def idx pts split: option.splits SegLoc.splits\<close>)
qed


lemma bury_cases:
  assumes ok: "storage_ok ext c" and at: "id_index c i = Some (In_searcher k)"
  obtains e where "bury ext k i c = Inl (Read_error e)" | c1 where "bury ext k i c = Inr c1" "released ext c i c1"
proof (cases "bury ext k i c")
  case (Inl e)
  have "k < length (searchers c)" using storage_okD(4) [OF ok, of i k] at by (simp add: sealed_live_def)
  then have "\<exists>e'. e = Read_error e'" using Inl by (auto simp: bury_def bindE_def map_err_def split: sum.splits)
  then show ?thesis using Inl that by blast
qed (use bury_released [OF ok at] that in blast)

lemma absent_released: "storage_ok ext c \<Longrightarrow> id_index c i = None \<Longrightarrow> released ext c i c"
  using unlist_released [of ext c i] storage_okD(1) [of ext c i] by (simp add: unlist_payload_def)

lemma home_cases:
  assumes "storage_ok ext c"
  obtains "id_index c i = None" | p where "id_index c i = Some In_streamer" "st_points (streamer c) i = Some p" "pt_id p = i"
    | k where "id_index c i = Some (In_searcher k)"
proof (cases "id_index c i")
  case (Some loc)
  then show ?thesis using storage_okD(1-3) [OF assms, of i] that by (cases loc) auto
qed (use that in blast)

section \<open>Every replayed change is the change of one point\<close>

lemma upsert_step:
  assumes ok: "storage_ok ext c"
  shows "case apply_wal_upsert ext sealing c p of Inl e \<Rightarrow> \<exists>r. e = Read_error r
     | Inr c' \<Rightarrow> storage_ok ext c' \<and> live_point c' = (live_point c)(pt_id p := Inr (Some p))"
proof -
  let ?put = "\<lambda>c1 :: ('a, 'b, 'c) Storage. c1\<lparr>payload_index := insert_payload_point ext (pt_id p) (pt_payload p) (payload_index c1),
        id_index := (id_index c1)(pt_id p \<mapsto> In_streamer), streamer := streamer_insert (streamer c1) p\<rparr>"
  have settled: "storage_ok ext (?put c1) \<and> live_point (?put c1) = (live_point c)(pt_id p := Inr (Some p))" if rel: "released ext c (pt_id p) c1" for c1
  proof (rule rehomed [OF ok rel])
    show "represents ext (payload_index (?put c1)) ((listed c)(pt_id p := map_option pt_payload (Some p)))"
      using represents_insert [OF releasedD(1) [OF rel], of "pt_id p" "pt_payload p"] by simp
  qed (simp_all add: releasedD(2,3) [OF rel] streamer_insert_def)
  show ?thesis using ok
  proof (cases rule: home_cases [of ext c "pt_id p"])
    case 1
    then have "apply_wal_upsert ext sealing c p = Inr (?put c)" by (simp add: apply_wal_upsert_def)
    then show ?thesis using settled [OF absent_released [OF ok 1]] by simp
  next
    case (2 q)
    then have "apply_wal_upsert ext sealing c p = Inr (?put (unlist_payload ext (st_points (streamer c) (pt_id p)) c))" by (simp add: apply_wal_upsert_def)
    then show ?thesis using settled [OF unlist_released [OF ok]] 2(1) by simp
  next
    case (3 k)
    show ?thesis
    proof (cases rule: bury_cases [OF ok 3])
      case (2 c1)
      then have "apply_wal_upsert ext sealing c p = Inr (?put c1)" using 3 by (simp add: apply_wal_upsert_def)
      then show ?thesis using settled [OF 2(2)] by simp
    qed (use 3 in \<open>simp add: apply_wal_upsert_def\<close>)
  qed
qed

lemma delete_step:
  assumes ok: "storage_ok ext c"
  shows "case apply_wal_delete ext sealing c i of Inl e \<Rightarrow> \<exists>r. e = Read_error r
     | Inr c' \<Rightarrow> storage_ok ext c' \<and> live_point c' = (live_point c)(i := Inr None)"
proof -
  let ?drop = "\<lambda>c1 :: ('a, 'b, 'c) Storage. c1\<lparr>id_index := (id_index c1)(i := None)\<rparr>"
  have settled: "storage_ok ext (?drop (c1\<lparr>streamer := st\<rparr>)) \<and> live_point (?drop (c1\<lparr>streamer := st\<rparr>)) = (live_point c)(i := Inr None)"
    if rel: "released ext c i c1" and st: "st_points st = (st_points (streamer c))(i := None)" for c1 st
    by (rule rehomed [OF ok rel]) (use releasedD [OF rel] st in simp_all)
  have gone: "st_points (streamer c) = (st_points (streamer c))(i := None)" if "id_index c i \<noteq> Some In_streamer"
    using that storage_okD(1) [OF ok, of i] by (auto simp: fun_upd_idem)
  show ?thesis using ok
  proof (cases rule: home_cases [of ext c i])
    case 1
    then have "apply_wal_delete ext sealing c i = Inr (?drop c)" by (simp add: apply_wal_delete_def)
    then show ?thesis using settled [OF absent_released [OF ok 1], of "streamer c"] gone 1 by simp
  next
    case (2 q)
    let ?c1 = "unlist_payload ext (st_points (streamer c) i) c"
    have "apply_wal_delete ext sealing c i = Inr (?drop (?c1\<lparr>streamer := streamer_remove (streamer c) i\<rparr>))" using 2 by (simp add: apply_wal_delete_def)
    then show ?thesis using settled [OF unlist_released [OF ok], of "streamer_remove (streamer c) i"] 2(1) by (simp add: streamer_remove_def)
  next
    case (3 k)
    show ?thesis
    proof (cases rule: bury_cases [OF ok 3])
      case (2 c1)
      then have "apply_wal_delete ext sealing c i = Inr (?drop (c1\<lparr>streamer := streamer c1\<rparr>))" using 3 by (simp add: apply_wal_delete_def)
      then show ?thesis using settled [OF 2(2), of "streamer c1"] gone 3 releasedD(3) [OF 2(2)] by simp
    qed (use 3 in \<open>simp add: apply_wal_delete_def\<close>)
  qed
qed


definition set_point_payload :: "bool \<Rightarrow> 'n Value \<Rightarrow> ('n, 'f) Point \<Rightarrow> ('n, 'f) Point" where
  "set_point_payload merge payload p = p\<lparr>pt_payload := merged_payload merge (pt_payload p) payload\<rparr>"

lemma set_payload_settled:
  assumes ok: "storage_ok ext c" and rel: "released ext c i c1" and p: "pt_id p = i" and c': "searchers c' = searchers c1"
    "payload_index c' = insert_payload_point ext i (pt_payload (set_point_payload merge payload p)) (payload_index c1)"
    "id_index c' = (id_index c)(i \<mapsto> In_streamer)" "st_points (streamer c') = (st_points (streamer c))(i \<mapsto> set_point_payload merge payload p)"
  shows "storage_ok ext c' \<and> live_point c' = (live_point c)(i := Inr (Some (set_point_payload merge payload p)))"
proof (rule rehomed [OF ok rel c'(1)])
  show "represents ext (payload_index c') ((listed c)(i := map_option pt_payload (Some (set_point_payload merge payload p))))"
    using represents_insert [OF releasedD(1) [OF rel], of i "pt_payload (set_point_payload merge payload p)"] c'(2) by simp
qed (use c' p in \<open>simp_all add: set_point_payload_def\<close>)

lemmas set_payload_eval = apply_wal_set_payload_def take_sealed_def map_err_def unlist_payload_def streamer_insert_def
  refresh_point_bytes_def set_point_payload_def Let_def

lemma set_payload_sealed:
  assumes ok: "storage_ok ext c" and at: "id_index c i = Some (In_searcher k)"
  shows "case apply_wal_set_payload ext c i payload merge of Inl e \<Rightarrow> \<exists>r. e = Read_error r
     | Inr c' \<Rightarrow> storage_ok ext c'
         \<and> live_point c' = (live_point c)(i := map_sum id (map_option (set_point_payload merge payload)) (live_point c i))"
proof -
  have k: "k < length (searchers c)" and live: "try_get_live (searchers c ! k) i \<noteq> Inr None"
    using storage_okD(4) [OF ok, of i k] at by (simp_all add: sealed_live_def)
  then have tg: "try_get_live (searchers c ! k) i = try_get (sg_store (searchers c ! k)) i" by (auto simp: try_get_live_def)
  show ?thesis
  proof (cases "try_get (sg_store (searchers c ! k)) i")
    case (Inl e)
    then show ?thesis using at k by (simp add: apply_wal_set_payload_def take_sealed_def map_err_def)
  next
    case (Inr t)
    then obtain p where t: "t = Some p" using live tg by (cases t) auto
    have id: "pt_id p = i" using storage_okD(5) [OF ok k] Inr t by (simp add: sound_store_def)
    obtain c1 where c1: "bury ext k i c = Inr c1" using k Inr by (simp add: bury_def map_err_def)
    obtain c' where c': "apply_wal_set_payload ext c i payload merge = Inr c'" using at k Inr t id
      by (simp add: apply_wal_set_payload_def take_sealed_def map_err_def)
    have "storage_ok ext c' \<and> live_point c' = (live_point c)(i := Inr (Some (set_point_payload merge payload p)))"
      by (rule set_payload_settled [OF ok bury_released [OF ok at c1] id])
        (use c' c1 at k Inr t id in \<open>auto simp: set_payload_eval bury_def\<close>)
    then show ?thesis using c' at Inr t tg by (simp add: live_point_def)
  qed
qed

lemma set_payload_step:
  assumes ok: "storage_ok ext c"
  shows "case apply_wal_set_payload ext c i payload merge of Inl e \<Rightarrow> \<exists>r. e = Read_error r
     | Inr c' \<Rightarrow> storage_ok ext c'
         \<and> live_point c' = (live_point c)(i := map_sum id (map_option (set_point_payload merge payload)) (live_point c i))"
  using ok
proof (cases rule: home_cases [of ext c i])
  case 1
  then have "st_points (streamer c) i = None" using storage_okD(1) [OF ok, of i] by simp
  then show ?thesis using 1 ok by (simp add: apply_wal_set_payload_def take_sealed_def live_point_def fun_upd_idem)
next
  case (2 p)
  obtain c' where c': "apply_wal_set_payload ext c i payload merge = Inr c'" by (simp add: apply_wal_set_payload_def take_sealed_def 2)
  have "storage_ok ext c' \<and> live_point c' = (live_point c)(i := Inr (Some (set_point_payload merge payload p)))"
    by (rule set_payload_settled [OF ok unlist_released [OF ok]]) (use c' 2 in \<open>auto simp: set_payload_eval\<close>)
  then show ?thesis using c' 2 by (simp add: live_point_def)
next
  case (3 k)
  then show ?thesis by (rule set_payload_sealed [OF ok])
qed

end
