(* ===== verification/Graph_Batch.thy ===== *)
theory Graph_Batch
  imports Deferred_Sessions Point_Storage
begin

text \<open>
  The lifecycle of the graph of a collection, after \<open>chirondb-core/src/graph_lifecycle.rs\<close>, and the graph
  batch of \<open>wal.rs\<close>: the record that changes points, node handles, edges, edge types and deferred
  sessions at once, with the validation every batch passes before it is logged or replayed. The length of
  the JSON text of a value or of a batch is a parameter.
\<close>

section \<open>Lifecycle\<close>

record GraphLifecycleState =
  lc_epoch :: "graph_epoch option"
  lc_enabled :: bool

definition lifecycle_default :: GraphLifecycleState where
  "lifecycle_default = \<lparr>lc_epoch = None, lc_enabled = False\<rparr>"

datatype batch_msg =
    Checkpoint_epoch_zero | Checkpoint_disagrees | Epoch_space_exhausted | Epoch_unexpected | Enable_enabled | Drop_disabled
  | Unsupported_version | Batch_epoch_zero | Batch_empty | Key_length | Catalog_key_length | Batch_type_reserved
  | Type_configured_twice | Name_configured_twice | Edge_count_overflow | Too_many_edges | Batch_nid_invalid
  | Point_mutated_twice ustr | Point_assigned_twice ustr | Nid_assigned_twice | Batch_properties_too_large
  | Batch_edge_invalid | Batch_edge_twice | Endpoint_bound_twice | Session_twice | Hash_zero | Bad_instants
  | No_results | Too_many_results | Duplicate_result | Results_differ | Batch_too_large

definition lifecycle_error :: "batch_msg \<Rightarrow> batch_msg GaussError" where
  "lifecycle_error m = Graph (graph_error_new EpochMismatch m)"

definition lifecycle_from_checkpoint :: "graph_epoch \<Rightarrow> bool \<Rightarrow> (batch_msg, GraphLifecycleState) result" where
  "lifecycle_from_checkpoint epoch enabled =
     (if graph_epoch_from_raw epoch = None then Inl (lifecycle_error Checkpoint_epoch_zero)
      else if enabled \<noteq> (epoch mod 2 = 1) then Inl (lifecycle_error Checkpoint_disagrees)
      else Inr \<lparr>lc_epoch = Some epoch, lc_enabled = enabled\<rparr>)"

definition next_epoch :: "GraphLifecycleState \<Rightarrow> (batch_msg, graph_epoch) result" where
  "next_epoch s =
     (case lc_epoch s of Some epoch \<Rightarrow> ok_or (lifecycle_error Epoch_space_exhausted) (graph_epoch_next epoch)
      | None \<Rightarrow> Inr graph_epoch_INITIAL)"

definition apply_advance :: "GraphLifecycleState \<Rightarrow> graph_epoch \<Rightarrow> bool \<Rightarrow> (batch_msg, GraphLifecycleState) result" where
  "apply_advance s epoch enabled =
     bindE (next_epoch s) (\<lambda>expected.
     if epoch \<noteq> expected then Inl (lifecycle_error Epoch_unexpected)
     else if lc_enabled s = enabled then Inl (lifecycle_error (if enabled then Enable_enabled else Drop_disabled))
     else Inr \<lparr>lc_epoch = Some epoch, lc_enabled = enabled\<rparr>)"

section \<open>The batch\<close>

datatype ('n, 'f) GraphPointMutation = Upsert_point "('n, 'f) Point" | Delete_point ustr nid

record GraphHandleAssignment =
  ha_point_id :: ustr
  ha_nid :: nid

record ('n, 'f) GraphBatch =
  gb_version :: nat
  gb_graph_epoch :: graph_epoch
  gb_type_configurations :: "GraphTypeConfiguration list"
  gb_point_mutations :: "('n, 'f) GraphPointMutation list"
  gb_handle_assignments :: "GraphHandleAssignment list"
  gb_edge_mutations :: "'n EdgeMutation list"
  gb_deferred_binds :: "'n GraphDeferredBind list"
  gb_edge_binds :: "GraphEdgeBind list"
  gb_deferred_sessions :: "GraphDeferredSessionMutation list"
  gb_idempotency :: "GraphIdempotencyState option"

definition GRAPH_BATCH_VERSION :: nat where "GRAPH_BATCH_VERSION = 1"
definition MAX_GRAPH_BATCH_BYTES :: nat where "MAX_GRAPH_BATCH_BYTES = 16 * 1024 * 1024"

definition batch_default :: "('n, 'f) GraphBatch" where
  "batch_default = \<lparr>gb_version = GRAPH_BATCH_VERSION, gb_graph_epoch = graph_epoch_INITIAL, gb_type_configurations = [],
     gb_point_mutations = [], gb_handle_assignments = [], gb_edge_mutations = [], gb_deferred_binds = [], gb_edge_binds = [],
     gb_deferred_sessions = [], gb_idempotency = None\<rparr>"

definition point_mutation_id :: "('n, 'f) GraphPointMutation \<Rightarrow> ustr" where
  "point_mutation_id m = (case m of Upsert_point p \<Rightarrow> pt_id p | Delete_point i _ \<Rightarrow> i)"

section \<open>Validation\<close>

definition invalid_graph_batch :: "batch_msg \<Rightarrow> batch_msg GaussError" where
  "invalid_graph_batch m = InvalidRequest m"

text \<open>\<open>require c m\<close> is the source's early return of an error unless \<open>c\<close>.\<close>

abbreviation require :: "bool \<Rightarrow> batch_msg \<Rightarrow> (batch_msg, unit) result" where
  "require c m \<equiv> (if c then Inr () else Inl (invalid_graph_batch m))"

definition validate_graph_key :: "ustr \<Rightarrow> (batch_msg, unit) result" where
  "validate_graph_key v = require (v \<noteq> [] \<and> utf8_len v \<le> 1024) Key_length"

definition validate_catalog_key :: "ustr \<Rightarrow> (batch_msg, unit) result" where
  "validate_catalog_key v = require (v \<noteq> [] \<and> utf8_len v \<le> MAX_GRAPH_CATALOG_NAME_BYTES) Catalog_key_length"

definition validate_batch_nid :: "nid \<Rightarrow> (batch_msg, unit) result" where
  "validate_batch_nid n = require (nid_from_parts (nid_epoch n) (nid_counter n) = Some n) Batch_nid_invalid"

definition validate_batch_edge_id :: "edge_id \<Rightarrow> (batch_msg, unit) result" where
  "validate_batch_edge_id i = require (edge_from_parts (edge_epoch i) (edge_counter i) = Some i) Batch_edge_invalid"

definition validate_batch_type_id :: "type_id \<Rightarrow> (batch_msg, unit) result" where
  "validate_batch_type_id i = require (i \<noteq> 0) Batch_type_reserved"

definition validate_namespace :: "GraphNamespace \<Rightarrow> (batch_msg, unit) result" where
  "validate_namespace ns = (case ns of Tenant t \<Rightarrow> validate_graph_key t | AdminCrossTenant \<Rightarrow> Inr ())"

definition validate_properties :: "('n Value \<Rightarrow> nat) \<Rightarrow> 'n Value \<Rightarrow> (batch_msg, unit) result" where
  "validate_properties json_len v = require (json_len v \<le> MAX_EDGE_PROPERTY_BYTES) Batch_properties_too_large"

text \<open>\<open>HashSet::insert\<close> with an error when the element is already there.\<close>

definition insert_new :: "batch_msg \<Rightarrow> 'k \<Rightarrow> 'k set \<Rightarrow> (batch_msg, 'k set) result" where
  "insert_new m k s = (if k \<in> s then Inl (invalid_graph_batch m) else Inr (insert k s))"

definition validate_configurations :: "GraphTypeConfiguration list \<Rightarrow> (batch_msg, type_id set \<times> ustr set) result" where
  "validate_configurations cs =
     foldE (\<lambda>seen c.
       bindE (validate_batch_type_id (tc_type_id c)) (\<lambda>_.
       bindE (validate_catalog_key (tc_name c)) (\<lambda>_.
       bindE (case tc_weight_property c of None \<Rightarrow> Inr () | Some w \<Rightarrow> validate_catalog_key w) (\<lambda>_.
       bindE (insert_new Type_configured_twice (tc_type_id c) (fst seen)) (\<lambda>ids.
       bindE (insert_new Name_configured_twice (tc_name c) (snd seen)) (\<lambda>names. Inr (ids, names))))))) ({}, {}) cs"

definition validate_point_mutations :: "('n, 'f) GraphPointMutation list \<Rightarrow> (batch_msg, ustr set) result" where
  "validate_point_mutations ms =
     foldE (\<lambda>seen m.
       bindE (case m of Upsert_point _ \<Rightarrow> Inr () | Delete_point _ n \<Rightarrow> validate_batch_nid n) (\<lambda>_.
       bindE (validate_graph_key (point_mutation_id m)) (\<lambda>_.
       insert_new (Point_mutated_twice (point_mutation_id m)) (point_mutation_id m) seen))) {} ms"

definition validate_assignments :: "GraphHandleAssignment list \<Rightarrow> (batch_msg, ustr set \<times> nid set) result" where
  "validate_assignments hs =
     foldE (\<lambda>seen h.
       bindE (validate_graph_key (ha_point_id h)) (\<lambda>_.
       bindE (validate_batch_nid (ha_nid h)) (\<lambda>_.
       bindE (insert_new (Point_assigned_twice (ha_point_id h)) (ha_point_id h) (fst seen)) (\<lambda>points.
       bindE (insert_new Nid_assigned_twice (ha_nid h) (snd seen)) (\<lambda>nids. Inr (points, nids)))))) ({}, {}) hs"

text \<open>The two sets are the edges the batch mutates and the ones it creates.\<close>

definition validate_edge_mutation ::
  "('n Value \<Rightarrow> nat) \<Rightarrow> edge_id set \<times> edge_id set \<Rightarrow> 'n EdgeMutation \<Rightarrow> (batch_msg, edge_id set \<times> edge_id set) result" where
  "validate_edge_mutation json_len seen m =
     bindE (case m of
              Relate r \<Rightarrow>
                bindE (validate_batch_nid (rm_source r)) (\<lambda>_. bindE (validate_batch_nid (rm_target r)) (\<lambda>_.
                bindE (validate_batch_type_id (rm_type_id r)) (\<lambda>_. bindE (validate_namespace (rm_namespace r)) (\<lambda>_.
                bindE (validate_properties json_len (rm_properties r)) (\<lambda>_. Inr (insert (rm_edge_id r) (snd seen)))))))
            | Unrelate _ \<Rightarrow> Inr (snd seen)
            | Properties p \<Rightarrow> bindE (validate_properties json_len (pm_properties p)) (\<lambda>_. Inr (snd seen))) (\<lambda>created.
     bindE (validate_batch_edge_id (mutation_edge_id m)) (\<lambda>_.
     bindE (insert_new Batch_edge_twice (mutation_edge_id m) (fst seen)) (\<lambda>ids. Inr (ids, created))))"

definition validate_deferred_bind ::
  "('n Value \<Rightarrow> nat) \<Rightarrow> edge_id set \<times> edge_id set \<Rightarrow> 'n GraphDeferredBind \<Rightarrow> (batch_msg, edge_id set \<times> edge_id set) result" where
  "validate_deferred_bind json_len seen b =
     bindE (validate_graph_key (dc_session_id b)) (\<lambda>_. bindE (validate_batch_edge_id (dc_edge_id b)) (\<lambda>_.
     bindE (validate_graph_key (dc_source_point_id b)) (\<lambda>_. bindE (validate_graph_key (dc_target_point_id b)) (\<lambda>_.
     bindE (case dc_source_nid b of None \<Rightarrow> Inr () | Some n \<Rightarrow> validate_batch_nid n) (\<lambda>_.
     bindE (case dc_target_nid b of None \<Rightarrow> Inr () | Some n \<Rightarrow> validate_batch_nid n) (\<lambda>_.
     bindE (validate_batch_type_id (dc_type_id b)) (\<lambda>_. bindE (validate_namespace (dc_namespace b)) (\<lambda>_.
     bindE (validate_properties json_len (dc_properties b)) (\<lambda>_.
     bindE (insert_new Batch_edge_twice (dc_edge_id b) (fst seen)) (\<lambda>ids. Inr (ids, insert (dc_edge_id b) (snd seen))))))))))))"

definition validate_edge_bind ::
  "(edge_id \<times> GraphDeferredEndpoint) set \<Rightarrow> GraphEdgeBind \<Rightarrow> (batch_msg, (edge_id \<times> GraphDeferredEndpoint) set) result" where
  "validate_edge_bind seen b =
     bindE (validate_graph_key (eb_session_id b)) (\<lambda>_. bindE (validate_batch_edge_id (eb_edge_id b)) (\<lambda>_.
     bindE (validate_graph_key (eb_point_id b)) (\<lambda>_. bindE (validate_batch_nid (eb_nid b)) (\<lambda>_.
     insert_new Endpoint_bound_twice (eb_edge_id b, eb_endpoint b) seen))))"

definition validate_owner :: "GraphSessionOwner \<Rightarrow> (batch_msg, unit) result" where
  "validate_owner owner =
     bindE (validate_graph_key (so_principal owner)) (\<lambda>_.
     case so_tenant owner of None \<Rightarrow> Inr () | Some tenant \<Rightarrow> validate_graph_key tenant)"

definition validate_session :: "ustr set \<Rightarrow> GraphDeferredSessionMutation \<Rightarrow> (batch_msg, ustr set) result" where
  "validate_session seen m =
     bindE (validate_graph_key (session_id m)) (\<lambda>_.
     bindE (case m of Open_mutation _ (Some owner) \<Rightarrow> validate_owner owner | _ \<Rightarrow> Inr ()) (\<lambda>_.
     insert_new Session_twice (session_id m) seen))"

definition validate_checkpoint :: "GraphIdempotencyState \<Rightarrow> (batch_msg, edge_id set) result" where
  "validate_checkpoint s =
     bindE (validate_graph_key (id_key s)) (\<lambda>_.
     bindE (require (\<exists>b \<in> set (id_request_sha256 s). b \<noteq> 0) Hash_zero) (\<lambda>_.
     bindE (require (id_created_at_unix_ms s \<noteq> 0 \<and> id_created_at_unix_ms s < id_expires_at_unix_ms s) Bad_instants) (\<lambda>_.
     bindE (require (id_edge_ids s \<noteq> []) No_results) (\<lambda>_.
     bindE (require (length (id_edge_ids s) \<le> MAX_GRAPH_EDGES_PER_BATCH) Too_many_results) (\<lambda>_.
     foldE (\<lambda>ids i. bindE (validate_batch_edge_id i) (\<lambda>_. insert_new Duplicate_result i ids)) {} (id_edge_ids s))))))"

definition edge_count :: "('n, 'f) GraphBatch \<Rightarrow> nat option" where
  "edge_count b =
     Option.bind (checked_add (length (gb_edge_mutations b)) (length (gb_deferred_binds b))) (\<lambda>n. checked_add n (length (gb_edge_binds b)))"

definition batch_validate :: "('n Value \<Rightarrow> nat) \<Rightarrow> (('n, 'f) GraphBatch \<Rightarrow> nat) \<Rightarrow> ('n, 'f) GraphBatch \<Rightarrow> (batch_msg, unit) result" where
  "batch_validate json_len batch_len b =
     bindE (require (gb_version b = GRAPH_BATCH_VERSION) Unsupported_version) (\<lambda>_.
     bindE (require (gb_graph_epoch b \<noteq> 0) Batch_epoch_zero) (\<lambda>_.
     bindE (require (gb_point_mutations b \<noteq> [] \<or> gb_type_configurations b \<noteq> [] \<or> gb_handle_assignments b \<noteq> []
              \<or> gb_edge_mutations b \<noteq> [] \<or> gb_deferred_binds b \<noteq> [] \<or> gb_edge_binds b \<noteq> [] \<or> gb_deferred_sessions b \<noteq> []
              \<or> gb_idempotency b \<noteq> None) Batch_empty) (\<lambda>_.
     bindE (validate_configurations (gb_type_configurations b)) (\<lambda>_.
     bindE (ok_or (invalid_graph_batch Edge_count_overflow) (edge_count b)) (\<lambda>n.
     bindE (require (n \<le> MAX_GRAPH_EDGES_PER_BATCH) Too_many_edges) (\<lambda>_.
     bindE (validate_point_mutations (gb_point_mutations b)) (\<lambda>_.
     bindE (validate_assignments (gb_handle_assignments b)) (\<lambda>_.
     bindE (foldE (validate_edge_mutation json_len) ({}, {}) (gb_edge_mutations b)) (\<lambda>seen.
     bindE (foldE (validate_deferred_bind json_len) seen (gb_deferred_binds b)) (\<lambda>seen.
     bindE (foldE validate_edge_bind {} (gb_edge_binds b)) (\<lambda>_.
     bindE (foldE validate_session {} (gb_deferred_sessions b)) (\<lambda>_.
     bindE (case gb_idempotency b of None \<Rightarrow> Inr ()
            | Some s \<Rightarrow> bindE (validate_checkpoint s) (\<lambda>results. require (results = snd seen) Results_differ)) (\<lambda>_.
     require (batch_len b \<le> MAX_GRAPH_BATCH_BYTES) Batch_too_large)))))))))))))"

section \<open>What a valid batch guarantees\<close>

lemma insert_new_Inr [res_simps]: "insert_new m k s = Inr s' \<longleftrightarrow> k \<notin> s \<and> s' = insert k s"
  by (auto simp: insert_new_def)

lemma validate_edge_mutation_step:
  "validate_edge_mutation json_len seen m = Inr seen' \<Longrightarrow> fst seen' = insert (mutation_edge_id m) (fst seen)"
  by (auto simp: validate_edge_mutation_def res_simps)

lemma validate_deferred_bind_step:
  "validate_deferred_bind json_len seen b = Inr seen' \<Longrightarrow> dc_edge_id b \<notin> fst seen \<and> fst seen' = insert (dc_edge_id b) (fst seen)"
  by (auto simp: validate_deferred_bind_def res_simps)

lemma validate_session_step:
  "validate_session seen m = Inr seen' \<Longrightarrow> session_id m \<notin> seen \<and> seen' = insert (session_id m) seen"
  by (auto simp: validate_session_def res_simps)

lemma edge_mutations_fold:
  "foldE (validate_edge_mutation json_len) seen ms = Inr seen' \<Longrightarrow> fst seen' = fst seen \<union> mutation_edge_id ` set ms"
  by (induction ms arbitrary: seen) (auto simp: res_simps dest!: validate_edge_mutation_step)

lemma deferred_binds_fold:
  "foldE (validate_deferred_bind json_len) seen bs = Inr seen' \<Longrightarrow> dc_edge_id ` set bs \<inter> fst seen = {}"
  by (induction bs arbitrary: seen) (fastforce simp: res_simps dest!: validate_deferred_bind_step)+

lemma sessions_fold:
  "foldE validate_session seen ms = Inr seen' \<Longrightarrow> distinct (map session_id ms) \<and> session_id ` set ms \<inter> seen = {}"
  by (induction ms arbitrary: seen) (fastforce simp: res_simps dest!: validate_session_step)+

lemma sessions_keys:
  "foldE validate_session seen ms = Inr seen' \<Longrightarrow> m \<in> set ms \<Longrightarrow> validate_graph_key (session_id m) = Inr ()"
  by (induction ms arbitrary: seen) (auto simp: res_simps validate_session_def [of _ m])

lemma batch_validate_disjoint:
  assumes "batch_validate json_len batch_len b = Inr ()"
  shows "mutation_edge_id ` set (gb_edge_mutations b) \<inter> dc_edge_id ` set (gb_deferred_binds b) = {}"
    "distinct (map session_id (gb_deferred_sessions b))"
    "\<forall>m \<in> set (gb_deferred_sessions b). validate_graph_key (session_id m) = Inr ()"
proof -
  obtain s1 s2 s3 where s: "foldE (validate_edge_mutation json_len) ({}, {}) (gb_edge_mutations b) = Inr s1"
      "foldE (validate_deferred_bind json_len) s1 (gb_deferred_binds b) = Inr s2" "foldE validate_session {} (gb_deferred_sessions b) = Inr s3"
    using assms unfolding batch_validate_def bindE_eq_Inr by (elim exE conjE) (rule that)
  show "mutation_edge_id ` set (gb_edge_mutations b) \<inter> dc_edge_id ` set (gb_deferred_binds b) = {}"
    using edge_mutations_fold [OF s(1)] deferred_binds_fold [OF s(2)] by auto
  show "distinct (map session_id (gb_deferred_sessions b))" using sessions_fold [OF s(3)] by simp
  show "\<forall>m \<in> set (gb_deferred_sessions b). validate_graph_key (session_id m) = Inr ()" using sessions_keys [OF s(3)] by blast
qed

end
