(* ===== verification/Wal_Replay.thy ===== *)
theory Wal_Replay
  imports Graph_Batch
begin

text \<open>
  Replay of the log of a collection, after \<open>chirondb-core/src/db.rs\<close>: a graph batch is prepared against the
  current state without changing it and then applied to points, node handles and graph together; the
  other records change one point or the lifecycle of the graph. Records that change the schema or belong to
  protected collections are left out.
\<close>

section \<open>Parameters and errors\<close>

text \<open>
  What third-party code provides: the JSON library, the lengths of JSON texts, the test for finite
  numbers, and the order in which a hash set is iterated.
\<close>

record ('n, 'f) replay_env =
  env_json :: "'n json_ext"
  env_json_len :: "'n Value \<Rightarrow> nat"
  env_batch_len :: "('n, 'f) GraphBatch \<Rightarrow> nat"
  env_is_finite :: "'f \<Rightarrow> bool"
  env_order :: "GraphNamespace set \<Rightarrow> GraphNamespace list"

datatype 'e replay_msg =
    In_batch batch_msg | In_graph "'e graph_msg" | In_resolver resolver_msg | In_payload payload_msg
  | Vector_not_finite | Named_vector_not_finite ustr | Vector_name | Sparse_lengths | Sparse_not_finite | Sparse_duplicate
  | Point_id_length | Payload_too_large | Lifecycle_disabled | Lifecycle_without_epoch | Batch_epoch_differs
  | No_mutable_graph | Mutable_epoch_differs | Assigned_point_missing ustr | Upsert_without_nid ustr
  | Delete_other_nid ustr | Delete_missing_point ustr | No_frozen_point | Missing_searcher | Tenant_move nid
  | Replay_sealing | Corrupt_batch "'e replay_msg GaussError" | Corrupt_read 'e | Corrupt_advance "batch_msg GaussError"
  | Catalog_entry_in_log

datatype replay_panic = Graph_panic graph_panic | Searcher_index | No_validated_graph

datatype 'e replay_error = Rejected "'e replay_msg GaussError" | Unreadable 'e | Crashed replay_panic

definition rejected :: "('m \<Rightarrow> 'e replay_msg) \<Rightarrow> 'm GaussError \<Rightarrow> 'e replay_error" where
  "rejected f e = Rejected (map_GaussError f e)"

definition refuse :: "'e replay_msg \<Rightarrow> 'e replay_error" where
  "refuse m = Rejected (InvalidRequest m)"

fun storage_failed :: "'e storage_error \<Rightarrow> 'e replay_error" where
  "storage_failed (Read_error e) = Unreadable e"
| "storage_failed Transient_sealing = refuse Replay_sealing"
| "storage_failed Index_panic = Crashed Searcher_index"

fun mutation_failed :: "'e graph_msg GaussError fallible \<Rightarrow> 'e replay_error" where
  "mutation_failed (Returned e) = rejected In_graph e"
| "mutation_failed (fallible.Panicked p) = Crashed (Graph_panic p)"

section \<open>Points\<close>

record CollectionConfig =
  cf_vector_dim :: nat
  cf_named_vector_dims :: "ustr \<rightharpoonup> nat"
  cf_payload_schema :: "(ustr \<times> PayloadType) list"

definition MAX_POINT_PAYLOAD_BYTES :: nat where "MAX_POINT_PAYLOAD_BYTES = 1024 * 1024"
definition MAX_POINT_ID_BYTES :: nat where "MAX_POINT_ID_BYTES = 1024"

definition is_name_char :: "nat \<Rightarrow> bool" where
  "is_name_char ch \<longleftrightarrow> 48 \<le> ch \<and> ch \<le> 57 \<or> 65 \<le> ch \<and> ch \<le> 90 \<or> 97 \<le> ch \<and> ch \<le> 122 \<or> ch = 95 \<or> ch = 45"

definition validate_vector_name :: "ustr \<Rightarrow> ('e replay_msg, unit) result" where
  "validate_vector_name name =
     (if name = [] \<or> utf8_len name > 128 \<or> \<not> list_all is_name_char name then Inl (InvalidRequest Vector_name) else Inr ())"

definition validate_sparse_vector :: "('f \<Rightarrow> bool) \<Rightarrow> 'f SparseVector \<Rightarrow> ('e replay_msg, unit) result" where
  "validate_sparse_vector is_finite v =
     (if length (sv_indices v) \<noteq> length (sv_values v) then Inl (InvalidRequest Sparse_lengths)
      else if \<not> list_all is_finite (sv_values v) then Inl (InvalidRequest Sparse_not_finite)
      else if \<not> distinct (sv_indices v) then Inl (InvalidRequest Sparse_duplicate) else Inr ())"

definition validate_named_vector ::
  "('f \<Rightarrow> bool) \<Rightarrow> CollectionConfig \<Rightarrow> ustr \<times> 'f list \<Rightarrow> ('e replay_msg, unit) result" where
  "validate_named_vector is_finite config named =
     bindE (validate_vector_name (fst named)) (\<lambda>_.
     let expected = (case cf_named_vector_dims config (fst named) of None \<Rightarrow> cf_vector_dim config | Some d \<Rightarrow> d) in
     if length (snd named) \<noteq> expected then Inl (DimensionMismatch expected (length (snd named)))
     else if \<not> list_all is_finite (snd named) then Inl (InvalidRequest (Named_vector_not_finite (fst named))) else Inr ())"

definition validate_point ::
  "('n, 'f) replay_env \<Rightarrow> CollectionConfig \<Rightarrow> ('n, 'f) Point \<Rightarrow> ('e replay_msg, unit) result" where
  "validate_point env config p =
     (if length (pt_vector p) \<noteq> cf_vector_dim config then Inl (DimensionMismatch (cf_vector_dim config) (length (pt_vector p)))
      else if \<not> list_all (env_is_finite env) (pt_vector p) then Inl (InvalidRequest Vector_not_finite)
      else
      bindE (foldE (\<lambda>_ named. validate_named_vector (env_is_finite env) config named) () (pt_vectors p)) (\<lambda>_.
      if pt_id p = [] \<or> utf8_len (pt_id p) > MAX_POINT_ID_BYTES then Inl (InvalidRequest Point_id_length)
      else
      bindE (case pt_sparse_vector p of None \<Rightarrow> Inr () | Some v \<Rightarrow> validate_sparse_vector (env_is_finite env) v) (\<lambda>_.
      bindE (map_err (map_GaussError In_payload) (validate_payload_schema (cf_payload_schema config) (pt_payload p))) (\<lambda>_.
      if env_json_len env (pt_payload p) > MAX_POINT_PAYLOAD_BYTES then Inl (ResourceExhausted Payload_too_large) else Inr ()))))"

section \<open>The state of a collection\<close>

record ('n, 'f, 'e) Collection =
  co_config :: CollectionConfig
  co_storage :: "('n, 'f, 'e) Storage"
  co_lifecycle :: GraphLifecycleState
  co_resolver :: "PointIncarnationResolver option"
  co_mutable :: "('n, 'e) MutableGraphState option"

text \<open>The tenant of a node: of the point the batch upserts, or of the stored point; an unreadable point has none.\<close>

definition store_get :: "('n, 'f, 'e) SegmentStore \<Rightarrow> ustr \<Rightarrow> ('n, 'f) Point option" where
  "store_get s i = (case try_get s i of Inl _ \<Rightarrow> None | Inr p \<Rightarrow> p)"

definition replay_point_tenant ::
  "PointIncarnationResolver \<Rightarrow> (nid \<rightharpoonup> ustr option) \<Rightarrow> ('n, 'f, 'e) Storage \<Rightarrow> ('n, 'f) Streamer option \<Rightarrow> nid \<Rightarrow> ustr option" where
  "replay_point_tenant resolver staged_tenants st sealing n =
     (case staged_tenants n of Some tenant \<Rightarrow> tenant
      | None \<Rightarrow>
          Option.bind (live_point_id resolver n) (\<lambda>i.
          Option.bind (id_index st i) (\<lambda>loc.
          Option.bind
            (case loc of
               In_streamer \<Rightarrow> st_points (streamer st) i
             | In_searcher k \<Rightarrow> if k < length (searchers st) then store_get (sg_store (searchers st ! k)) i else None
             | In_sealing \<Rightarrow> Option.bind sealing (\<lambda>frozen. st_points frozen i)) (\<lambda>p.
          payload_tenant (pt_payload p)))))"

definition validate_idempotency ::
  "('n, 'e) MutableGraphState \<Rightarrow> GraphIdempotencyState option \<Rightarrow> ('e, unit) gresult" where
  "validate_idempotency g entry =
     (case entry of None \<Rightarrow> Inr ()
      | Some e \<Rightarrow>
          (case idempotency g (id_key e) of None \<Rightarrow> Inr ()
           | Some existing \<Rightarrow> if existing \<noteq> e then Inl (InvalidRequest Idempotency_bound) else Inr ()))"

definition apply_validated_idempotency ::
  "('n, 'e) MutableGraphState \<Rightarrow> GraphIdempotencyState option \<Rightarrow> ('n, 'e) MutableGraphState" where
  "apply_validated_idempotency g entry =
     (case entry of None \<Rightarrow> g
      | Some e \<Rightarrow> if idempotency g (id_key e) = None then g\<lparr>idempotency := (idempotency g)(id_key e \<mapsto> e)\<rparr> else g)"

definition track_mutation :: "('n, 'e) MutableGraphState \<Rightarrow> nat \<Rightarrow> 'n EdgeMutation \<Rightarrow> PersistChanges \<Rightarrow> PersistChanges" where
  "track_mutation g lsn m pc =
     (case m of
        Relate r \<Rightarrow>
          pc\<lparr>pc_ledger := (if map_of (pending_edges g) (rm_edge_id r) = None then btree_insert (rm_edge_id r) lsn (pc_ledger pc) else pc_ledger pc),
             pc_topology := btree_insert (rm_edge_id r) lsn (pc_topology pc),
             pc_properties := btree_insert (rm_edge_id r) lsn (pc_properties pc)\<rparr>
      | Properties p \<Rightarrow> pc\<lparr>pc_properties := btree_insert (pm_edge_id p) lsn (pc_properties pc)\<rparr>
      | Unrelate _ \<Rightarrow> pc)"

definition track_persist_changes ::
  "('n, 'e) MutableGraphState \<Rightarrow> nat \<Rightarrow> 'n EdgeMutation list \<Rightarrow> 'n DeferredMutationPlan \<Rightarrow> ('n, 'e) MutableGraphState" where
  "track_persist_changes g lsn ms plan =
     g\<lparr>persist_changes :=
       (let pc = fold (track_mutation g lsn) ms (persist_changes g) in
        pc\<lparr>pc_ledger := fold (\<lambda>i. btree_insert i lsn) (sorted_list_of_set (created_edge_ids plan)) (pc_ledger pc)\<rparr>)\<rparr>"

section \<open>Preparing a batch\<close>

record 'n PreparedGraphBatch =
  pr_record_lsn :: nat
  pr_staged_resolver :: PointIncarnationResolver
  pr_staged_types :: GraphTypeCatalog
  pr_deferred_plan :: "'n DeferredMutationPlan"
  pr_edge_mutations :: "'n EdgeMutation list"

definition upsert_ids :: "('n, 'f) GraphBatch \<Rightarrow> ustr set" where
  "upsert_ids b = set (List.map_filter (\<lambda>m. case m of Upsert_point p \<Rightarrow> Some (pt_id p) | Delete_point _ _ \<Rightarrow> None) (gb_point_mutations b))"

definition stage_assignment ::
  "('n, 'f, 'e) Storage \<Rightarrow> ustr set \<Rightarrow> PointIncarnationResolver \<Rightarrow> GraphHandleAssignment \<Rightarrow> 'e replay_error + PointIncarnationResolver" where
  "stage_assignment st upserted resolver h =
     (if id_index st (ha_point_id h) = None \<and> ha_point_id h \<notin> upserted
      then Inl (refuse (Assigned_point_missing (ha_point_id h)))
      else map_err (rejected In_resolver) (bind_live resolver (ha_point_id h) (ha_nid h)))"

definition check_point_mutation ::
  "('n, 'f) replay_env \<Rightarrow> CollectionConfig \<Rightarrow> ('n, 'f, 'e) Storage \<Rightarrow> ('n, 'f) Streamer option \<Rightarrow> PointIncarnationResolver
     \<Rightarrow> ('n, 'f) GraphPointMutation \<Rightarrow> 'e replay_error + unit" where
  "check_point_mutation env config st sealing staged m =
     bindE (case m of
              Upsert_point p \<Rightarrow>
                bindE (map_err Rejected (validate_point env config p)) (\<lambda>_.
                if live_nid staged (pt_id p) = None then Inl (refuse (Upsert_without_nid (pt_id p))) else Inr ())
            | Delete_point i n \<Rightarrow>
                if live_nid staged i \<noteq> Some n then Inl (refuse (Delete_other_nid i))
                else if id_index st i = None then Inl (refuse (Delete_missing_point i)) else Inr ()) (\<lambda>_.
     case id_index st (point_mutation_id m) of
       Some In_sealing \<Rightarrow>
         if Option.bind sealing (\<lambda>frozen. st_points frozen (point_mutation_id m)) = None then Inl (refuse No_frozen_point) else Inr ()
     | Some (In_searcher k) \<Rightarrow> if length (searchers st) \<le> k then Inl (refuse Missing_searcher) else Inr ()
     | _ \<Rightarrow> Inr ())"

definition removed_edges :: "('n, 'f) GraphBatch \<Rightarrow> edge_id set" where
  "removed_edges b = set (List.map_filter (\<lambda>m. case m of Unrelate i \<Rightarrow> Some i | _ \<Rightarrow> None) (gb_edge_mutations b))"

text \<open>A point whose node has edges stays with its tenant.\<close>

definition check_tenant_move ::
  "('n, 'f) replay_env \<Rightarrow> ('n, 'f, 'e) Storage \<Rightarrow> ('n, 'f) Streamer option \<Rightarrow> PointIncarnationResolver \<Rightarrow> ('n, 'e) MutableGraphState
     \<Rightarrow> edge_id set \<Rightarrow> ('n, 'f) GraphPointMutation \<Rightarrow> 'e replay_error + unit" where
  "check_tenant_move env st sealing current g removed m =
     (case m of Delete_point _ _ \<Rightarrow> Inr ()
      | Upsert_point p \<Rightarrow>
          (case live_nid current (pt_id p) of None \<Rightarrow> Inr ()
           | Some n \<Rightarrow>
               let tenant = replay_point_tenant current Map.empty st sealing n in
               if tenant = payload_tenant (pt_payload p) then Inr ()
               else bindE (map_err (rejected In_graph)
                      (has_live_incident_edge_excluding g (env_order env (incident_namespaces g tenant)) n removed)) (\<lambda>incident.
                    if incident then Inl (Rejected (Graph (graph_error_new TenantMoveHasEdges (Tenant_move n)))) else Inr ())))"

definition retire_deleted :: "PointIncarnationResolver \<Rightarrow> ('n, 'f) GraphPointMutation \<Rightarrow> PointIncarnationResolver" where
  "retire_deleted resolver m = (case m of Delete_point i _ \<Rightarrow> fst (retire resolver i) | Upsert_point _ \<Rightarrow> resolver)"

text \<open>\<open>collect\<close> into a hash map: a later entry replaces an earlier one.\<close>

definition staged_upsert_tenants :: "PointIncarnationResolver \<Rightarrow> ('n, 'f) GraphBatch \<Rightarrow> nid \<rightharpoonup> ustr option" where
  "staged_upsert_tenants staged b =
     fold (\<lambda>m tenants. case m of Delete_point _ _ \<Rightarrow> tenants
             | Upsert_point p \<Rightarrow>
                 (case live_nid staged (pt_id p) of None \<Rightarrow> tenants | Some n \<Rightarrow> tenants(n \<mapsto> payload_tenant (pt_payload p))))
       (gb_point_mutations b) Map.empty"

definition deferred_input :: "nat \<Rightarrow> ('n, 'f) GraphBatch \<Rightarrow> 'n DeferredMutationInput" where
  "deferred_input lsn b =
     \<lparr>record_lsn = lsn, assignments = set (map (\<lambda>h. (ha_point_id h, ha_nid h)) (gb_handle_assignments b)),
      creates = gb_deferred_binds b, endpoint_binds = gb_edge_binds b, session_mutations = gb_deferred_sessions b\<rparr>"

definition promoted_ids :: "'n DeferredMutationPlan \<Rightarrow> edge_id set" where
  "promoted_ids plan = set (List.map_filter (\<lambda>m. case m of Relate r \<Rightarrow> Some (rm_edge_id r) | _ \<Rightarrow> None) (promoted plan))"

definition active_graph ::
  "('n, 'f, 'e) Collection \<Rightarrow> ('n, 'f) GraphBatch \<Rightarrow> 'e replay_error + ('n, 'e) MutableGraphState" where
  "active_graph c b =
     (if \<not> lc_enabled (co_lifecycle c) then Inl (Rejected (Graph (graph_error_new GraphDisabled Lifecycle_disabled)))
      else
      bindE (ok_or (refuse Lifecycle_without_epoch) (lc_epoch (co_lifecycle c))) (\<lambda>active.
      if gb_graph_epoch b \<noteq> active then Inl (Rejected (Graph (graph_error_new EpochMismatch Batch_epoch_differs)))
      else
      bindE (ok_or (refuse No_mutable_graph) (co_mutable c)) (\<lambda>g.
      if g_epoch g \<noteq> active then Inl (Rejected (Graph (graph_error_new EpochMismatch Mutable_epoch_differs))) else Inr g)))"

definition stage_points ::
  "('n, 'f) replay_env \<Rightarrow> ('n, 'f, 'e) Collection \<Rightarrow> ('n, 'f) Streamer option \<Rightarrow> ('n, 'e) MutableGraphState \<Rightarrow> ('n, 'f) GraphBatch
     \<Rightarrow> 'e replay_error + PointIncarnationResolver" where
  "stage_points env c sealing g b =
     (let current = (case co_resolver c of None \<Rightarrow> resolver_default | Some r \<Rightarrow> r); st = co_storage c in
      bindE (foldE (stage_assignment st (upsert_ids b)) current (gb_handle_assignments b)) (\<lambda>staged.
      bindE (foldE (\<lambda>_ m. check_point_mutation env (co_config c) st sealing staged m) () (gb_point_mutations b)) (\<lambda>_.
      bindE (foldE (\<lambda>_ m. check_tenant_move env st sealing current g (removed_edges b) m) () (gb_point_mutations b)) (\<lambda>_.
      Inr (fold (\<lambda>m r. retire_deleted r m) (gb_point_mutations b) staged)))))"

definition prepare_graph_batch ::
  "('n, 'f) replay_env \<Rightarrow> ('n, 'f, 'e) Collection \<Rightarrow> ('n, 'f) Streamer option \<Rightarrow> nat \<Rightarrow> ('n, 'f) GraphBatch
     \<Rightarrow> 'e replay_error + 'n PreparedGraphBatch" where
  "prepare_graph_batch env c sealing lsn b =
     bindE (map_err (rejected In_batch) (batch_validate (env_json_len env) (env_batch_len env) b)) (\<lambda>_.
     bindE (active_graph c b) (\<lambda>g.
     bindE (map_err (rejected In_graph) (validate_idempotency g (gb_idempotency b))) (\<lambda>_.
     bindE (stage_points env c sealing g b) (\<lambda>staged.
     bindE (map_err (rejected In_graph) (stage_types (g_types g) (gb_type_configurations b))) (\<lambda>types.
     bindE (map_err (rejected In_graph) (plan_deferred (env_json_len env) g staged (deferred_input lsn b) types)) (\<lambda>plan.
     let ms = gb_edge_mutations b @ promoted plan;
         tenant_of = replay_point_tenant staged (staged_upsert_tenants staged b) (co_storage c) sealing in
     bindE (map_err (rejected In_graph)
              (validate_edge_mutations_with_types_and_promotions (env_json_len env) g staged ms tenant_of types (promoted_ids plan))) (\<lambda>_.
     bindE (map_err mutation_failed (prepare_property_mutations (env_json_len env) g ms)) (\<lambda>prepared.
     Inr \<lparr>pr_record_lsn = lsn, pr_staged_resolver = staged, pr_staged_types = types, pr_deferred_plan = plan,
          pr_edge_mutations = prepared\<rparr>))))))))"

section \<open>Applying a batch\<close>

definition apply_point_mutation ::
  "'n json_ext \<Rightarrow> ('n, 'f) Streamer option \<Rightarrow> ('n, 'f, 'e) Storage \<Rightarrow> ('n, 'f) GraphPointMutation \<Rightarrow> 'e replay_error + ('n, 'f, 'e) Storage" where
  "apply_point_mutation ext sealing st m =
     map_err storage_failed
       (case m of Upsert_point p \<Rightarrow> apply_wal_upsert ext sealing st p | Delete_point i _ \<Rightarrow> apply_wal_delete ext sealing st i)"

definition apply_prepared_graph_batch ::
  "('n, 'f) replay_env \<Rightarrow> ('n, 'f, 'e) Collection \<Rightarrow> ('n, 'f) Streamer option \<Rightarrow> ('n, 'f) GraphBatch \<Rightarrow> 'n PreparedGraphBatch
     \<Rightarrow> 'e replay_error + ('n, 'f, 'e) Collection" where
  "apply_prepared_graph_batch env c sealing b prepared =
     bindE (foldE (apply_point_mutation (env_json env) sealing) (co_storage c) (gb_point_mutations b)) (\<lambda>st.
     bindE (expect (Crashed No_validated_graph) (co_mutable c)) (\<lambda>g.
     let g = track_persist_changes g (pr_record_lsn prepared) (pr_edge_mutations prepared) (pr_deferred_plan prepared);
         g = g\<lparr>g_types := pr_staged_types prepared\<rparr> in
     bindE (map_err (\<lambda>p. Crashed (Graph_panic p)) (apply_validated_edge_mutations g (pr_edge_mutations prepared))) (\<lambda>g.
     let g = apply_validated_idempotency (apply_deferred_plan g (pr_deferred_plan prepared)) (gb_idempotency b) in
     Inr (c\<lparr>co_storage := st, co_resolver := Some (pr_staged_resolver prepared), co_mutable := Some g\<rparr>))))"

fun graph_batch_corruption :: "'e replay_error \<Rightarrow> 'e replay_error" where
  "graph_batch_corruption (Rejected e) = Rejected (WalCorruption (Corrupt_batch e))"
| "graph_batch_corruption (Unreadable e) = Rejected (WalCorruption (Corrupt_read e))"
| "graph_batch_corruption (Crashed p) = Crashed p"

definition apply_wal_graph_batch ::
  "('n, 'f) replay_env \<Rightarrow> ('n, 'f, 'e) Collection \<Rightarrow> nat \<Rightarrow> ('n, 'f) GraphBatch \<Rightarrow> 'e replay_error + ('n, 'f, 'e) Collection" where
  "apply_wal_graph_batch env c lsn b =
     bindE (map_err graph_batch_corruption (prepare_graph_batch env c None lsn b)) (\<lambda>prepared.
     map_err graph_batch_corruption (apply_prepared_graph_batch env c None b prepared))"

section \<open>Records\<close>

text \<open>
  The entries of the log of a collection. The ones that only belong in the catalog log share
  \<open>Catalog_entry\<close>; an entry of a transaction wraps the one it applies.
\<close>

datatype ('n, 'f) WalEntry =
    Upsert_entry "('n, 'f) Point" | UpsertBatch_entry "('n, 'f) Point list" | Delete_entry ustr | DeleteBatch_entry "ustr list"
  | SetPayload_entry ustr "'n Value" bool | GraphEpochAdvance_entry graph_epoch bool | GraphBatch_entry "('n, 'f) GraphBatch"
  | Compact_entry | Catalog_entry | TransactionApply_entry "('n, 'f) WalEntry"

definition unwrap_transaction :: "('n, 'f) WalEntry \<Rightarrow> ('n, 'f) WalEntry" where
  "unwrap_transaction entry = (case entry of TransactionApply_entry inner \<Rightarrow> inner | _ \<Rightarrow> entry)"

definition replay_upsert ::
  "('n, 'f) replay_env \<Rightarrow> ('n, 'f, 'e) Collection \<Rightarrow> ('n, 'f) Point \<Rightarrow> 'e replay_error + ('n, 'f, 'e) Collection" where
  "replay_upsert env c p =
     bindE (map_err storage_failed (apply_wal_upsert (env_json env) None (co_storage c) p)) (\<lambda>st. Inr (c\<lparr>co_storage := st\<rparr>))"

definition replay_delete ::
  "('n, 'f) replay_env \<Rightarrow> ('n, 'f, 'e) Collection \<Rightarrow> ustr \<Rightarrow> 'e replay_error + ('n, 'f, 'e) Collection" where
  "replay_delete env c i =
     (let c = c\<lparr>co_resolver := map_option (\<lambda>r. fst (retire r i)) (co_resolver c)\<rparr> in
      bindE (map_err storage_failed (apply_wal_delete (env_json env) None (co_storage c) i)) (\<lambda>st. Inr (c\<lparr>co_storage := st\<rparr>)))"

definition replay_advance ::
  "('n, 'f, 'e) Collection \<Rightarrow> graph_epoch \<Rightarrow> bool \<Rightarrow> 'e replay_error + ('n, 'f, 'e) Collection" where
  "replay_advance c epoch enabled =
     bindE (map_err (\<lambda>e. Rejected (WalCorruption (Corrupt_advance e))) (apply_advance (co_lifecycle c) epoch enabled)) (\<lambda>staged.
     Inr (c\<lparr>co_lifecycle := staged,
            co_resolver := (if enabled \<and> co_resolver c = None then Some resolver_default else co_resolver c),
            co_mutable := (if enabled then Some (mutable_new epoch) else None)\<rparr>))"

definition apply_wal_record ::
  "('n, 'f) replay_env \<Rightarrow> ('n, 'f, 'e) Collection \<Rightarrow> nat \<times> ('n, 'f) WalEntry \<Rightarrow> 'e replay_error + ('n, 'f, 'e) Collection" where
  "apply_wal_record env c record =
     (case unwrap_transaction (snd record) of
        Upsert_entry p \<Rightarrow> replay_upsert env c p
      | UpsertBatch_entry ps \<Rightarrow> foldE (replay_upsert env) c ps
      | Delete_entry i \<Rightarrow> replay_delete env c i
      | DeleteBatch_entry ids \<Rightarrow> foldE (replay_delete env) c ids
      | SetPayload_entry i payload merge \<Rightarrow>
          bindE (map_err storage_failed (apply_wal_set_payload (env_json env) (co_storage c) i payload merge)) (\<lambda>st. Inr (c\<lparr>co_storage := st\<rparr>))
      | GraphEpochAdvance_entry epoch enabled \<Rightarrow> replay_advance c epoch enabled
      | GraphBatch_entry b \<Rightarrow> apply_wal_graph_batch env c (fst record) b
      | Compact_entry \<Rightarrow> Inr c
      | Catalog_entry \<Rightarrow> Inl (Rejected (WalCorruption Catalog_entry_in_log))
      | TransactionApply_entry _ \<Rightarrow> Inl (Rejected (WalCorruption Catalog_entry_in_log)))"

end
