(* ===== verification/Replay_Safety.thy ===== *)
theory Replay_Safety
  imports Wal_Replay
begin

text \<open>
  Why replay is safe. An accepted batch changes the graph as its plan says, the points as its mutations
  say, and keeps the invariant of a collection: one owner per point, handles of stored points only, a
  consistent graph in the odd epochs. No record panics, the points follow the entries, no deferred edge is
  lost, and an open session can always be aborted.
\<close>

section \<open>The graph part of a batch\<close>

text \<open>Replacing the type catalog, the bookkeeping of unsealed changes and the retry state touches no edge.\<close>

abbreviation booked ::
  "('n, 'e) MutableGraphState \<Rightarrow> PersistChanges \<Rightarrow> GraphTypeCatalog \<Rightarrow> (ustr \<rightharpoonup> GraphIdempotencyState) \<Rightarrow> ('n, 'e) MutableGraphState" where
  "booked g pc types im \<equiv> g\<lparr>persist_changes := pc, g_types := types, idempotency := im\<rparr>"

lemma booked_reads [simp]:
  "contains_edge_id (booked g pc types im) = contains_edge_id g" "edge_namespace (booked g pc types im) = edge_namespace g"
  "has_live_edge (booked g pc types im) = has_live_edge g" "live_ids (booked g pc types im) = live_ids g"
  "dormant (booked g pc types im) = dormant g" "planned (booked g pc types im) plan = planned g plan"
  "planned_session (booked g pc types im) u = planned_session g u" "edge_properties (booked g pc types im) = edge_properties g"
proof -
  show n: "edge_namespace (booked g pc types im) = edge_namespace g"
    by (simp add: fun_eq_iff edge_namespace_def edge_visible_def split: option.split)
  then show "has_live_edge (booked g pc types im) = has_live_edge g" "live_ids (booked g pc types im) = live_ids g"
    by (simp_all add: fun_eq_iff has_live_edge_def live_ids_def)
  then show "edge_properties (booked g pc types im) = edge_properties g"
    by (simp add: fun_eq_iff edge_properties_def stored_properties_def cong: if_cong option.case_cong)
qed (simp_all add: fun_eq_iff contains_edge_id_def dormant_def planned_def planned_session_def split: option.split)

lemma booked_invariants [simp]:
  "graph_inv (booked g pc types im) = graph_inv g" "pending_ok (booked g pc types im) = pending_ok g"
  "final_ok (booked g pc types im) C plan = final_ok g C plan" "ready (booked g pc types im) m = ready g m"
  by (simp_all add: graph_inv_def rows_ok_def documents_ok_def ledger_ok_def pending_ok_def final_ok_def ready_def
      split: EdgeMutation.split)

lemma validated_target:
  assumes "validate_mutation json_len g resolver tenant types promotions k m = Inr ()" "mutation_edge_id m \<notin> promotions"
  shows "contains_edge_id g (mutation_edge_id m) = Inr False \<or> mutation_edge_id m \<in> live_ids g"
  using assms has_live_edge_True [of g]
  by (cases m) (fastforce simp: validate_mutation_def validate_relate_def res_simps Let_def split: if_splits)+

lemma relate_ids:
  "\<forall>m \<in> set ms. \<exists>r. m = Relate r \<Longrightarrow>
     List.map_filter (\<lambda>m. case m of Relate r \<Rightarrow> Some (rm_edge_id r) | _ \<Rightarrow> None) ms = map mutation_edge_id ms"
  by (induction ms) (auto simp: List.map_filter_simps)

lemma promoted_ids: "final_ok g C plan \<Longrightarrow> promoted_ids plan = mutation_edge_id ` set (promoted plan)"
  unfolding promoted_ids_def by (subst relate_ids) (auto dest: final_okD(8))

lemma promoted_origin:
  assumes "final_ok g C plan" "i \<in> mutation_edge_id ` set (promoted plan)"
  shows "map_of (pending_edges g) i \<noteq> None \<or> i \<in> created_edge_ids plan"
  using assms(2) final_okD(4,8) [OF assms(1)] by fastforce

lemma batch_mutations:
  assumes inv: "graph_inv g" and pend: "pending_ok g" and ok: "final_ok g C plan" and C: "mutation_edge_id ` set ms \<inter> C = {}"
    and val: "validate_edge_mutations_with_types_and_promotions json_len g resolver (ms @ promoted plan) tenant types (promoted_ids plan) = Inr ()"
    and prep: "prepare_property_mutations json_len g (ms @ promoted plan) = Inr ms'"
  shows "\<exists>g1. apply_validated_edge_mutations (booked g pc types' im) ms' = Inr g1 \<and> graph_inv g1 \<and> same_base (booked g pc types' im) g1
    \<and> effects_of (booked g pc types' im) ms' g1 \<and> list_all2 (prepared_as g) (ms @ promoted plan) ms'"
    and "\<forall>i. (map_of (pending_edges g) i \<noteq> None \<or> i \<in> created_edge_ids plan) \<and> i \<notin> mutation_edge_id ` set (promoted plan) \<longrightarrow> mutation_of ms' i = None"
proof -
  note ids = promoted_ids [OF ok]
  have dorm: "\<forall>i \<in> promoted_ids plan. dormant g i" unfolding ids by (intro ballI final_dormant [OF inv pend ok] promoted_origin [OF ok])
  from validated_all_ready(1) [OF inv val dorm] prep
  have p: "list_all2 (prepared_as g) (ms @ promoted plan) ms'" "\<forall>m \<in> set ms'. ready g m" "distinct (map mutation_edge_id ms')" by auto
  then show "\<exists>g1. apply_validated_edge_mutations (booked g pc types' im) ms' = Inr g1 \<and> graph_inv g1 \<and> same_base (booked g pc types' im) g1
    \<and> effects_of (booked g pc types' im) ms' g1 \<and> list_all2 (prepared_as g) (ms @ promoted plan) ms'"
    using mutations_apply [of "booked g pc types' im" ms'] inv by simp
  have v: "\<exists>k. validate_mutation json_len g resolver tenant types (promoted_ids plan) k m = Inr ()" if "m \<in> set ms" for m
    using val validate_loop_Inr that unfolding validate_edge_mutations_with_types_and_promotions_def by fastforce
  have "i \<notin> mutation_edge_id ` set ms" if i: "map_of (pending_edges g) i \<noteq> None \<or> i \<in> created_edge_ids plan" "i \<notin> promoted_ids plan" for i
  proof
    assume m: "i \<in> mutation_edge_id ` set ms"
    then have "contains_edge_id g i = Inr False \<or> i \<in> live_ids g" using v validated_target i(2) by blast
    moreover have "i \<notin> live_ids g" by (rule dormant_not_live [OF final_dormant [OF inv pend ok i(1)]])
    moreover have "i \<notin> created_edge_ids plan" using m C final_okD(2) [OF ok] by blast
    ultimately show False using i(1) pending_known [OF inv] by fastforce
  qed
  moreover have "mutation_of ms' i = None" if "i \<notin> mutation_edge_id ` set (ms @ promoted plan)" for i
  proof -
    have "mutation_of (ms @ promoted plan) i = None" using that by (auto simp: mutation_of_def find_None_iff)
    then show ?thesis using mutation_of_prepared [OF p(1), of i] by simp
  qed
  ultimately show "\<forall>i. (map_of (pending_edges g) i \<noteq> None \<or> i \<in> created_edge_ids plan) \<and> i \<notin> mutation_edge_id ` set (promoted plan) \<longrightarrow> mutation_of ms' i = None"
    unfolding ids set_append image_Un by blast
qed

lemma mutation_of_member: "distinct (map mutation_edge_id ms) \<Longrightarrow> m \<in> set ms \<Longrightarrow> mutation_of ms (mutation_edge_id m) = Some m"
  by (induction ms) (auto simp: mutation_of_def image_iff)

text \<open>What a batch leaves of the graph: \<open>g\<close> before, \<open>g'\<close> after, \<open>plan\<close> its plan for the deferred edges.\<close>

definition batch_outcome ::
  "('n, 'e) MutableGraphState \<Rightarrow> 'n DeferredMutationPlan \<Rightarrow> GraphTypeCatalog \<Rightarrow> ('n, 'e) MutableGraphState \<Rightarrow> bool" where
  "batch_outcome g plan types g' \<longleftrightarrow>
     graph_inv g' \<and> pending_ok g' \<and> g_epoch g' = g_epoch g \<and> g_types g' = types
   \<and> deferred_sessions g' = deferred_sessions g ++ session_updates plan \<and> map_of (pending_edges g') = planned g plan
   \<and> (\<forall>i \<in> set (aborted_edge_ids plan). i \<in> edge_tombstones g')
   \<and> (\<forall>r. Relate r \<in> set (promoted plan) \<longrightarrow> edge_namespace g' (rm_edge_id r) = Inr (Some (rm_namespace r))
        \<and> edge_properties g' (rm_edge_id r) = Inr (Some (rm_properties r)))"

lemma aborted_reads:
  assumes "i \<notin> set (aborted_edge_ids plan)" "g2 = g1\<lparr>edge_ids := a, deferred_sessions := s, pending_edges := ps, pending_by_endpoint := ix,
      edge_tombstones := edge_tombstones g1 \<union> set (aborted_edge_ids plan)\<rparr>"
  shows "edge_namespace g2 i = edge_namespace g1 i" "edge_properties g2 i = edge_properties g1 i"
proof -
  show n: "edge_namespace g2 i = edge_namespace g1 i" using assms by (simp add: edge_namespace_def edge_visible_def split: option.split)
  then show "edge_properties g2 i = edge_properties g1 i"
    using assms(2) by (simp add: edge_properties_def has_live_edge_def stored_properties_def cong: if_cong option.case_cong)
qed

lemma batch_graph:
  assumes inv: "graph_inv g" and pend: "pending_ok g" and ok: "final_ok g C plan" and C: "mutation_edge_id ` set ms \<inter> C = {}"
    and val: "validate_edge_mutations_with_types_and_promotions json_len g resolver (ms @ promoted plan) tenant types (promoted_ids plan) = Inr ()"
    and prep: "prepare_property_mutations json_len g (ms @ promoted plan) = Inr ms'"
  shows "\<exists>g1. apply_validated_edge_mutations (booked g pc types' im) ms' = Inr g1 \<and> batch_outcome g plan types' (apply_deferred_plan g1 plan)"
proof -
  let ?g0 = "booked g pc types' im"
  from batch_mutations(1) [OF assms, where pc = pc and types' = types' and im = im] obtain g1 where g1: "apply_validated_edge_mutations ?g0 ms' = Inr g1" "graph_inv g1"
    "same_base ?g0 g1" "effects_of ?g0 ms' g1" and p: "list_all2 (prepared_as g) (ms @ promoted plan) ms'" by blast
  have ok0: "final_ok ?g0 C plan" "graph_inv ?g0" "pending_ok ?g0" using ok inv pend by simp_all
  have "same_edge i ?g0 g1" if "mutation_of ms' i = None" for i using g1(4) that by (auto simp: effects_of_def dest: spec [of _ i])
  then have quiet: "\<forall>i. (map_of (pending_edges ?g0) i \<noteq> None \<or> i \<in> created_edge_ids plan) \<and> i \<notin> mutation_edge_id ` set (promoted plan) \<longrightarrow> same_edge i ?g0 g1"
    using batch_mutations(2) [OF assms] by simp
  note keeps = apply_deferred_plan_ok [OF ok0(2,3,1) g1(2,3) quiet]
  note b = same_base_fields [OF g1(3)]
  from apply_deferred_plan_state [OF ok0(3,1), of g1] b obtain ps ix where
    g2: "apply_deferred_plan g1 plan = g1\<lparr>edge_ids := edge_ids g1 \<union> created_edge_ids plan, deferred_sessions := deferred_sessions g1 ++ session_updates plan,
      pending_edges := ps, pending_by_endpoint := ix, edge_tombstones := edge_tombstones g1 \<union> set (aborted_edge_ids plan)\<rparr>"
    and ps: "map_of ps = planned g plan" by auto
  have "edge_namespace (apply_deferred_plan g1 plan) (rm_edge_id r) = Inr (Some (rm_namespace r))
      \<and> edge_properties (apply_deferred_plan g1 plan) (rm_edge_id r) = Inr (Some (rm_properties r))" if r: "Relate r \<in> set (promoted plan)" for r
  proof -
    have dorm: "\<forall>i \<in> promoted_ids plan. dormant g i"
      unfolding promoted_ids [OF ok] by (intro ballI final_dormant [OF inv pend ok] promoted_origin [OF ok])
    have "mutation_of (ms @ promoted plan) (rm_edge_id r) = Some (Relate r)"
      using mutation_of_member [OF validated_all_ready(2) [OF inv val dorm], of "Relate r"] r by simp
    then have "mutation_of ms' (rm_edge_id r) = Some (Relate r)"
      using mutation_of_prepared [OF p, of "rm_edge_id r"] by (auto simp: option_rel_Some1 prepared_as_def)
    then have "edge_namespace g1 (rm_edge_id r) = Inr (Some (rm_namespace r))" "edge_properties g1 (rm_edge_id r) = Inr (Some (rm_properties r))"
      using g1(4) by (auto simp: effects_of_def namespace_after_def document_after_def dest!: spec [of _ "rm_edge_id r"])
    moreover have "rm_edge_id r \<notin> set (aborted_edge_ids plan)" using final_okD(10) [OF ok _ r] by auto
    ultimately show ?thesis using aborted_reads [OF _ g2] by simp
  qed
  then show ?thesis using g1(1) keeps b ps by (auto simp: batch_outcome_def g2)
qed

lemma prepare_Inr:
  fixes c :: "('n, 'f, 'e) Collection"
  assumes "prepare_graph_batch env c sealing lsn b = Inr pr"
  obtains g tenant_of where "co_mutable c = Some g" "lc_epoch (co_lifecycle c) = Some (g_epoch g)" "gb_graph_epoch b = g_epoch g"
    "batch_validate (env_json_len env) (env_batch_len env) b = Inr ()"
    "stage_points env c sealing g b = Inr (pr_staged_resolver pr)"
    "stage_types (g_types g) (gb_type_configurations b) = (Inr (pr_staged_types pr) :: ('e, _) gresult)"
    "plan_deferred (env_json_len env) g (pr_staged_resolver pr) (deferred_input lsn b) (pr_staged_types pr) = Inr (pr_deferred_plan pr)"
    "validate_edge_mutations_with_types_and_promotions (env_json_len env) g (pr_staged_resolver pr)
       (gb_edge_mutations b @ promoted (pr_deferred_plan pr)) tenant_of (pr_staged_types pr) (promoted_ids (pr_deferred_plan pr)) = Inr ()"
    "prepare_property_mutations (env_json_len env) g (gb_edge_mutations b @ promoted (pr_deferred_plan pr)) = Inr (pr_edge_mutations pr)"
    "pr_record_lsn pr = lsn"
proof -
  from assms obtain g where g: "active_graph c b = Inr g" "batch_validate (env_json_len env) (env_batch_len env) b = Inr ()"
    by (auto simp: prepare_graph_batch_def res_simps)
  moreover from g(1) have "co_mutable c = Some g" "lc_epoch (co_lifecycle c) = Some (g_epoch g)" "gb_graph_epoch b = g_epoch g"
    by (auto simp: active_graph_def res_simps split: if_splits)
  ultimately show ?thesis using assms that by (auto simp: prepare_graph_batch_def Let_def res_simps)
qed

section \<open>The invariant of a collection\<close>

lemma id_index_live: "storage_ok ext st \<Longrightarrow> id_index st i = None \<longleftrightarrow> live_point st i = Inr None"
proof -
  assume ok: "storage_ok ext st"
  then show ?thesis
  proof (cases rule: home_cases [of ext st i])
    case (3 k)
    then show ?thesis using storage_okD(4) [OF ok, of i k] by (simp add: live_point_def sealed_live_def)
  qed (auto simp: live_point_def)
qed

text \<open>What an entry means for the points, whatever tier holds them.\<close>

type_synonym ('n, 'f, 'e) holdings = "ustr \<Rightarrow> 'e + ('n, 'f) Point option"

definition mutation_effect :: "('n, 'f) GraphPointMutation \<Rightarrow> ('n, 'f, 'e) holdings \<Rightarrow> ('n, 'f, 'e) holdings" where
  "mutation_effect m f = f(point_mutation_id m := Inr (case m of Upsert_point p \<Rightarrow> Some p | Delete_point _ _ \<Rightarrow> None))"

definition entry_effect :: "('n, 'f) WalEntry \<Rightarrow> ('n, 'f, 'e) holdings \<Rightarrow> ('n, 'f, 'e) holdings" where
  "entry_effect entry f =
     (case unwrap_transaction entry of
        Upsert_entry p \<Rightarrow> f(pt_id p := Inr (Some p))
      | UpsertBatch_entry ps \<Rightarrow> fold (\<lambda>p f. f(pt_id p := Inr (Some p))) ps f
      | Delete_entry i \<Rightarrow> f(i := Inr None)
      | DeleteBatch_entry ids \<Rightarrow> fold (\<lambda>i f. f(i := Inr None)) ids f
      | SetPayload_entry i payload merge \<Rightarrow> f(i := map_sum id (map_option (set_point_payload merge payload)) (f i))
      | GraphBatch_entry b \<Rightarrow> fold mutation_effect (gb_point_mutations b) f
      | _ \<Rightarrow> f)"

definition stored :: "'n json_ext \<Rightarrow> ('n, 'f, 'e) holdings \<Rightarrow> 'e replay_error + ('n, 'f, 'e) Storage \<Rightarrow> bool" where
  "stored ext f r \<longleftrightarrow> (case r of Inl e \<Rightarrow> \<exists>x. e = Unreadable x | Inr st \<Rightarrow> storage_ok ext st \<and> live_point st = f)"

lemma stored_map_err:
  "(case r of Inl e \<Rightarrow> \<exists>x. e = Read_error x | Inr st \<Rightarrow> storage_ok ext st \<and> live_point st = f) \<Longrightarrow> stored ext f (map_err storage_failed r)"
  by (cases r) (auto simp: stored_def map_err_def)

lemmas stored_steps = stored_map_err [OF upsert_step] stored_map_err [OF delete_step] stored_map_err [OF set_payload_step]

lemma point_mutation_step: "storage_ok ext st \<Longrightarrow> stored ext (mutation_effect m (live_point st)) (apply_point_mutation ext sealing st m)"
  by (cases m) (simp_all add: apply_point_mutation_def mutation_effect_def point_mutation_id_def stored_steps)

lemma stored_fold:
  assumes step: "\<And>st x. storage_ok ext st \<Longrightarrow> stored ext (effect x (live_point st)) (run st x)" and "storage_ok ext st"
  shows "stored ext (fold effect xs (live_point st)) (foldE run st xs)"
  using assms(2)
proof (induction xs arbitrary: st)
  case (Cons x xs)
  show ?case
  proof (cases "run st x")
    case (Inr st1)
    then have "storage_ok ext st1" "live_point st1 = effect x (live_point st)" using step [OF Cons.prems, of x] by (simp_all add: stored_def)
    then show ?thesis using Cons.IH [of st1] Inr by simp
  qed (use step [OF Cons.prems, of x] in \<open>simp add: stored_def\<close>)
qed (simp add: stored_def)

lemma point_mutations_fold:
  "storage_ok ext st \<Longrightarrow> stored ext (fold mutation_effect ms (live_point st)) (foldE (apply_point_mutation ext sealing) st ms)"
  by (rule stored_fold) (rule point_mutation_step)

definition lifecycle_ok :: "GraphLifecycleState \<Rightarrow> bool" where
  "lifecycle_ok s \<longleftrightarrow>
     (case lc_epoch s of None \<Rightarrow> \<not> lc_enabled s | Some e \<Rightarrow> 0 < e \<and> e < u64_limit \<and> lc_enabled s = (e mod 2 = 1))"

definition graph_ok :: "GraphLifecycleState \<Rightarrow> ('n, 'e) MutableGraphState \<Rightarrow> bool" where
  "graph_ok lc g \<longleftrightarrow>
     lc_epoch lc = Some (g_epoch g) \<and> graph_inv g \<and> pending_ok g \<and> catalog_wf (g_types g)
   \<and> (\<forall>sid \<in> dom (deferred_sessions g). validate_graph_key sid = Inr ())"

text \<open>
  Every point has one owner, a node handle belongs to a stored point, and there is a graph exactly while
  the lifecycle is enabled, which is in the odd epochs.
\<close>

definition collection_ok :: "'n json_ext \<Rightarrow> ('n, 'f, 'e) Collection \<Rightarrow> bool" where
  "collection_ok ext c \<longleftrightarrow>
     storage_ok ext (co_storage c) \<and> lifecycle_ok (co_lifecycle c)
   \<and> (co_resolver c = None \<longleftrightarrow> lc_epoch (co_lifecycle c) = None)
   \<and> (\<forall>r. co_resolver c = Some r \<longrightarrow> resolver_wf r \<and> dom (live_by_point r) \<subseteq> dom (id_index (co_storage c)))
   \<and> (co_mutable c \<noteq> None \<longleftrightarrow> lc_enabled (co_lifecycle c))
   \<and> (\<forall>g. co_mutable c = Some g \<longrightarrow> graph_ok (co_lifecycle c) g)"

lemma advance_ok:
  assumes "lifecycle_ok s" "apply_advance s epoch enabled = Inr s'"
  shows "lifecycle_ok s'" "s' = \<lparr>lc_epoch = Some epoch, lc_enabled = enabled\<rparr>"
proof -
  have e: "next_epoch s = Inr epoch" "lc_enabled s \<noteq> enabled" and s': "s' = \<lparr>lc_epoch = Some epoch, lc_enabled = enabled\<rparr>"
    using assms(2) by (auto simp: apply_advance_def res_simps split: if_splits)
  show "s' = \<lparr>lc_epoch = Some epoch, lc_enabled = enabled\<rparr>" by (rule s')
  show "lifecycle_ok s'"
  proof (cases "lc_epoch s")
    case None
    then show ?thesis using e assms(1) by (simp add: s' lifecycle_ok_def next_epoch_def graph_epoch_INITIAL_def)
  next
    case (Some old)
    then have "epoch = Suc old" "Suc old < u64_limit" using e(1) by (auto simp: next_epoch_def res_simps graph_epoch_next_Some)
    then show ?thesis using Some e(2) assms(1) by (auto simp: s' lifecycle_ok_def mod_Suc)
  qed
qed

lemma graph_ok_new: "lc_epoch lc = Some epoch \<Longrightarrow> graph_ok lc (mutable_new epoch)"
  using graph_inv_new [of epoch] catalog_default_wf
  by (simp add: graph_ok_def pending_ok_def index_ok_def entries_at_def mutable_new_def)

lemma resolver_default_wf: "resolver_wf resolver_default"
  by (simp add: resolver_wf_def resolver_default_def)

lemma replay_advance_ok:
  assumes "collection_ok ext c" "replay_advance c epoch enabled = Inr c'"
  shows "collection_ok ext c'"
proof -
  from assms(2) obtain s where s: "apply_advance (co_lifecycle c) epoch enabled = Inr s"
    and c': "c' = c\<lparr>co_lifecycle := s, co_resolver := (if enabled \<and> co_resolver c = None then Some resolver_default else co_resolver c),
            co_mutable := (if enabled then Some (mutable_new epoch) else None)\<rparr>"
    by (auto simp: replay_advance_def res_simps)
  have "lifecycle_ok (co_lifecycle c)" using assms(1) by (simp add: collection_ok_def)
  note adv = advance_ok [OF this s]
  have "\<not> enabled \<Longrightarrow> lc_epoch (co_lifecycle c) \<noteq> None"
    using s assms(1) by (auto simp: apply_advance_def collection_ok_def lifecycle_ok_def res_simps split: if_splits)
  then show ?thesis using assms(1) adv(1) graph_ok_new [of s epoch] resolver_default_wf unfolding collection_ok_def
    by (auto simp: c' adv(2) resolver_default_def)
qed

section \<open>Points and node handles\<close>

lemma retire_dom: "dom (live_by_point (fst (retire r i))) = dom (live_by_point r) - {i}"
  by (auto simp: retire_def split: option.splits)

text \<open>Points may appear freely; the handle of a point that goes is retired first.\<close>

lemma collection_storage:
  assumes "collection_ok ext c" "storage_ok ext st"
    "\<forall>r. R = Some r \<longrightarrow> resolver_wf r \<and> dom (live_by_point r) \<subseteq> dom (id_index st)" "R = None \<longleftrightarrow> co_resolver c = None"
  shows "collection_ok ext (c\<lparr>co_resolver := R, co_storage := st\<rparr>)"
  using assms unfolding collection_ok_def by simp

lemma collection_resolver:
  "collection_ok ext c \<Longrightarrow> co_resolver c = Some r \<Longrightarrow> resolver_wf r \<and> dom (live_by_point r) \<subseteq> dom (id_index (co_storage c))"
  by (simp add: collection_ok_def)

lemma dom_live: "storage_ok ext st \<Longrightarrow> dom (id_index st) = {i. live_point st i \<noteq> Inr None}"
  by (auto simp: id_index_live [symmetric, of ext st])

definition replayed :: "'n json_ext \<Rightarrow> ('n, 'f, 'e) holdings \<Rightarrow> 'e replay_error + ('n, 'f, 'e) Collection \<Rightarrow> bool" where
  "replayed ext f r \<longleftrightarrow>
     (case r of Inl e \<Rightarrow> (\<forall>p. e \<noteq> Crashed p) | Inr c \<Rightarrow> collection_ok ext c \<and> live_point (co_storage c) = f)"

lemma replay_upsert_ok:
  assumes ok: "collection_ok (env_json env) c"
  shows "replayed (env_json env) ((live_point (co_storage c))(pt_id p := Inr (Some p))) (replay_upsert env c p)"
proof -
  have st: "storage_ok (env_json env) (co_storage c)" using ok by (simp add: collection_ok_def)
  note step = stored_steps(1) [OF st, where sealing = None and p = p]
  show ?thesis
  proof (cases "map_err storage_failed (apply_wal_upsert (env_json env) None (co_storage c) p)")
    case (Inr st')
    then have s: "storage_ok (env_json env) st'" "live_point st' = (live_point (co_storage c))(pt_id p := Inr (Some p))"
      using step by (simp_all add: stored_def)
    have "dom (id_index (co_storage c)) \<subseteq> dom (id_index st')" unfolding dom_live [OF st] dom_live [OF s(1)] by (auto simp: s(2))
    then have "\<forall>r. co_resolver c = Some r \<longrightarrow> resolver_wf r \<and> dom (live_by_point r) \<subseteq> dom (id_index st')"
      using collection_resolver [OF ok] by blast
    from collection_storage [OF ok s(1) this] have "collection_ok (env_json env) (c\<lparr>co_storage := st'\<rparr>)" by simp
    then show ?thesis using Inr s(2) by (simp add: replayed_def replay_upsert_def)
  qed (use step in \<open>auto simp: stored_def replayed_def replay_upsert_def\<close>)
qed

lemma replay_delete_ok:
  assumes ok: "collection_ok (env_json env) c"
  shows "replayed (env_json env) ((live_point (co_storage c))(i := Inr None)) (replay_delete env c i)"
proof -
  have st: "storage_ok (env_json env) (co_storage c)" using ok by (simp add: collection_ok_def)
  note step = stored_steps(2) [OF st, where sealing = None and i = i]
  show ?thesis
  proof (cases "map_err storage_failed (apply_wal_delete (env_json env) None (co_storage c) i)")
    case (Inr st')
    then have s: "storage_ok (env_json env) st'" "live_point st' = (live_point (co_storage c))(i := Inr None)"
      using step by (simp_all add: stored_def)
    have "dom (id_index (co_storage c)) - {i} = dom (id_index st')" unfolding dom_live [OF st] dom_live [OF s(1)] by (auto simp: s(2))
    then have "resolver_wf (fst (retire r i)) \<and> dom (live_by_point (fst (retire r i))) \<subseteq> dom (id_index st')" if "co_resolver c = Some r" for r
      using collection_resolver [OF ok that] retire_wf unfolding retire_dom by blast
    then have "collection_ok (env_json env) (c\<lparr>co_resolver := map_option (\<lambda>r. fst (retire r i)) (co_resolver c), co_storage := st'\<rparr>)"
      by (intro collection_storage [OF ok s(1)]) auto
    then show ?thesis using Inr s(2) by (simp add: replayed_def replay_delete_def)
  qed (use step in \<open>auto simp: stored_def replayed_def replay_delete_def\<close>)
qed

lemma replay_set_payload_ok:
  assumes ok: "collection_ok (env_json env) c"
  shows "replayed (env_json env) (entry_effect (SetPayload_entry i payload merge) (live_point (co_storage c)))
     (apply_wal_record env c (lsn, SetPayload_entry i payload merge))"
proof -
  have st: "storage_ok (env_json env) (co_storage c)" using ok by (simp add: collection_ok_def)
  note step = stored_steps(3) [OF st, where i = i and payload = payload and merge = merge]
  show ?thesis
  proof (cases "map_err storage_failed (apply_wal_set_payload (env_json env) (co_storage c) i payload merge)")
    case (Inr st')
    then have s: "storage_ok (env_json env) st'" "live_point st' = entry_effect (SetPayload_entry i payload merge) (live_point (co_storage c))"
      using step by (simp_all add: stored_def entry_effect_def unwrap_transaction_def)
    have "map_sum id (map_option f) r = Inr None \<longleftrightarrow> r = Inr None" for f :: "('a, 'b) Point \<Rightarrow> ('a, 'b) Point" and r :: "'c + ('a, 'b) Point option"
      by (cases r) auto
    then have "dom (id_index (co_storage c)) = dom (id_index st')" unfolding dom_live [OF st] dom_live [OF s(1)] by (auto simp: s(2) entry_effect_def unwrap_transaction_def)
    then have "\<forall>r. co_resolver c = Some r \<longrightarrow> resolver_wf r \<and> dom (live_by_point r) \<subseteq> dom (id_index st')"
      using collection_resolver [OF ok] by blast
    from collection_storage [OF ok s(1) this] have "collection_ok (env_json env) (c\<lparr>co_storage := st'\<rparr>)" by simp
    then show ?thesis using Inr s(2) by (simp add: replayed_def apply_wal_record_def unwrap_transaction_def)
  qed (use step in \<open>auto simp: stored_def replayed_def apply_wal_record_def unwrap_transaction_def\<close>)
qed

section \<open>A graph batch\<close>

lemma stage_assignments_ok:
  assumes "foldE (stage_assignment st up) r hs = Inr r'" "resolver_wf r" "dom (live_by_point r) \<subseteq> dom (id_index st)"
  shows "resolver_wf r' \<and> dom (live_by_point r') \<subseteq> dom (id_index st) \<union> up"
proof (rule foldE_invariant [OF assms(1)])
  show "resolver_wf r \<and> dom (live_by_point r) \<subseteq> dom (id_index st) \<union> up" using assms by blast
next
  fix s x t
  assume s: "resolver_wf s \<and> dom (live_by_point s) \<subseteq> dom (id_index st) \<union> up" and step: "stage_assignment st up s x = Inr t"
  then have b: "bind_live s (ha_point_id x) (ha_nid x) = Inr t" and "ha_point_id x \<in> dom (id_index st) \<union> up"
    by (auto simp: stage_assignment_def res_simps)
  moreover have "dom (live_by_point t) \<subseteq> insert (ha_point_id x) (dom (live_by_point s))"
    using b by (auto simp: bind_live_def split: if_splits option.splits)
  ultimately show "resolver_wf t \<and> dom (live_by_point t) \<subseteq> dom (id_index st) \<union> up" using s bind_live_wf by blast
qed

definition deleted_ids :: "('n, 'f) GraphPointMutation list \<Rightarrow> ustr set" where
  "deleted_ids ms = {i. \<exists>n. Delete_point i n \<in> set ms}"

lemma retire_fold:
  "resolver_wf r \<Longrightarrow> resolver_wf (fold (\<lambda>m r. retire_deleted r m) ms r)
     \<and> dom (live_by_point (fold (\<lambda>m r. retire_deleted r m) ms r)) = dom (live_by_point r) - deleted_ids ms"
proof (induction ms arbitrary: r)
  case (Cons m ms)
  have "resolver_wf (retire_deleted r m)" "dom (live_by_point (retire_deleted r m)) = dom (live_by_point r) - deleted_ids [m]"
    using Cons.prems by (cases m; simp add: retire_deleted_def retire_wf retire_dom deleted_ids_def)+
  moreover have "deleted_ids (m # ms) = deleted_ids [m] \<union> deleted_ids ms" by (auto simp: deleted_ids_def)
  ultimately show ?case using Cons.IH [of "retire_deleted r m"] by auto
qed (simp add: deleted_ids_def)

lemma kept_points:
  assumes "i \<notin> deleted_ids ms" "f i \<noteq> Inr None \<or> (\<exists>p. Upsert_point p \<in> set ms \<and> pt_id p = i)"
  shows "fold mutation_effect ms f i \<noteq> Inr None"
  using assms
proof (induction ms arbitrary: f)
  case (Cons m ms)
  have d: "i \<notin> deleted_ids ms" using Cons.prems(1) by (auto simp: deleted_ids_def)
  have "mutation_effect m f i \<noteq> Inr None \<or> (\<exists>p. Upsert_point p \<in> set ms \<and> pt_id p = i)"
    using Cons.prems by (cases m) (auto simp: mutation_effect_def point_mutation_id_def deleted_ids_def)
  then show ?case using Cons.IH [OF d] by simp
qed simp

lemma stage_points_ok:
  assumes ok: "collection_ok ext c" and r: "co_resolver c = Some r" and stage: "stage_points env c sealing g b = Inr staged"
    and st: "storage_ok ext st" "live_point st = fold mutation_effect (gb_point_mutations b) (live_point (co_storage c))"
  shows "resolver_wf staged \<and> dom (live_by_point staged) \<subseteq> dom (id_index st)"
proof -
  have st0: "storage_ok ext (co_storage c)" using ok by (simp add: collection_ok_def)
  from stage r obtain r1 where r1: "foldE (stage_assignment (co_storage c) (upsert_ids b)) r (gb_handle_assignments b) = (Inr r1 :: 'c replay_error + _)"
    and staged: "staged = fold (\<lambda>m r. retire_deleted r m) (gb_point_mutations b) r1"
    by (auto simp: stage_points_def Let_def res_simps)
  have w: "resolver_wf r1" "dom (live_by_point r1) \<subseteq> dom (id_index (co_storage c)) \<union> upsert_ids b"
    using stage_assignments_ok [OF r1] collection_resolver [OF ok r] by simp_all
  have "i \<in> dom (id_index st)" if i: "i \<in> dom (live_by_point staged)" for i
  proof -
    have "i \<notin> deleted_ids (gb_point_mutations b)" and "i \<in> dom (id_index (co_storage c)) \<union> upsert_ids b"
      using i w retire_fold [OF w(1), of "gb_point_mutations b"] unfolding staged by auto
    moreover have "i \<in> upsert_ids b \<Longrightarrow> \<exists>p. Upsert_point p \<in> set (gb_point_mutations b) \<and> pt_id p = i"
      by (auto simp: upsert_ids_def in_map_filter split: GraphPointMutation.splits) (metis GraphPointMutation.exhaust)
    ultimately show ?thesis unfolding dom_live [OF st(1)] st(2) using kept_points [of i "gb_point_mutations b" "live_point (co_storage c)"]
      by (auto simp: dom_live [OF st0])
  qed
  then show ?thesis using retire_fold [OF w(1)] staged by auto
qed

lemma booked_outcome: "batch_outcome g plan types g' \<Longrightarrow> batch_outcome g plan types (booked g' pc types im)"
  by (simp add: batch_outcome_def)

lemma idempotency_ok:
  assumes "batch_outcome g plan types g'"
  shows "batch_outcome g plan types (apply_validated_idempotency g' e)"
proof -
  have "apply_validated_idempotency g' e = booked g' (persist_changes g') types (idempotency (apply_validated_idempotency g' e))"
    using assms by (auto simp: batch_outcome_def apply_validated_idempotency_def split: option.split)
  then show ?thesis using booked_outcome [OF assms] by metis
qed

text \<open>A prepared batch is applied without a panic, and its plan for the deferred edges is sound.\<close>

lemma prepared_applies:
  assumes ok: "collection_ok (env_json env) c" and prep: "prepare_graph_batch env c sealing lsn b = Inr pr" and g: "co_mutable c = Some g"
  shows "(\<exists>e. apply_prepared_graph_batch env c sealing b pr = Inl (Unreadable e))
    \<or> (\<exists>st g'. apply_prepared_graph_batch env c sealing b pr =
          Inr (c\<lparr>co_storage := st, co_resolver := Some (pr_staged_resolver pr), co_mutable := Some g'\<rparr>)
        \<and> storage_ok (env_json env) st \<and> live_point st = fold mutation_effect (gb_point_mutations b) (live_point (co_storage c))
        \<and> batch_outcome g (pr_deferred_plan pr) (pr_staged_types pr) g')"
    and "final_ok g (dc_edge_id ` set (gb_deferred_binds b)) (pr_deferred_plan pr)"
proof -
  let ?plan = "pr_deferred_plan pr"
  have gok: "graph_inv g" "pending_ok g" using ok g by (simp_all add: collection_ok_def graph_ok_def)
  from prepare_Inr [OF prep] g obtain tenant_of where p: "batch_validate (env_json_len env) (env_batch_len env) b = Inr ()"
    "plan_deferred (env_json_len env) g (pr_staged_resolver pr) (deferred_input lsn b) (pr_staged_types pr) = Inr ?plan"
    "validate_edge_mutations_with_types_and_promotions (env_json_len env) g (pr_staged_resolver pr)
       (gb_edge_mutations b @ promoted ?plan) tenant_of (pr_staged_types pr) (promoted_ids ?plan) = Inr ()"
    "prepare_property_mutations (env_json_len env) g (gb_edge_mutations b @ promoted ?plan) = Inr (pr_edge_mutations pr)" by auto
  note valid = batch_validate_disjoint [OF p(1)]
  have fin: "final_ok g (dc_edge_id ` set (gb_deferred_binds b)) ?plan"
    using plan_deferred_ok(1) [OF gok p(2)] valid(2) by (simp add: deferred_input_def)
  then show "final_ok g (dc_edge_id ` set (gb_deferred_binds b)) ?plan" .
  have st: "storage_ok (env_json env) (co_storage c)" using ok by (simp add: collection_ok_def)
  note fold = point_mutations_fold [OF st, where ms = "gb_point_mutations b" and sealing = sealing]
  show "(\<exists>e. apply_prepared_graph_batch env c sealing b pr = Inl (Unreadable e))
    \<or> (\<exists>st g'. apply_prepared_graph_batch env c sealing b pr =
          Inr (c\<lparr>co_storage := st, co_resolver := Some (pr_staged_resolver pr), co_mutable := Some g'\<rparr>)
        \<and> storage_ok (env_json env) st \<and> live_point st = fold mutation_effect (gb_point_mutations b) (live_point (co_storage c))
        \<and> batch_outcome g ?plan (pr_staged_types pr) g')"
  proof (cases "foldE (apply_point_mutation (env_json env) sealing) (co_storage c) (gb_point_mutations b)")
    case (Inl e)
    then show ?thesis using fold by (auto simp: stored_def apply_prepared_graph_batch_def)
  next
    case (Inr st')
    obtain pc where pc: "track_persist_changes g (pr_record_lsn pr) (pr_edge_mutations pr) ?plan = g\<lparr>persist_changes := pc\<rparr>"
      by (simp add: track_persist_changes_def)
    from batch_graph [OF gok fin valid(1) p(3,4), where pc = pc and types' = "pr_staged_types pr" and im = "idempotency g"] obtain g1
      where g1: "apply_validated_edge_mutations (booked g pc (pr_staged_types pr) (idempotency g)) (pr_edge_mutations pr) = Inr g1"
        "batch_outcome g ?plan (pr_staged_types pr) (apply_deferred_plan g1 ?plan)" by blast
    then show ?thesis using Inr fold g pc idempotency_ok [OF g1(2)] by (auto simp: stored_def apply_prepared_graph_batch_def Let_def expect_def)
  qed
qed

section \<open>No record panics\<close>

definition no_panic :: "'e replay_error + 'a \<Rightarrow> bool" where
  "no_panic r \<longleftrightarrow> (\<forall>p. r \<noteq> Inl (Crashed p))"

lemma no_panic_intros [intro!]:
  "no_panic (Inr x)" "no_panic (Inl (Rejected e))" "no_panic (Inl (refuse m))" "no_panic (map_err (rejected f) r)" "no_panic (map_err Rejected r')"
  "no_panic (ok_or (refuse m) v)"
  by (auto simp: no_panic_def refuse_def rejected_def map_err_def ok_or_def split: sum.splits option.splits)

lemma no_panic_bind: "no_panic m \<Longrightarrow> (\<And>x. m = Inr x \<Longrightarrow> no_panic (f x)) \<Longrightarrow> no_panic (bindE m f)"
  by (cases m) (auto simp: no_panic_def)

lemma no_panic_fold: "(\<And>s x. no_panic (f s x)) \<Longrightarrow> no_panic (foldE f s xs)"
  by (induction xs arbitrary: s) (auto intro: no_panic_bind)

lemma active_graph_no_panic: "no_panic (active_graph c b)"
  unfolding active_graph_def by (auto intro!: no_panic_bind)

lemma stage_points_no_panic: "no_panic (stage_points env c sealing g b)"
proof -
  have "no_panic (stage_assignment st up r h)" for st up r h unfolding stage_assignment_def by auto
  moreover have "no_panic (check_point_mutation env (co_config c) st sealing r m)" for st r m
    unfolding check_point_mutation_def
    by (rule no_panic_bind; cases m; cases "id_index st (point_mutation_id m)") (auto intro!: no_panic_bind split: SegLoc.split)
  moreover have "no_panic (check_tenant_move env st sealing r g' removed m)" for st r g' removed m
    unfolding check_tenant_move_def Let_def by (cases m) (auto intro!: no_panic_bind split: option.split)
  ultimately show ?thesis unfolding stage_points_def Let_def by (auto intro!: no_panic_bind no_panic_fold)
qed

lemma properties_no_panic:
  assumes inv: "graph_inv g" "pending_ok g" and valid: "batch_validate json_len batch_len b = Inr ()"
    and plan: "plan_deferred json_len g staged (deferred_input lsn b) types = Inr plan"
    and val: "validate_edge_mutations_with_types_and_promotions json_len g staged (gb_edge_mutations b @ promoted plan) tenant_of types (promoted_ids plan) = Inr ()"
  shows "no_panic (map_err mutation_failed (prepare_property_mutations json_len g (gb_edge_mutations b @ promoted plan)))"
proof -
  have fin: "final_ok g (dc_edge_id ` set (gb_deferred_binds b)) plan"
    using plan_deferred_ok(1) [OF inv plan] batch_validate_disjoint(2) [OF valid] by (simp add: deferred_input_def)
  have "\<forall>i \<in> promoted_ids plan. dormant g i"
    unfolding promoted_ids [OF fin] by (intro ballI final_dormant [OF inv fin] promoted_origin [OF fin])
  from validated_all_ready(1) [OF inv(1) val this] show ?thesis by (auto simp: no_panic_def map_err_def rejected_def)
qed

lemma active_graph_Inr:
  "active_graph c b = Inr g \<Longrightarrow> lc_enabled (co_lifecycle c) \<and> co_mutable c = Some g \<and> lc_epoch (co_lifecycle c) = Some (g_epoch g)"
  by (auto simp: active_graph_def res_simps split: if_splits)

lemma prepare_no_panic:
  assumes ok: "collection_ok (env_json env) c"
  shows "no_panic (prepare_graph_batch env c sealing lsn b)"
proof -
  have graph: "graph_inv g" "pending_ok g" if "active_graph c b = Inr g" for g
    using ok active_graph_Inr [OF that] by (simp_all add: collection_ok_def graph_ok_def)
  show ?thesis unfolding prepare_graph_batch_def Let_def
    by (intro no_panic_bind no_panic_intros active_graph_no_panic stage_points_no_panic properties_no_panic) (simp_all add: res_simps graph)
qed

section \<open>Every record\<close>

lemma corruption_no_panic: "no_panic r \<Longrightarrow> no_panic (map_err graph_batch_corruption r)"
  by (cases r; cases "projl r") (auto simp: no_panic_def map_err_def)

lemma collection_okD:
  assumes "collection_ok ext c"
  shows "storage_ok ext (co_storage c)" "lifecycle_ok (co_lifecycle c)" "co_resolver c = None \<longleftrightarrow> lc_epoch (co_lifecycle c) = None"
    "co_mutable c \<noteq> None \<longleftrightarrow> lc_enabled (co_lifecycle c)" "co_mutable c = Some g \<Longrightarrow> graph_ok (co_lifecycle c) g"
  using assms by (simp_all add: collection_ok_def)

lemma prepared_graph_ok:
  assumes ok: "collection_ok (env_json env) c" and prep: "prepare_graph_batch env c sealing lsn b = Inr pr" and g: "co_mutable c = Some g"
    and out: "batch_outcome g (pr_deferred_plan pr) (pr_staged_types pr) g'"
  shows "graph_ok (co_lifecycle c) g'"
proof -
  note gok = collection_okD(5) [OF ok g, unfolded graph_ok_def]
  have v: "batch_validate (env_json_len env) (env_batch_len env) b = Inr ()"
    and types: "stage_types (g_types g) (gb_type_configurations b) = (Inr (pr_staged_types pr) :: ('c, _) gresult)"
    and plan: "plan_deferred (env_json_len env) g (pr_staged_resolver pr) (deferred_input lsn b) (pr_staged_types pr) = Inr (pr_deferred_plan pr)"
    by (rule prepare_Inr [OF prep]; use g in simp)+
  note valid = batch_validate_disjoint [OF v]
  have "\<forall>s. s \<notin> session_id ` set (gb_deferred_sessions b) \<longrightarrow> session_updates (pr_deferred_plan pr) s = None"
    using plan_deferred_ok(3) [OF _ _ plan] gok valid(2) by (simp add: deferred_input_def)
  then have "dom (session_updates (pr_deferred_plan pr)) \<subseteq> session_id ` set (gb_deferred_sessions b)" by (intro subsetI) (metis domIff)
  then have "\<forall>sid \<in> dom (session_updates (pr_deferred_plan pr)). validate_graph_key sid = Inr ()" using valid(3) by blast
  then show ?thesis using gok out conjunct1 [OF stage_types_wf [OF _ types]] by (auto simp: graph_ok_def batch_outcome_def)
qed

lemma replay_batch_ok:
  assumes ok: "collection_ok (env_json env) c"
  shows "replayed (env_json env) (fold mutation_effect (gb_point_mutations b) (live_point (co_storage c))) (apply_wal_graph_batch env c lsn b)"
proof (cases "prepare_graph_batch env c None lsn b")
  case (Inl e)
  then have "\<forall>p. graph_batch_corruption e \<noteq> Crashed p"
    using corruption_no_panic [OF prepare_no_panic [OF ok, of None lsn b]] by (simp add: no_panic_def map_err_def)
  then show ?thesis using Inl by (simp add: apply_wal_graph_batch_def replayed_def map_err_def)
next
  case (Inr pr)
  from prepare_Inr [OF Inr] obtain g where g: "co_mutable c = Some g" "lc_epoch (co_lifecycle c) = Some (g_epoch g)"
    and stage: "stage_points env c None g b = Inr (pr_staged_resolver pr)" by metis
  then obtain r where r: "co_resolver c = Some r" using collection_okD(3) [OF ok] by auto
  from prepared_applies(1) [OF ok Inr g(1)] show ?thesis
  proof (elim disjE exE conjE)
    fix e assume "apply_prepared_graph_batch env c None b pr = Inl (Unreadable e)"
    then show ?thesis using Inr by (simp add: apply_wal_graph_batch_def replayed_def map_err_def)
  next
    fix st g'
    assume a: "apply_prepared_graph_batch env c None b pr = Inr (c\<lparr>co_storage := st, co_resolver := Some (pr_staged_resolver pr), co_mutable := Some g'\<rparr>)"
      and st: "storage_ok (env_json env) st" "live_point st = fold mutation_effect (gb_point_mutations b) (live_point (co_storage c))"
      and out: "batch_outcome g (pr_deferred_plan pr) (pr_staged_types pr) g'"
    have "resolver_wf (pr_staged_resolver pr) \<and> dom (live_by_point (pr_staged_resolver pr)) \<subseteq> dom (id_index st)"
      by (rule stage_points_ok [OF ok r stage st])
    then show ?thesis using a st Inr prepared_graph_ok [OF ok Inr g(1) out] collection_okD [OF ok] g(1) r
      by (simp add: apply_wal_graph_batch_def replayed_def collection_ok_def)
  qed
qed

lemma replayed_fold:
  assumes step: "\<And>c x. collection_ok ext c \<Longrightarrow> replayed ext (effect x (live_point (co_storage c))) (run c x)" and "collection_ok ext c"
  shows "replayed ext (fold effect xs (live_point (co_storage c))) (foldE run c xs)"
  using assms(2)
proof (induction xs arbitrary: c)
  case (Cons x xs)
  show ?case
  proof (cases "run c x")
    case (Inr c1)
    then have "collection_ok ext c1" "live_point (co_storage c1) = effect x (live_point (co_storage c))"
      using step [OF Cons.prems, of x] by (simp_all add: replayed_def)
    then show ?thesis using Cons.IH [of c1] Inr by simp
  qed (use step [OF Cons.prems, of x] in \<open>simp add: replayed_def\<close>)
qed (simp add: replayed_def)

lemma replayed_advance:
  assumes "collection_ok ext c"
  shows "replayed ext (live_point (co_storage c)) (replay_advance c epoch enabled)"
proof (cases "replay_advance c epoch enabled")
  case (Inl e)
  then show ?thesis by (auto simp: replayed_def replay_advance_def map_err_def split: sum.splits)
next
  case (Inr c')
  then have "co_storage c' = co_storage c" by (auto simp: replay_advance_def res_simps)
  then show ?thesis using Inr replay_advance_ok [OF assms Inr] by (simp add: replayed_def)
qed

lemma replay_record_ok:
  assumes ok: "collection_ok (env_json env) c"
  shows "replayed (env_json env) (entry_effect (snd record) (live_point (co_storage c))) (apply_wal_record env c record)"
proof (cases "unwrap_transaction (snd record)")
  case (SetPayload_entry i payload merge)
  then show ?thesis using replay_set_payload_ok [OF ok, of i payload merge "fst record"]
    by (simp add: apply_wal_record_def entry_effect_def unwrap_transaction_def)
next
  case (UpsertBatch_entry ps)
  then show ?thesis using replayed_fold [where run = "replay_upsert env" and effect = "\<lambda>p f. f(pt_id p := Inr (Some p))", OF replay_upsert_ok ok, of ps]
    by (simp add: apply_wal_record_def entry_effect_def)
next
  case (DeleteBatch_entry ids)
  then show ?thesis using replayed_fold [where run = "replay_delete env" and effect = "\<lambda>i f. f(i := Inr None)", OF replay_delete_ok ok, of ids]
    by (simp add: apply_wal_record_def entry_effect_def)
qed (use replay_upsert_ok [OF ok] replay_delete_ok [OF ok] replayed_advance [OF ok] replay_batch_ok [OF ok] ok
    in \<open>simp_all add: apply_wal_record_def entry_effect_def\<close>, simp_all add: replayed_def)

lemma replay_log_ok:
  assumes "collection_ok (env_json env) c"
  shows "replayed (env_json env) (fold (\<lambda>record. entry_effect (snd record)) records (live_point (co_storage c))) (foldE (apply_wal_record env) c records)"
  using assms by (rule replayed_fold [rotated]) (rule replay_record_ok)

text \<open>A collection as it is created, before the first record.\<close>

definition collection_new :: "CollectionConfig \<Rightarrow> ('n, 'f, 'e) Collection" where
  "collection_new config =
     \<lparr>co_config = config,
      co_storage = \<lparr>streamer = with_base_lsn 0, searchers = [], id_index = Map.empty, payload_index = index_default\<rparr>,
      co_lifecycle = lifecycle_default, co_resolver = None, co_mutable = None\<rparr>"

lemma collection_new_ok: "collection_ok ext (collection_new config :: ('n, 'f, 'e) Collection)"
proof -
  have "Point_Storage.listed (co_storage (collection_new config :: ('n, 'f, 'e) Collection)) = Map.empty"
    by (simp add: fun_eq_iff Point_Storage.listed_def collection_new_def)
  then show ?thesis using represents_default [of ext]
    by (simp add: collection_ok_def collection_new_def storage_ok_def sealed_live_def lifecycle_ok_def lifecycle_default_def with_base_lsn_def)
qed

section \<open>What becomes of deferred edges\<close>

lemma plan_creates_ids:
  "foldE (plan_create json_len g resolver types) plan xs = Inr plan' \<Longrightarrow>
     created_edge_ids plan' = created_edge_ids plan \<union> (dc_edge_id \<circ> snd) ` set xs"
proof (induction xs arbitrary: plan)
  case (Cons x xs)
  then obtain plan1 where one: "plan_create json_len g resolver types plan x = Inr plan1"
    and rest: "foldE (plan_create json_len g resolver types) plan1 xs = Inr plan'" by (auto simp: res_simps)
  have "created_edge_ids plan1 = insert (dc_edge_id (snd x)) (created_edge_ids plan)"
    using one by (auto simp: plan_create_def Let_def res_simps split: option.splits if_splits)
  then show ?case using Cons.IH [OF rest] by auto
qed simp

lemma plan_bind_created: "plan_bind g resolver assigned plan x = Inr plan' \<Longrightarrow> created_edge_ids plan' = created_edge_ids plan"
  unfolding plan_bind_def Let_def by (clarsimp simp: bindE_eq_Inr split: if_splits)

lemma plan_terminal_created: "plan_terminal g plan m = Inr plan' \<Longrightarrow> created_edge_ids plan' = created_edge_ids plan"
  by (cases m) (auto simp: plan_terminal_def Let_def close_session_fields plan_aborts_fields split: if_splits)

lemma plan_deferred_created:
  assumes "plan_deferred json_len g resolver inp types = Inr plan"
  shows "created_edge_ids plan = dc_edge_id ` set (creates inp)"
proof -
  from assms obtain ss plan1 plan2 where
    c: "foldE (plan_create json_len g resolver types) (plan_default\<lparr>session_updates := fst ss\<rparr>) (enumerate 0 (creates inp)) = Inr plan1"
    and b: "foldE (plan_bind g resolver (assignments inp)) plan1 (enumerate 0 (endpoint_binds inp)) = Inr plan2"
    and t: "foldE (plan_terminal g) (plan_promotions plan2) (snd ss) = Inr plan" by (auto simp: plan_deferred_def res_simps)
  have "created_edge_ids plan2 = created_edge_ids plan1" by (rule foldE_invariant [OF b]) (simp_all add: plan_bind_created)
  moreover have "created_edge_ids plan = created_edge_ids plan2"
    by (rule foldE_invariant [OF t]) (simp_all add: plan_terminal_created, simp add: plan_promotions_def)
  moreover have "(dc_edge_id \<circ> snd) ` set (enumerate 0 (creates inp)) = dc_edge_id ` set (creates inp)"
    by (metis image_comp list.set_map map_snd_enumerate)
  ultimately show ?thesis using plan_creates_ids [OF c] by (simp add: plan_default_def)
qed

lemma accepted_batch:
  assumes ok: "collection_ok (env_json env) c" and g: "co_mutable c = Some g" and acc: "apply_wal_graph_batch env c lsn b = Inr c'"
  obtains pr st g' where "prepare_graph_batch env c None lsn b = Inr pr"
    "c' = c\<lparr>co_storage := st, co_resolver := Some (pr_staged_resolver pr), co_mutable := Some g'\<rparr>"
    "batch_outcome g (pr_deferred_plan pr) (pr_staged_types pr) g'" "final_ok g (dc_edge_id ` set (gb_deferred_binds b)) (pr_deferred_plan pr)"
    "plan_deferred (env_json_len env) g (pr_staged_resolver pr) (deferred_input lsn b) (pr_staged_types pr) = Inr (pr_deferred_plan pr)"
    "distinct (map session_id (gb_deferred_sessions b))"
proof -
  from acc obtain pr where pr: "prepare_graph_batch env c None lsn b = Inr pr" "apply_prepared_graph_batch env c None b pr = Inr c'"
    by (auto simp: apply_wal_graph_batch_def res_simps)
  have v: "batch_validate (env_json_len env) (env_batch_len env) b = Inr ()"
    and plan: "plan_deferred (env_json_len env) g (pr_staged_resolver pr) (deferred_input lsn b) (pr_staged_types pr) = Inr (pr_deferred_plan pr)"
    by (rule prepare_Inr [OF pr(1)]; use g in simp)+
  from prepared_applies(1) [OF ok pr(1) g] pr(2) obtain st g' where
    "c' = c\<lparr>co_storage := st, co_resolver := Some (pr_staged_resolver pr), co_mutable := Some g'\<rparr>"
    "batch_outcome g (pr_deferred_plan pr) (pr_staged_types pr) g'" by auto
  then show ?thesis using that [OF pr(1) _ _ prepared_applies(2) [OF ok pr(1) g] plan batch_validate_disjoint(2) [OF v]] by blast
qed

lemma outcome_pending:
  assumes "batch_outcome g plan types g'" "map_of (pending_edges g') i = Some p"
  shows "deferred_session_is_open g' (pe_session_id p)"
proof -
  have "pending_ok g'" using assms(1) by (simp add: batch_outcome_def)
  then show ?thesis using assms(2) by (fastforce simp: pending_ok_def session_open_at_def deferred_session_is_open_def)
qed

lemma outcome_session:
  assumes "batch_outcome g plan types g'" "session_updates plan sid = Some d"
  shows "deferred_sessions g' sid = Some d"
  using assms by (simp add: batch_outcome_def)

text \<open>The fate of an edge that was pending or that the batch records: still pending, live, or aborted.\<close>

lemma deferred_fate:
  assumes out: "batch_outcome g plan types g'" and fin: "final_ok g C plan"
    and i: "map_of (pending_edges g) i \<noteq> None \<or> i \<in> created_edge_ids plan"
  shows "(\<exists>q. map_of (pending_edges g') i = Some q)
    \<or> (\<exists>r. Relate r \<in> set (promoted plan) \<and> rm_edge_id r = i \<and> edge_namespace g' i = Inr (Some (rm_namespace r))
         \<and> edge_properties g' i = Inr (Some (rm_properties r)))
    \<or> i \<in> set (aborted_edge_ids plan) \<and> i \<in> edge_tombstones g'"
proof -
  from final_okD(11) [OF fin i] show ?thesis
  proof (elim disjE)
    assume "i \<in> mutation_edge_id ` set (promoted plan)"
    then obtain r where "Relate r \<in> set (promoted plan)" "rm_edge_id r = i" using final_okD(8) [OF fin] by fastforce
    then show ?thesis using out unfolding batch_outcome_def by blast
  qed (use out in \<open>auto simp: batch_outcome_def\<close>)
qed

lemma pending_carries:
  assumes out: "batch_outcome g plan types g'" and fin: "final_ok g C plan" and p: "map_of (pending_edges g) i = Some p"
    and q: "map_of (pending_edges g') i = Some q"
  shows "carries q p"
proof -
  have "planned g plan i = Some q" using out q by (simp add: batch_outcome_def)
  then show ?thesis using p final_okD(7) [OF fin p] by (auto simp: planned_def projected_def carries_def split: option.splits)
qed

lemma pending_fate:
  assumes out: "batch_outcome g plan types g'" and fin: "final_ok g C plan" and p: "map_of (pending_edges g) i = Some p"
    and plan: "graph_inv g" "pending_ok g" "plan_deferred json_len g resolver inp types' = Inr plan" "distinct (map session_id (session_mutations inp))"
  shows "(\<exists>q. map_of (pending_edges g') i = Some q \<and> carries q p)
    \<or> edge_namespace g' i = Inr (Some (pe_namespace p)) \<and> edge_properties g' i = Inr (Some (pe_properties p))
    \<or> i \<in> edge_tombstones g' \<and> deferred_session_is_aborted g' (pe_session_id p)"
proof -
  have "map_of (pending_edges g) i \<noteq> None \<or> i \<in> created_edge_ids plan" using p by simp
  from deferred_fate [OF out fin this] show ?thesis
  proof (elim disjE exE conjE)
    fix q assume q: "map_of (pending_edges g') i = Some q"
    then show ?thesis using pending_carries [OF out fin p q] by blast
  next
    fix r assume r: "Relate r \<in> set (promoted plan)" "rm_edge_id r = i" "edge_namespace g' i = Inr (Some (rm_namespace r))"
      "edge_properties g' i = Inr (Some (rm_properties r))"
    then show ?thesis using final_okD(8) [OF fin r(1)] p by auto
  next
    assume i: "i \<in> set (aborted_edge_ids plan)" "i \<in> edge_tombstones g'"
    then have m: "Abort_mutation (pe_session_id p) \<in> set (session_mutations inp)" using plan_deferred_ok(4) [OF plan] p by blast
    then obtain d where "session_updates plan (pe_session_id p) = Some d" "ds_status d = Aborted"
      using plan_deferred_ok(2) [OF plan] by (force simp: session_id_def ends_as_def)
    then show ?thesis using i(2) outcome_session [OF out] by (simp add: deferred_session_is_aborted_def)
  qed
qed

text \<open>
  C11. No deferred edge is lost: when a batch is accepted, an edge that was pending is still pending
  with the same session, namespace and properties, or is a live edge with them, or is tombstoned and its
  session is aborted; an edge the batch records is pending, live or tombstoned. Pending edges belong
  to open sessions only, and the bindings listed for a point, a session and its opening position are exactly the
  missing endpoints of the pending edges.
\<close>

theorem deferred_edges_accounted:
  assumes "collection_ok (env_json env) c" and "co_mutable c = Some g" and "apply_wal_graph_batch env c lsn b = Inr c'"
  shows "\<exists>g'. co_mutable c' = Some g'
    \<and> (\<forall>i p. map_of (pending_edges g) i = Some p \<longrightarrow>
          (\<exists>q. map_of (pending_edges g') i = Some q \<and> pe_session_id q = pe_session_id p \<and> pe_namespace q = pe_namespace p \<and> pe_properties q = pe_properties p)
        \<or> edge_namespace g' i = Inr (Some (pe_namespace p)) \<and> edge_properties g' i = Inr (Some (pe_properties p))
        \<or> i \<in> edge_tombstones g' \<and> deferred_session_is_aborted g' (pe_session_id p))
    \<and> (\<forall>e \<in> set (gb_deferred_binds b). map_of (pending_edges g') (dc_edge_id e) \<noteq> None
        \<or> (\<exists>ns. edge_namespace g' (dc_edge_id e) = Inr (Some ns)) \<or> dc_edge_id e \<in> edge_tombstones g')
    \<and> (\<forall>i p. map_of (pending_edges g') i = Some p \<longrightarrow> deferred_session_is_open g' (pe_session_id p))
    \<and> (\<forall>point sid since i e. (i, e) \<in> set (pending_bindings g' point sid since) \<longleftrightarrow>
         (\<exists>p. map_of (pending_edges g') i = Some p \<and> pe_session_id p = sid \<and> pe_opening_lsn p = since
            \<and> (case e of Source \<Rightarrow> pe_source_nid p = None \<and> pe_source_point_id p = point | Target \<Rightarrow> pe_target_nid p = None \<and> pe_target_point_id p = point)))"
proof -
  obtain pr st g' where "prepare_graph_batch env c None lsn b = Inr pr" and c': "c' = c\<lparr>co_storage := st, co_resolver := Some (pr_staged_resolver pr), co_mutable := Some g'\<rparr>"
    and out: "batch_outcome g (pr_deferred_plan pr) (pr_staged_types pr) g'"
    and fin: "final_ok g (dc_edge_id ` set (gb_deferred_binds b)) (pr_deferred_plan pr)"
    and plan: "plan_deferred (env_json_len env) g (pr_staged_resolver pr) (deferred_input lsn b) (pr_staged_types pr) = Inr (pr_deferred_plan pr)"
    and "distinct (map session_id (gb_deferred_sessions b))" by (rule accepted_batch [OF assms])
  then have d: "distinct (map session_id (session_mutations (deferred_input lsn b)))" by (simp add: deferred_input_def)
  have g: "graph_inv g" "pending_ok g" using collection_okD(5) [OF assms(1,2)] by (simp_all add: graph_ok_def)
  have created: "created_edge_ids (pr_deferred_plan pr) = dc_edge_id ` set (gb_deferred_binds b)"
    using plan_deferred_created [OF plan] by (simp add: deferred_input_def)
  have "pending_ok g'" using out by (simp add: batch_outcome_def)
  then have ix: "index_ok (pending_by_endpoint g') (map_of (pending_edges g'))" by (simp add: pending_ok_def)
  show ?thesis
  proof (intro exI [of _ g'] conjI allI impI ballI)
    show "co_mutable c' = Some g'" by (simp add: c')
  next
    fix i p assume "map_of (pending_edges g) i = Some p"
    from pending_fate [OF out fin this g plan d] show "(\<exists>q. map_of (pending_edges g') i = Some q \<and> pe_session_id q = pe_session_id p \<and> pe_namespace q = pe_namespace p \<and> pe_properties q = pe_properties p)
        \<or> edge_namespace g' i = Inr (Some (pe_namespace p)) \<and> edge_properties g' i = Inr (Some (pe_properties p))
        \<or> i \<in> edge_tombstones g' \<and> deferred_session_is_aborted g' (pe_session_id p)" unfolding carries_def .
  next
    fix e assume "e \<in> set (gb_deferred_binds b)"
    then show "map_of (pending_edges g') (dc_edge_id e) \<noteq> None \<or> (\<exists>ns. edge_namespace g' (dc_edge_id e) = Inr (Some ns)) \<or> dc_edge_id e \<in> edge_tombstones g'"
      using deferred_fate [OF out fin, of "dc_edge_id e"] created by blast
  next
    fix i p assume "map_of (pending_edges g') i = Some p"
    then show "deferred_session_is_open g' (pe_session_id p)" by (rule outcome_pending [OF out])
  next
    fix point sid since i e
    show "(i, e) \<in> set (pending_bindings g' point sid since) \<longleftrightarrow>
         (\<exists>p. map_of (pending_edges g') i = Some p \<and> pe_session_id p = sid \<and> pe_opening_lsn p = since
            \<and> (case e of Source \<Rightarrow> pe_source_nid p = None \<and> pe_source_point_id p = point | Target \<Rightarrow> pe_target_nid p = None \<and> pe_target_point_id p = point))"
      using index_okD(3) [OF ix, of i e "(point, sid, since)"] by (cases e) (auto simp: pending_bindings_def entries_at_def waits_def)
  qed
qed

section \<open>Aborting a session\<close>

definition abort_batch :: "graph_epoch \<Rightarrow> ustr \<Rightarrow> ('n, 'f) GraphBatch" where
  "abort_batch epoch sid = batch_default\<lparr>gb_graph_epoch := epoch, gb_deferred_sessions := [Abort_mutation sid]\<rparr>"

lemma abort_batch_fields [simp]:
  "gb_idempotency (abort_batch epoch sid) = None" "gb_handle_assignments (abort_batch epoch sid) = []"
  "gb_point_mutations (abort_batch epoch sid) = []" "gb_edge_mutations (abort_batch epoch sid) = []"
  "gb_type_configurations (abort_batch epoch sid) = []" "gb_deferred_binds (abort_batch epoch sid) = []" "gb_edge_binds (abort_batch epoch sid) = []"
  "gb_deferred_sessions (abort_batch epoch sid) = [Abort_mutation sid]" "gb_graph_epoch (abort_batch epoch sid) = epoch"
  "gb_version (abort_batch epoch sid) = GRAPH_BATCH_VERSION"
  by (simp_all add: abort_batch_def batch_default_def)

lemma abort_batch_valid:
  assumes "validate_graph_key sid = Inr ()" "epoch \<noteq> 0" "batch_len (abort_batch epoch sid) \<le> MAX_GRAPH_BATCH_BYTES"
  shows "batch_validate json_len batch_len (abort_batch epoch sid) = Inr ()"
  using assms by (simp add: batch_validate_def validate_configurations_def validate_point_mutations_def
      validate_assignments_def validate_session_def session_id_def insert_new_def edge_count_def checked_add_def ok_or_def)

lemma abort_plan:
  assumes "deferred_session_is_open g sid"
  shows "\<exists>plan. plan_deferred json_len g r (deferred_input lsn (abort_batch epoch sid :: ('n, 'f) GraphBatch)) types = Inr plan \<and> promoted plan = []
    \<and> (\<forall>i. map_of (pending_updates plan) i \<noteq> None \<longrightarrow> (\<exists>j p. (j, p) \<in> set (pending_edges g) \<and> pe_edge_id p = i \<and> pe_session_id p = sid))"
proof -
  from assms obtain d where d: "deferred_sessions g sid = Some d" "ds_status d = Open_session"
    by (auto simp: deferred_session_is_open_def split: option.splits)
  have "\<exists>j p. (j, p) \<in> set (pending_edges g) \<and> pe_edge_id p = i \<and> pe_session_id p = sid"
    if "i \<in> set (abort_ids g plan0 sid)" "pending_updates plan0 = []" for i plan0 using that by (force simp: abort_ids_def List.map_filter_simps)
  then show ?thesis using d
    by (simp add: plan_deferred_def deferred_input_def plan_session_def plan_terminal_def
        plan_promotions_def plan_default_def close_session_fields plan_aborts_fields List.map_filter_simps)
qed

lemma stage_types_Nil: "stage_types types [] = Inr types"
  by (simp add: stage_types_def)

lemma abort_prepares:
  fixes env :: "('n, 'f) replay_env"
  assumes ok: "collection_ok (env_json env) c" and g: "co_mutable c = Some g" and sid: "deferred_session_is_open g sid"
    and len: "env_batch_len env (abort_batch (g_epoch g) sid) \<le> MAX_GRAPH_BATCH_BYTES"
  shows "\<exists>pr. prepare_graph_batch env c None lsn (abort_batch (g_epoch g) sid) = Inr pr \<and> co_resolver c = Some (pr_staged_resolver pr)"
proof -
  let ?b = "abort_batch (g_epoch g) sid :: ('n, 'f) GraphBatch"
  have gok: "graph_ok (co_lifecycle c) g" by (rule collection_okD(5) [OF ok g])
  have e: "lc_epoch (co_lifecycle c) = Some (g_epoch g)" "lc_enabled (co_lifecycle c)" using gok collection_okD(4) [OF ok] g by (auto simp: graph_ok_def)
  then obtain r where r: "co_resolver c = Some r" using collection_okD(3) [OF ok] by auto
  have "g_epoch g \<noteq> 0" using e collection_okD(2) [OF ok] by (simp add: lifecycle_ok_def)
  moreover have "validate_graph_key sid = Inr ()" using gok sid by (auto simp: graph_ok_def deferred_session_is_open_def split: option.splits)
  ultimately have v: "batch_validate (env_json_len env) (env_batch_len env) ?b = Inr ()" using len by (intro abort_batch_valid)
  have a: "active_graph c ?b = Inr g" using e g by (simp add: active_graph_def ok_or_def)
  from abort_plan [OF sid, of "env_json_len env" r lsn "g_epoch g" "g_types g"] obtain plan where
    p: "plan_deferred (env_json_len env) g r (deferred_input lsn ?b) (g_types g) = Inr plan" "promoted plan = []" by blast
  have "stage_points env c None g ?b = Inr r" "validate_idempotency g (gb_idempotency ?b) = Inr ()"
    using r by (simp_all add: stage_points_def Let_def validate_idempotency_def)
  then show ?thesis using v a p r
    by (simp add: prepare_graph_batch_def Let_def map_err_def stage_types_Nil validate_edge_mutations_with_types_and_promotions_def prepare_property_mutations_def)
qed

lemma aborted_graph:
  assumes inv: "graph_inv g" "pending_ok g" and sid: "deferred_session_is_open g sid"
    and plan: "plan_deferred json_len g r (deferred_input lsn (abort_batch epoch sid :: ('n, 'f) GraphBatch)) types = Inr plan"
    and out: "batch_outcome g plan types' g'" and fin: "final_ok g C plan"
  shows "deferred_session_is_aborted g' sid" "pending_edge_count_for_session g' sid = 0"
    and "s \<noteq> sid \<Longrightarrow> deferred_sessions g' s = deferred_sessions g s"
    and "map_of (pending_edges g) i = Some p \<Longrightarrow> if pe_session_id p = sid then i \<in> edge_tombstones g' else map_of (pending_edges g') i = Some p"
proof -
  from abort_plan [where 'f = 'f, OF sid, of json_len r lsn epoch types] plan have none: "promoted plan = []"
    and upd: "\<And>i. map_of (pending_updates plan) i \<noteq> None \<Longrightarrow> \<exists>j p. (j, p) \<in> set (pending_edges g) \<and> pe_edge_id p = i \<and> pe_session_id p = sid" by auto
  have ms: "session_mutations (deferred_input lsn (abort_batch epoch sid :: ('n, 'f) GraphBatch)) = [Abort_mutation sid]" by (simp add: deferred_input_def)
  note sound = plan_deferred_ok [OF inv plan, unfolded ms, simplified, unfolded session_id_def ends_as_def, simplified]
  show ab: "deferred_session_is_aborted g' sid"
    using sound(2) outcome_session [OF out] by (auto simp: deferred_session_is_aborted_def)
  then have closed: "\<not> deferred_session_is_open g' sid" by (auto simp: deferred_session_is_aborted_def deferred_session_is_open_def split: option.splits)
  show "deferred_sessions g' s = deferred_sessions g s" if "s \<noteq> sid"
    using out sound(3) that by (auto simp: batch_outcome_def map_add_def)
  have "pending_ok g'" using out by (simp add: batch_outcome_def)
  then have "distinct (map fst (pending_edges g'))" by (simp add: pending_ok_def sorted_distinct_keys)
  then have "pe_session_id q \<noteq> sid" if "(j, q) \<in> set (pending_edges g')" for j q
    using outcome_pending [OF out, of j q] closed that by auto
  then show "pending_edge_count_for_session g' sid = 0" by (auto simp: pending_edge_count_for_session_def filter_empty_conv)
  show "if pe_session_id p = sid then i \<in> edge_tombstones g' else map_of (pending_edges g') i = Some p" if p: "map_of (pending_edges g) i = Some p"
  proof (cases "pe_session_id p = sid")
    case True
    have "map_of (pending_edges g) i \<noteq> None \<or> i \<in> created_edge_ids plan" using p by simp
    moreover have "map_of (pending_edges g') i = None"
    proof (rule ccontr)
      assume "map_of (pending_edges g') i \<noteq> None"
      then obtain q where q: "map_of (pending_edges g') i = Some q" by blast
      then show False using outcome_pending [OF out q] pending_carries [OF out fin p q] True closed by (simp add: carries_def)
    qed
    ultimately show ?thesis using deferred_fate [OF out fin, of i] none True by auto
  next
    case False
    have "map_of (pending_updates plan) i = None"
    proof (rule ccontr)
      assume "map_of (pending_updates plan) i \<noteq> None"
      then obtain j q where q: "(j, q) \<in> set (pending_edges g)" "pe_edge_id q = i" "pe_session_id q = sid" using upd by blast
      moreover have "distinct (map fst (pending_edges g))" using inv(2) by (simp add: pending_ok_def sorted_distinct_keys)
      ultimately have "map_of (pending_edges g) j = Some q" by simp
      then show False using q inv(2) p False by (auto simp: pending_ok_def)
    qed
    then show ?thesis using out p False by (simp add: batch_outcome_def planned_def projected_def)
  qed
qed

lemma prepared_no_points:
  assumes "gb_point_mutations b = []" "co_mutable c = Some g"
  shows "case apply_prepared_graph_batch env c sealing b pr of Inl e \<Rightarrow> \<exists>p. e = Crashed p | Inr c' \<Rightarrow> co_storage c' = co_storage c"
  using assms by (simp add: apply_prepared_graph_batch_def expect_def Let_def map_err_def split: sum.split)


section \<open>Properties of replay\<close>

text \<open>
  C5. Replay never panics: whatever records a log holds, replaying them on a collection in which every
  point has one owner, handles belong to stored points and the graph is consistent (as in a new
  collection) is refused with an error or gives such a collection again. In it no id is live in two
  storage tiers, the payload index files exactly the payloads it is responsible for, the two maps of node handles are
  inverse and name stored points, and there is a graph exactly while the lifecycle is enabled.
\<close>

theorem replay_never_panics:
  assumes "collection_ok (env_json env) c"
  shows "collection_ok (env_json env) (collection_new config)
   \<and> (\<forall>p. foldE (apply_wal_record env) c records \<noteq> Inl (Crashed p))
   \<and> (\<forall>c'. foldE (apply_wal_record env) c records = Inr c' \<longrightarrow>
        collection_ok (env_json env) c'
      \<and> (\<forall>i k. sealed_live (co_storage c') k i \<longrightarrow>
           st_points (streamer (co_storage c')) i = None \<and> (\<forall>l. sealed_live (co_storage c') l i \<longrightarrow> l = k))
      \<and> represents (env_json env) (payload_index (co_storage c')) (Point_Storage.listed (co_storage c'))
      \<and> (\<forall>r i n. co_resolver c' = Some r \<longrightarrow> live_nid r i = Some n \<longrightarrow> live_point_id r n = Some i \<and> live_point (co_storage c') i \<noteq> Inr None)
      \<and> (co_mutable c' \<noteq> None \<longleftrightarrow> lc_enabled (co_lifecycle c')))"
proof (intro conjI allI impI)
  note log = replay_log_ok [OF assms, of records]
  show "collection_ok (env_json env) (collection_new config)" by (rule collection_new_ok)
  show "foldE (apply_wal_record env) c records \<noteq> Inl (Crashed p)" for p using log by (auto simp: replayed_def)
  fix c' assume "foldE (apply_wal_record env) c records = Inr c'"
  then show ok: "collection_ok (env_json env) c'" using log by (simp add: replayed_def)
  note st = collection_okD(1) [OF ok]
  show "st_points (streamer (co_storage c')) i = None" if "sealed_live (co_storage c') k i" for i k
    using that storage_okD(1) [OF st, of i] storage_okD(4) [OF st, of i k] by auto
  show "l = k" if "sealed_live (co_storage c') k i" "sealed_live (co_storage c') l i" for i k l
    using that storage_okD(4) [OF st, of i k] storage_okD(4) [OF st, of i l] by simp
  show "represents (env_json env) (payload_index (co_storage c')) (Point_Storage.listed (co_storage c'))" by (rule storage_okD(6) [OF st])
  show "(co_mutable c' \<noteq> None) = lc_enabled (co_lifecycle c')" by (rule collection_okD(4) [OF ok])
  fix r i n assume r: "co_resolver c' = Some r" "live_nid r i = Some n"
  then have "resolver_wf r" "i \<in> dom (id_index (co_storage c'))" using collection_resolver [OF ok r(1)] by (auto simp: live_nid_def)
  then show "live_point_id r n = Some i" "live_point (co_storage c') i \<noteq> Inr None"
    using r(2) id_index_live [OF st, of i] by (auto simp: resolver_wf_def live_nid_def live_point_id_def)
qed


section \<open>Examples\<close>

definition loading_env :: "(nat, nat) replay_env" where
  "loading_env = \<lparr>env_json = nat_ext, env_json_len = (\<lambda>_. 10), env_batch_len = (\<lambda>_. 10), env_is_finite = (\<lambda>_. True),
     env_order = (\<lambda>_. [AdminCrossTenant])\<rparr>"

definition flat_config :: CollectionConfig where
  "flat_config = \<lparr>cf_vector_dim = 1, cf_named_vector_dims = Map.empty, cf_payload_schema = []\<rparr>"

definition bare_point :: "ustr \<Rightarrow> (nat, nat) Point" where
  "bare_point i = \<lparr>pt_id = i, pt_vector = [1], pt_vectors = [], pt_sparse_vector = None, pt_payload = JObject []\<rparr>"

text \<open>A collection with one sealed point.\<close>

definition sealed_collection :: "(nat, nat, unit) Collection" where
  "sealed_collection = (collection_new flat_config)\<lparr>co_storage :=
     \<lparr>streamer = with_base_lsn 0,
      searchers = [\<lparr>sg_store = Heap [str ''a'' \<mapsto> bare_point (str ''a'')], sg_tombstones = {}, sg_tombstone_ordinals = {}\<rparr>],
      id_index = [str ''a'' \<mapsto> In_searcher 0],
      payload_index = insert_payload_point nat_ext (str ''a'') (JObject []) index_default\<rparr>\<rparr>"

lemma sealed_collection_ok: "collection_ok nat_ext sealed_collection"
proof -
  have "Point_Storage.listed (co_storage sealed_collection) = [str ''a'' \<mapsto> JObject []]"
    by (auto simp: fun_eq_iff Point_Storage.listed_def sealed_collection_def bare_point_def)
  moreover have "represents nat_ext (insert_payload_point nat_ext (str ''a'') (JObject []) index_default) [str ''a'' \<mapsto> JObject []]"
    using represents_insert [OF represents_default, where pid = "str ''a''" and payload = "JObject []" and ext = nat_ext] by simp
  moreover have "sealed_live (co_storage sealed_collection) k i \<longleftrightarrow> k = 0 \<and> i = str ''a''" for k i
    by (cases k) (auto simp: sealed_collection_def sealed_live_def try_get_live_def is_tombstoned_def ordinal_def)
  ultimately have "storage_ok nat_ext (co_storage sealed_collection)"
    by (auto simp: storage_ok_def) (auto simp: sealed_collection_def sound_store_def with_base_lsn_def bare_point_def split: if_splits)
  then show ?thesis by (simp add: collection_ok_def sealed_collection_def collection_new_def lifecycle_ok_def lifecycle_default_def)
qed

definition short_log :: "(nat \<times> (nat, nat) WalEntry) list" where
  "short_log = [(1, SetPayload_entry (str ''a'') (JObject [(str ''x'', JNull)]) True), (2, Upsert_entry (bare_point (str ''b''))),
     (3, Delete_entry (str ''b''))]"

lemma short_log_accepted: "\<exists>c'. foldE (apply_wal_record loading_env) sealed_collection short_log = Inr c'"
  by (simp add: short_log_def apply_wal_record_def unwrap_transaction_def apply_wal_set_payload_def take_sealed_def sealed_collection_def replay_upsert_def
      apply_wal_upsert_def replay_delete_def apply_wal_delete_def map_err_def bare_point_def Let_def streamer_insert_def unlist_payload_def)

theorem replay_never_panics_witness:
  "\<exists>c'. foldE (apply_wal_record loading_env) sealed_collection short_log = Inr c' \<and> collection_ok nat_ext c'"
proof -
  have ok: "collection_ok (env_json loading_env) sealed_collection" using sealed_collection_ok by (simp add: loading_env_def)
  from short_log_accepted obtain c' where "foldE (apply_wal_record loading_env) sealed_collection short_log = Inr c'" by blast
  with replay_never_panics [OF ok, of flat_config short_log] show ?thesis by (auto simp: loading_env_def)
qed


text \<open>A collection whose graph has an open session, and a batch that records an edge between points that do not exist yet.\<close>

definition loading_graph :: "(nat, unit) MutableGraphState" where
  "loading_graph = (mutable_new 1)\<lparr>deferred_sessions := [str ''s'' \<mapsto> \<lparr>ds_opening_lsn = 2, ds_status = Open_session, ds_owner = None\<rparr>]\<rparr>"

definition loading_collection :: "(nat, nat, unit) Collection" where
  "loading_collection = (collection_new flat_config)\<lparr>co_lifecycle := \<lparr>lc_epoch = Some 1, lc_enabled = True\<rparr>,
     co_resolver := Some resolver_default, co_mutable := Some loading_graph\<rparr>"

definition loading_batch :: "(nat, nat) GraphBatch" where
  "loading_batch = batch_default\<lparr>
     gb_type_configurations := [\<lparr>tc_type_id = 1, tc_name = str ''follows'', tc_weight_property = None\<rparr>],
     gb_deferred_binds := [\<lparr>dc_session_id = str ''s'', dc_edge_id = 0x10000000001, dc_source_point_id = str ''a'', dc_target_point_id = str ''b'',
       dc_source_nid = None, dc_target_nid = None, dc_type_id = 1, dc_namespace = Tenant (str ''t''), dc_properties = JObject []\<rparr>]\<rparr>"

lemma sessions_graph_inv: "graph_inv (g\<lparr>deferred_sessions := s\<rparr>) = graph_inv g"
proof -
  have n: "edge_namespace (g\<lparr>deferred_sessions := s\<rparr>) = edge_namespace g"
    by (simp add: fun_eq_iff edge_namespace_def edge_visible_def split: option.split)
  then have "live_ids (g\<lparr>deferred_sessions := s\<rparr>) = live_ids g" by (simp add: live_ids_def)
  moreover have "contains_edge_id (g\<lparr>deferred_sessions := s\<rparr>) = contains_edge_id g" by (simp add: fun_eq_iff contains_edge_id_def)
  ultimately show ?thesis by (simp add: graph_inv_def rows_ok_def documents_ok_def ledger_ok_def)
qed

lemma loading_collection_ok: "collection_ok nat_ext loading_collection"
proof -
  have "validate_graph_key (str ''s'') = Inr ()" by (simp add: validate_graph_key_def str_def utf8_len_def)
  then have "graph_ok \<lparr>lc_epoch = Some 1, lc_enabled = True\<rparr> loading_graph"
    using catalog_default_wf sessions_graph_inv [where g = "mutable_new 1 :: (nat, unit) MutableGraphState"] graph_inv_new [of 1]
    by (simp add: graph_ok_def loading_graph_def pending_ok_def) (simp add: mutable_new_def index_ok_def entries_at_def)
  then show ?thesis using collection_okD(1) [OF collection_new_ok, of nat_ext flat_config] resolver_default_wf
    by (simp add: collection_ok_def loading_collection_def lifecycle_ok_def resolver_default_def collection_new_def)
qed


lemma loading_batch_accepted: "\<exists>c'. apply_wal_graph_batch loading_env loading_collection 3 loading_batch = Inr c'"
proof -
  have e: "edge_from_parts (edge_epoch 0x10000000001) (edge_counter 0x10000000001) = Some 0x10000000001"
    by (simp add: edge_from_parts_def edge_epoch_def edge_counter_def GRAPH_ALLOCATOR_COUNTER_BITS_def max_epoch_num max_counter_num)
  have v: "batch_validate (env_json_len loading_env) (env_batch_len loading_env) loading_batch = Inr ()"
    by (simp add: batch_validate_def loading_batch_def batch_default_def loading_env_def validate_configurations_def validate_point_mutations_def
      validate_assignments_def validate_deferred_bind_def insert_new_def edge_count_def checked_add_def ok_or_def validate_batch_type_id_def
      validate_catalog_key_def validate_graph_key_def validate_batch_edge_id_def e validate_namespace_def validate_properties_def
      MAX_GRAPH_BATCH_BYTES_def MAX_EDGE_PROPERTY_BYTES_def MAX_GRAPH_CATALOG_NAME_BYTES_def MAX_GRAPH_EDGES_PER_BATCH_def graph_epoch_INITIAL_def str_def utf8_len_def)
  have a: "active_graph loading_collection loading_batch = Inr loading_graph"
    by (simp add: active_graph_def loading_collection_def loading_batch_def batch_default_def loading_graph_def mutable_new_def graph_epoch_INITIAL_def ok_or_def)
  have s: "stage_points loading_env loading_collection None loading_graph loading_batch = Inr resolver_default"
    by (simp add: stage_points_def loading_collection_def loading_batch_def batch_default_def)
  obtain types where types: "stage_types (g_types loading_graph) (gb_type_configurations loading_batch) = (Inr types :: (unit, _) gresult)"
    "catalog_get types 1 \<noteq> None"
    by (simp add: stage_types_def loading_graph_def loading_batch_def batch_default_def mutable_new_def catalog_default_def configure_def validate_type_id_def
        validate_catalog_name_def MAX_GRAPH_CATALOG_NAME_BYTES_def str_def utf8_len_def catalog_get_def)
  obtain plan where plan: "plan_deferred (env_json_len loading_env) loading_graph resolver_default (deferred_input 3 loading_batch) types = Inr plan" "promoted plan = []"
    using types(2) by (simp add: plan_deferred_def deferred_input_def loading_batch_def batch_default_def loading_env_def plan_create_def planned_session_def plan_default_def
        loading_graph_def mutable_new_def contains_edge_id_def validate_property_document_def validate_deferred_endpoint_def resolver_default_def live_nid_def
        MAX_EDGE_PROPERTY_BYTES_def plan_promotions_def List.map_filter_simps promotion_def pending_edge_def)
  obtain pr where pr: "prepare_graph_batch loading_env loading_collection None 3 loading_batch = Inr pr"
    using v a s types(1) plan
    by (simp add: prepare_graph_batch_def Let_def map_err_def validate_idempotency_def validate_edge_mutations_with_types_and_promotions_def prepare_property_mutations_def)
      (simp add: loading_batch_def batch_default_def)
  have g: "co_mutable loading_collection = Some loading_graph" "gb_point_mutations loading_batch = []"
    by (simp_all add: loading_collection_def loading_batch_def batch_default_def)
  have ok: "collection_ok (env_json loading_env) loading_collection" using loading_collection_ok by (simp add: loading_env_def)
  have "\<exists>c'. apply_prepared_graph_batch loading_env loading_collection None loading_batch pr = Inr c'"
    using prepared_applies(1) [OF ok pr g(1)] prepared_no_points [OF g(2,1), of loading_env None pr] by auto
  then show ?thesis using pr by (auto simp: apply_wal_graph_batch_def)
qed

theorem deferred_edges_accounted_witness:
  "\<exists>c' g'. apply_wal_graph_batch loading_env loading_collection 3 loading_batch = Inr c' \<and> co_mutable c' = Some g'
     \<and> (map_of (pending_edges g') 0x10000000001 \<noteq> None \<or> (\<exists>ns. edge_namespace g' 0x10000000001 = Inr (Some ns)) \<or> 0x10000000001 \<in> edge_tombstones g')
     \<and> (\<forall>i p. map_of (pending_edges g') i = Some p \<longrightarrow> deferred_session_is_open g' (pe_session_id p))"
proof -
  have ok: "collection_ok (env_json loading_env) loading_collection" using loading_collection_ok by (simp add: loading_env_def)
  have g: "co_mutable loading_collection = Some loading_graph" by (simp add: loading_collection_def)
  have e: "\<exists>e \<in> set (gb_deferred_binds loading_batch). dc_edge_id e = 0x10000000001" by (simp add: loading_batch_def)
  from loading_batch_accepted obtain c' where c': "apply_wal_graph_batch loading_env loading_collection 3 loading_batch = Inr c'" by blast
  from deferred_edges_accounted [OF ok g c'] e c' show ?thesis by metis
qed

end
