(* ===== verification/Spec2Isabelle.thy ===== *)
theory Spec2Isabelle
  imports Nid_Index Graph_Identity Raft Graph_Paths Collection_Reads Replay_Safety
begin

text \<open>
  A verification development of ChironDB, a database server in Rust that keeps vectors, JSON payloads,
  a property graph and relational tables. The crates are \<open>chirondb-types\<close> (shared data and filters),
  \<open>chirondb-core\<close> (the engine) and \<open>chirondb-server\<close> (protocols, clustering); file names below are
  relative to \<open>src/\<close>.

  \<^bold>\<open>How the parts interact.\<close> A point of a collection has an external id and, once it takes part in
  the graph, a node id issued by the identity store (\<open>graph_identity.rs\<close>). The resolver
  (\<open>graph_resolver.rs\<close>) binds point ids to node ids and remembers the retired ones. When a segment is
  sealed, its node ids are written to an index file (\<open>graph_nid.rs\<close>) in the artifact envelope every
  graph file uses (\<open>graph_artifact.rs\<close>). Edges are shown to clients as tokens (\<open>edge_token.rs\<close>).
  Searches and traversals take a JSON filter (\<open>filter.rs\<close>), which the payload index
  (\<open>payload_index.rs\<close>) narrows to candidate points. Relational rows and indexes live under ordered byte
  keys (\<open>key_encoding.rs\<close>). Requests carry the scope of a tenant (\<open>tenant.rs\<close>). Writes are records of a log
  (\<open>wal.rs\<close>); replaying it (\<open>db.rs\<close>) changes the storage tiers, the resolver and the graph together. The servers of a cluster agree on the collection catalog by Raft
  (\<open>raft.rs\<close>).

  \<^bold>\<open>The theories.\<close> Each theory translates one source file, in the order of the code.
  \<^item> \<open>Prelude\<close>: results and their combinators, little-endian bytes, checked and saturating
    arithmetic, and the two locales the components share, \<open>codec\<close> (an encoder with its decoder) and
    \<open>invariant_system\<close> (a start predicate, a step relation and an invariant the steps keep).
  \<^item> \<open>Graph_Types\<close> (\<open>chirondb-types/src/graph.rs\<close>, \<open>error.rs\<close>): node and edge ids, which pack an allocator
    epoch and a counter in one 64-bit word, budgets, statistics and errors.
  \<^item> \<open>Graph_Artifact\<close> (\<open>graph_artifact.rs\<close>): the encoder and the loader of sectioned, checksummed files.
    Every encoded artifact opens and reads back, and whatever opens is well formed.
  \<^item> \<open>Nid_Index\<close> (\<open>graph_nid.rs\<close>): sorted node ids with a Bloom filter; lookup is exact for built and for
    loaded indexes.
  \<^item> \<open>Graph_Identity\<close> (\<open>graph_identity.rs\<close>, \<open>edge_token.rs\<close>): the identity file, epochs and leases. Over
    every sequence of openings, allocations, write failures and root swaps no id is issued twice.
  \<^item> \<open>Graph_Resolver\<close> (\<open>graph_resolver.rs\<close>): binding and retiring points keeps the two maps inverse.
  \<^item> \<open>Raft\<close> (\<open>raft.rs\<close>): the node, its handlers and a cluster that delivers, drops and reorders messages and
    restarts nodes. Elections are safe, logs merge, commits are exact, application follows the log. The
    theory also shows where the code departs from the protocol.
  \<^item> \<open>Key_Encoding\<close> (\<open>relational/key_encoding.rs\<close>): the byte order of keys is the order of the values. The
    locale \<open>order_codec\<close> states what an encoder must satisfy so that tuples of encodings compare field by
    field, and is interpreted for columns, tuples, row identities, index prefixes, row and index keys.
  \<^item> \<open>Json_Filter\<close> (\<open>filter.rs\<close>): complexity limits, matching and extraction of index predicates.
  \<^item> \<open>Payload_Types\<close> and \<open>Payload_Index\<close> (\<open>model.rs\<close>, \<open>payload_index.rs\<close>): postings are exactly the entries of
    the indexed payloads, and the candidates of a filter contain every point that matches it.
  \<^item> \<open>Graph_Traversal\<close>, \<open>Graph_Search\<close>, \<open>Graph_Paths\<close> (\<open>graph_traversal.rs\<close>): breadth-first search and simple paths
    under a budget. The search reports exact distances and the enumeration exactly the simple paths, both
    respect the budget, and they fail only when a provider does or the query is cancelled.
  \<^item> \<open>Mutable_Graph\<close>, \<open>Edge_Mutations\<close> (\<open>mutable_graph.rs\<close> and its modules): the catalog of edge types, the
    unsealed edges over a pinned sealed generation, and edge mutations. Accepted mutations have exactly
    the effect they name, the application pass never panics, and the catalog is one to one.
  \<^item> \<open>Tenant_Scope\<close> (\<open>tenant.rs\<close> and the scoped entry points of \<open>db.rs\<close>): capabilities, narrowed filters, stamped
    writes. Requests under enforcement keep every point with one tenant, and a tenant sees and changes
    only its own points.
  \<^item> \<open>Collection_Reads\<close> (\<open>db.rs\<close>, \<open>gaussctl.rs\<close>): counting and paging through the payload index agree with a full
    scan, and the tenant migration, a loop over pages, ends and visits every point.
  \<^item> \<open>Deferred_Edges\<close>, \<open>Deferred_Sessions\<close> (\<open>mutable_graph.rs\<close>): bulk-load sessions whose edges may name points that do
    not exist yet. The first theory has the definitions, the second what a plan guarantees and that
    applying it keeps the index of missing endpoints exact.
  \<^item> \<open>Point_Storage\<close> (\<open>streamer.rs\<close>, \<open>searcher.rs\<close>, \<open>db.rs\<close>): the streamer, the sealed searchers and the owner of
    each point id. Every point is live in one tier, and the replayed writes have their effect on the live points.
  \<^item> \<open>Graph_Batch\<close> (\<open>graph_lifecycle.rs\<close>, \<open>wal.rs\<close>): epochs of the graph, the batch record and its validation.
  \<^item> \<open>Wal_Replay\<close>, \<open>Replay_Safety\<close> (\<open>db.rs\<close>): preparing and applying a batch, and the replay of a collection's log. No
    record panics, the invariant of the collection is kept, the live points follow the entries, no
    deferred edge is lost, and an open session can be aborted.

  \<^bold>\<open>Conventions.\<close> Fallible functions return a sum with the error on the left; messages are constructors.
  Sizes and counters are natural numbers with the checked or saturating operation of the source written
  out, ids, flags and checksums are machine words. Loops that are not structural have a termination proof,
  so no fuel is used; the migration loop, which may run forever on an ill-behaved server, is a partial
  function with a proof that it returns. Third-party code is an argument: checksums, base64, number text, calendar dates and
  file effects, with what is relied upon as a named hypothesis and an instance in the witness.

  \<^bold>\<open>Not modelled.\<close> The engine's orchestration of threads, locks and disk, schema records and protected
  collections in the log, the SQL executor, approximate
  vector indexes (their quality is statistical), network protocols, cryptography and command-line tools.
\<close>

end
